(* ===== verification/Prelude.thy ===== *)
theory Prelude
  imports Main "HOL-Library.Word"
begin

text \<open>
  Shared vocabulary of the development: machine integers and hashes, the outcome type of
  Rust code (a value, an \<open>Err\<close>, a panic or a loop that does not stop), the checked
  arithmetic of \<^verbatim>\<open>u64\<close>, and the list and word lemmas the component theories use.

  The client is built with \<^verbatim>\<open>cargo build --release\<close> and no profile of its own, so
  \<^verbatim>\<open>+\<close>, \<^verbatim>\<open>-\<close> and \<^verbatim>\<open>*\<close> on \<^verbatim>\<open>u64\<close> wrap around: they are the operations of
  \<^typ>\<open>64 word\<close>.  \<^verbatim>\<open>usize\<close> is 64 bits wide; lengths and indices are \<^typ>\<open>nat\<close>.
\<close>

section \<open>Machine integers and hashes\<close>

type_synonym u8 = "8 word"
type_synonym u16 = "16 word"
type_synonym u32 = "32 word"
type_synonym u64 = "64 word"

text \<open>
  \<^verbatim>\<open>H256\<close> compares as its 32 bytes in order, that is as a big-endian number, so
  \<^verbatim>\<open>a.cmp(&b)\<close> is the order of \<^typ>\<open>256 word\<close>.
\<close>

type_synonym h256 = "256 word"
type_synonym slot = u64

text \<open>\<^verbatim>\<open>u64::checked_sub\<close> and \<^verbatim>\<open>u64::saturating_sub\<close>.\<close>

definition checked_sub :: "u64 \<Rightarrow> u64 \<Rightarrow> u64 option" where
  "checked_sub a b = (if b \<le> a then Some (a - b) else None)"

definition saturating_sub :: "u64 \<Rightarrow> u64 \<Rightarrow> u64" where
  "saturating_sub a b = (if b \<le> a then a - b else 0)"

section \<open>Outcomes\<close>

datatype lean_error =
    SlotOutsideTrackedRange | InvalidBlockSignatures | InvalidStateRoot
  | TargetSlotNotInFuture | DuplicateAttestationData | BlockSlotMismatch
  | BlockOlderThanLatestHeader | IncorrectBlockProposer | BlockParentRootMismatch
  | ListFull | IndexOutOfBounds | ZeroHashInJustificationRoots | UnknownTargetRoot
  | ValidatorIndexOutOfRange | JustificationRootMissing | InvalidValidatorId
  | CandidatesEmpty | KeySignatureCountMismatch | AggregationFailed | SignatureTooLarge
  | AttestationSignatureCountMismatch | AggregatedSignatureInvalid
  | ProposerIndexOutOfRange | ProposerNotFound | ProposerSignatureInvalid
  | InvalidSignature | SigningFailed | DecodeFailed | HexDecodeFailed
  | HeadBlockNotKnown | HeadStateNotFound | NotTheProposer | NoParentState | BlockQueued
  | UnknownSourceBlock | UnknownTargetBlock | UnknownHeadBlock | SourceExceedsTarget
  | SourceSlotMismatch | TargetSlotMismatch | AttestationTooFarInFuture
  | NoKeyLoaded | KeyManagerNotConfigured | KeysDirectoryNotFound | KeyFileUnreadable
  | NodeNotInRegistry | RegistryUnreadable
  | InvalidTopicPartCount | InvalidTopicParts | InvalidTopicKind
  | SnappyFailed | SszDecodeFailed | SszEncodeFailed | TooManyBlockRoots | UnknownProtocol
  | MissingTopic | PublishFailed | UnsupportedKeyType | EnrBuildFailed | EnrParseFailed
  | Discv5Failed | BehaviourFailed | ListenFailed | SubscribeFailed
  | NodeKeyUnreadable | InvalidNodeKey | JsonMismatch | BitListInvalid | SerializationUnsupported
  | MetricRejected | AlreadyRegistered | TimestampBeforeEpoch | TimestampTooLarge

datatype panic =
    CandidateBeforeFinalized | SliceOutOfRange | BitIndexOutOfRange | MissingKey
  | RemainderByZero | NoValidatorReferenced | ValidatorIndexOverLimit
  | VoteVectorLength | ListLimitExceeded | EmptyBlocks | BadEncoding
  | InvalidBasisPoints | GenesisConfigUnreadable | InvalidGenesisPubkey | InvalidLibraryKey
  | NetworkServiceFailed | InconsistentLabels

text \<open>
  The outcome of Rust code that returns \<^verbatim>\<open>Result<T>\<close>: \<open>Ok\<close> and \<open>Err\<close> are its values,
  \<open>Panic\<close> is an unwinding panic, \<open>Diverge\<close> a loop that runs for ever.
\<close>

datatype 'a res = Ok 'a | Err lean_error | Panic panic | Diverge

text \<open>The \<^verbatim>\<open>?\<close> operator: go on with the value, stop with anything else.\<close>

fun and_then :: "'a res \<Rightarrow> ('a \<Rightarrow> 'b res) \<Rightarrow> 'b res" where
  "and_then (Ok a) f = f a"
| "and_then (Err e) f = Err e"
| "and_then (Panic p) f = Panic p"
| "and_then Diverge f = Diverge"

definition map_res :: "('a \<Rightarrow> 'b) \<Rightarrow> 'a res \<Rightarrow> 'b res" where
  "map_res f r = and_then r (\<lambda>a. Ok (f a))"

definition ok_or :: "'a option \<Rightarrow> lean_error \<Rightarrow> 'a res" where
  "ok_or x e = (case x of None \<Rightarrow> Err e | Some a \<Rightarrow> Ok a)"

definition or_panic :: "'a option \<Rightarrow> panic \<Rightarrow> 'a res" where
  "or_panic x p = (case x of None \<Rightarrow> Panic p | Some a \<Rightarrow> Ok a)"

text \<open>\<^verbatim>\<open>expect\<close> and \<^verbatim>\<open>unwrap\<close>: an \<open>Err\<close> becomes a panic.\<close>

definition expect :: "'a res \<Rightarrow> panic \<Rightarrow> 'a res" where
  "expect r p = (case r of Err e \<Rightarrow> Panic p | _ \<Rightarrow> r)"

text \<open>
  A loop over a list whose body may fail: it stops at the first outcome that is not
  \<open>Ok\<close>.  \<open>map_collect\<close> is \<^verbatim>\<open>.map(f).collect::<Result<Vec<_>>>()\<close>.
\<close>

fun for_each :: "('a \<Rightarrow> 's \<Rightarrow> 's res) \<Rightarrow> 'a list \<Rightarrow> 's \<Rightarrow> 's res" where
  "for_each f [] s = Ok s"
| "for_each f (x # xs) s = and_then (f x s) (for_each f xs)"

fun map_collect :: "('a \<Rightarrow> 'b res) \<Rightarrow> 'a list \<Rightarrow> 'b list res" where
  "map_collect f [] = Ok []"
| "map_collect f (x # xs) =
     and_then (f x) (\<lambda>y. and_then (map_collect f xs) (\<lambda>ys. Ok (y # ys)))"

text \<open>
  Code that takes \<^verbatim>\<open>&mut\<close> state and returns \<^verbatim>\<open>Result<T>\<close> keeps the changes it made
  before an \<open>Err\<close>: it is a pair of the state and the outcome.
\<close>

type_synonym ('s, 'a) mut = "'s \<times> 'a res"

fun and_do :: "('s, 'a) mut \<Rightarrow> ('s \<Rightarrow> 'a \<Rightarrow> ('s, 'b) mut) \<Rightarrow> ('s, 'b) mut" where
  "and_do (s, Ok a) f = f s a"
| "and_do (s, Err e) f = (s, Err e)"
| "and_do (s, Panic p) f = (s, Panic p)"
| "and_do (s, Diverge) f = (s, Diverge)"

fun for_each_mut :: "('a \<Rightarrow> 's \<Rightarrow> ('s, unit) mut) \<Rightarrow> 'a list \<Rightarrow> 's \<Rightarrow> ('s, unit) mut" where
  "for_each_mut f [] s = (s, Ok ())"
| "for_each_mut f (x # xs) s = and_do (f x s) (\<lambda>s' _. for_each_mut f xs s')"

section \<open>Lemmas on outcomes\<close>

named_theorems outcome_simps \<open>how an outcome of a composed step splits\<close>

lemma and_then_cong [fundef_cong]:
  "x = y \<Longrightarrow> (\<And>a. y = Ok a \<Longrightarrow> f a = g a) \<Longrightarrow> and_then x f = and_then y g"
  by (cases y) auto

lemma and_then_Ok [simp, outcome_simps]:
  "and_then x f = Ok b \<longleftrightarrow> (\<exists>a. x = Ok a \<and> f a = Ok b)"
  by (cases x) auto

lemma and_then_Panic [outcome_simps]:
  "and_then x f = Panic p \<longleftrightarrow> x = Panic p \<or> (\<exists>a. x = Ok a \<and> f a = Panic p)"
  by (cases x) auto

lemma and_then_Diverge [outcome_simps]:
  "and_then x f = Diverge \<longleftrightarrow> x = Diverge \<or> (\<exists>a. x = Ok a \<and> f a = Diverge)"
  by (cases x) auto

lemma and_then_Err [outcome_simps]:
  "and_then x f = Err e \<longleftrightarrow> x = Err e \<or> (\<exists>a. x = Ok a \<and> f a = Err e)"
  by (cases x) auto

lemma and_then_assoc: "and_then (and_then x f) g = and_then x (\<lambda>a. and_then (f a) g)"
  by (cases x) auto

lemma map_res_Ok [simp]: "map_res f r = Ok b \<longleftrightarrow> (\<exists>a. r = Ok a \<and> b = f a)"
  by (auto simp: map_res_def)

lemma ok_or_simps [simp]:
  "ok_or (Some a) e = Ok a" "ok_or None e = Err e"
  by (simp_all add: ok_or_def)

lemma ok_or_Ok [simp]: "ok_or x e = Ok a \<longleftrightarrow> x = Some a"
  by (cases x) auto

lemma or_panic_simps [simp]:
  "or_panic (Some a) p = Ok a" "or_panic None p = Panic p"
  by (simp_all add: or_panic_def)

lemma or_panic_Ok [simp]: "or_panic x p = Ok a \<longleftrightarrow> x = Some a"
  by (cases x) auto

lemma expect_Ok [simp]: "expect r p = Ok a \<longleftrightarrow> r = Ok a"
  by (cases r) (auto simp: expect_def)

text \<open>Code that neither panics nor diverges, and whose errors are all in a given set.\<close>

definition errors_in :: "lean_error set \<Rightarrow> 'a res \<Rightarrow> bool" where
  "errors_in E r = (case r of Ok a \<Rightarrow> True | Err e \<Rightarrow> e \<in> E | _ \<Rightarrow> False)"

lemma errors_in_simps [simp]:
  "errors_in E (Ok a)" "errors_in E (Err e) \<longleftrightarrow> e \<in> E" "\<not> errors_in E (Panic p)" "\<not> errors_in E Diverge"
  by (simp_all add: errors_in_def)

lemma errors_in_and_then [intro]:
  "errors_in E x \<Longrightarrow> (\<And>a. x = Ok a \<Longrightarrow> errors_in E (f a)) \<Longrightarrow> errors_in E (and_then x f)"
  by (cases x) auto

lemma errors_in_map_res [simp]: "errors_in E (map_res f r) \<longleftrightarrow> errors_in E r"
  by (cases r) (auto simp: map_res_def)

lemma errors_in_ok_or [simp]: "errors_in E (ok_or x e) \<longleftrightarrow> x \<noteq> None \<or> e \<in> E"
  by (cases x) auto

lemma errors_in_E:
  assumes "errors_in E r"
  obtains a where "r = Ok a" | e where "r = Err e" and "e \<in> E"
  using assms by (cases r) auto

lemma errors_in_mono: "errors_in E r \<Longrightarrow> E \<subseteq> E' \<Longrightarrow> errors_in E' r"
  by (cases r) auto

text \<open>An invariant of the body is an invariant of the loop.\<close>

lemma errors_in_for_each:
  assumes "\<And>x s. x \<in> set xs \<Longrightarrow> P s \<Longrightarrow> errors_in E (f x s) \<and> (\<forall>s'. f x s = Ok s' \<longrightarrow> P s')" and "P s"
  shows "errors_in E (for_each f xs s)"
  using assms
proof (induction xs arbitrary: s)
  case (Cons x xs)
  have "errors_in E (for_each f xs s')" if "P s'" for s'
    by (rule Cons.IH[OF _ that]) (rule Cons.prems(1), simp_all)
  with Cons.prems(1)[OF _ Cons.prems(2), of x] show ?case by (auto intro!: errors_in_and_then)
qed simp

lemma for_each_invariant:
  assumes "for_each f xs s = Ok t" and "P s"
    and "\<And>x s s'. x \<in> set xs \<Longrightarrow> P s \<Longrightarrow> f x s = Ok s' \<Longrightarrow> P s'"
  shows "P t"
  using assms by (induction xs arbitrary: s) auto

lemma for_each_append:
  "for_each f (xs @ ys) s = and_then (for_each f xs s) (for_each f ys)"
proof (induction xs arbitrary: s)
  case (Cons x xs)
  then show ?case by (simp add: and_then_assoc cong: and_then_cong)
qed simp

lemma for_each_Ok:
  assumes "\<And>x s. x \<in> set xs \<Longrightarrow> P s \<Longrightarrow> \<exists>s'. f x s = Ok s' \<and> P s'" and "P s"
  shows "\<exists>t. for_each f xs s = Ok t \<and> P t"
  using assms
proof (induction xs arbitrary: s)
  case (Cons x xs)
  then obtain s' where "f x s = Ok s'" "P s'" by (meson list.set_intros(1))
  with Cons.IH[of s'] Cons.prems(1) show ?case by auto
qed simp

lemma map_collect_Ok:
  "map_collect f xs = Ok ys \<longleftrightarrow> list_all2 (\<lambda>x y. f x = Ok y) xs ys"
  by (induction xs arbitrary: ys) (auto simp: list_all2_Cons1)

lemma map_collect_in:
  "map_collect f xs = Ok ys \<Longrightarrow> x \<in> set xs \<Longrightarrow> \<exists>y \<in> set ys. f x = Ok y"
  by (induction xs arbitrary: ys) auto

lemma map_collect_from:
  "map_collect f xs = Ok ys \<Longrightarrow> y \<in> set ys \<Longrightarrow> \<exists>x \<in> set xs. f x = Ok y"
  by (induction xs arbitrary: ys) auto

lemma map_collect_all_Ok:
  "(\<And>x. x \<in> set xs \<Longrightarrow> f x = Ok (g x)) \<Longrightarrow> map_collect f xs = Ok (map g xs)"
  by (induction xs) auto

lemma and_do_fst: "fst (and_do m f) = (case snd m of Ok a \<Rightarrow> fst (f (fst m) a) | _ \<Rightarrow> fst m)"
  by (cases m; cases "snd m") auto

lemma and_do_Ok [simp, outcome_simps]:
  "and_do m f = (t, Ok b) \<longleftrightarrow> (\<exists>s a. m = (s, Ok a) \<and> f s a = (t, Ok b))"
  by (cases m; cases "snd m") auto

lemma for_each_mut_invariant:
  assumes "P s" and "\<And>x s. x \<in> set xs \<Longrightarrow> P s \<Longrightarrow> P (fst (f x s))"
  shows "P (fst (for_each_mut f xs s))"
  using assms by (induction xs arbitrary: s) (auto simp: and_do_fst split: res.splits)

section \<open>Decimal numbers\<close>

text \<open>The digits of a number as \<^verbatim>\<open>to_string\<close> prints them, and \<^verbatim>\<open>str::parse::<u64>\<close>.\<close>

fun decimal :: "nat \<Rightarrow> string" where
  "decimal n = (if n < 10 then [char_of (48 + n)] else decimal (n div 10) @ [char_of (48 + n mod 10)])"

declare decimal.simps [simp del]

definition read_decimal :: "string \<Rightarrow> nat" where
  "read_decimal cs = foldl (\<lambda>n c. 10 * n + (of_char c - 48)) 0 cs"

definition is_digit :: "char \<Rightarrow> bool" where
  "is_digit c \<longleftrightarrow> 48 \<le> (of_char c :: nat) \<and> (of_char c :: nat) < 58"

definition parse_u64 :: "string \<Rightarrow> u64 option" where
  "parse_u64 cs =
     (let ds = (if cs \<noteq> [] \<and> hd cs = CHR ''+'' then tl cs else cs) in
      if ds = [] \<or> \<not> list_all is_digit ds \<or> read_decimal ds \<ge> 2 ^ 64 then None
      else Some (word_of_nat (read_decimal ds)))"

lemma read_decimal: "read_decimal (decimal n) = n"
proof (induction n rule: decimal.induct)
  case (1 n)
  have digit: "of_char (char_of (48 + d) :: char) - 48 = (d :: nat)" if "d < 10" for d
    using that by simp
  show ?case
  proof (cases "n < 10")
    case True
    then show ?thesis by (subst decimal.simps) (simp add: read_decimal_def digit)
  next
    case False
    with 1 have "read_decimal (decimal (n div 10)) = n div 10" by simp
    with False show ?thesis
      by (subst decimal.simps) (simp add: read_decimal_def digit)
  qed
qed

lemma decimal_digits: "decimal n \<noteq> []" "list_all is_digit (decimal n)"
proof (induction n rule: decimal.induct)
  case (1 n)
  case 1
  show ?case by (subst decimal.simps) simp
  case 2
  have "is_digit (char_of (48 + d))" if "d < 10" for d :: nat using that by (simp add: is_digit_def)
  then show ?case using "1.IH" by (subst decimal.simps) auto
qed

lemma parse_decimal: "parse_u64 (decimal (unat v)) = Some v"
proof -
  have "is_digit (hd (decimal (unat v)))"
    using decimal_digits[of "unat v"] by (cases "decimal (unat v)") auto
  then have "hd (decimal (unat v)) \<noteq> CHR ''+''" by (auto simp: is_digit_def)
  moreover have "unat v < 2 ^ LENGTH(64)" by (rule unsigned_less)
  ultimately show ?thesis
    using decimal_digits[of "unat v"] by (simp add: parse_u64_def read_decimal Let_def)
qed

section \<open>Running definitions on concrete inputs\<close>

text \<open>
  \<open>run_simps\<close> collects the definitions that concrete examples unfold.  The congruence rules keep
  the simplifier from working on a continuation before its input is a value.
\<close>

named_theorems run_simps \<open>definitions unfolded in concrete examples\<close>

lemma and_then_run: "x = y \<Longrightarrow> and_then x f = and_then y f"
  by simp

lemma for_each_run: "xs = ys \<Longrightarrow> s = t \<Longrightarrow> for_each f xs s = for_each f ys t"
  by simp

lemma map_collect_run: "xs = ys \<Longrightarrow> map_collect f xs = map_collect f ys"
  by simp

lemma replicate_numeral_run [run_simps]: "replicate (numeral k) x = x # replicate (pred_numeral k) x"
  by (simp add: numeral_eq_Suc)

lemmas run_congs = and_then_run for_each_run map_collect_run

section \<open>Lemmas on words\<close>

named_theorems word_nat \<open>comparisons and arithmetic of words as natural numbers\<close>

lemmas [word_nat] = word_le_nat_alt word_less_nat_alt

lemmas [run_simps] = word_le_nat_alt word_less_nat_alt checked_sub_def saturating_sub_def map_res_def
  or_panic_def ok_or_def upt_rec Let_def

lemma unat_u64_less: "unat (x :: u64) < 2 ^ 64"
proof -
  have "unat x < 2 ^ LENGTH(64)" by (rule unsigned_less)
  then show ?thesis by simp
qed

lemma word_of_nat_unat: "word_of_nat (unat (x :: u64)) = x"
  by simp

lemma unat_word_of_nat: "n < 2 ^ 64 \<Longrightarrow> unat (word_of_nat n :: u64) = n"
  by (simp add: unat_of_nat)

lemma unat_add_one:
  fixes x :: u64
  assumes "x < y"
  shows "unat (x + 1) = unat x + 1"
proof -
  from assms have "unat x + 1 < 2 ^ 64"
    using unat_u64_less[of y] by (simp add: word_nat)
  then show ?thesis by (simp add: unat_word_ariths)
qed

lemma unat_sub_le:
  fixes x y :: u64
  assumes "y \<le> x"
  shows "unat (x - y) = unat x - unat y"
  using assms by (rule unat_sub)

lemma checked_sub_Some:
  "checked_sub a b = Some c \<longleftrightarrow> unat b \<le> unat a \<and> unat c = unat a - unat b"
  by (auto simp: checked_sub_def word_le_nat_alt unat_sub_le word_unat_eq_iff)

lemma checked_sub_None: "checked_sub a b = None \<longleftrightarrow> unat a < unat b"
  by (auto simp: checked_sub_def word_le_nat_alt)

lemma unat_saturating_sub: "unat (saturating_sub a b) = unat a - unat b"
  by (simp add: saturating_sub_def word_le_nat_alt unat_sub_le)

end
