(* ===== verification/Float64.thy ===== *)
theory Float64
  imports Prelude
begin

text \<open>
  The part of binary64 arithmetic that \<^verbatim>\<open>slot.rs\<close> uses: \<^verbatim>\<open>(n as f64).sqrt() as u64\<close> on
  a \<^verbatim>\<open>u64\<close>.  Conversion and square root round to nearest, ties to even, with 53 significant
  bits; the cast back truncates.  A double that is a whole number is its value as
  \<^typ>\<open>nat\<close>; a square root is a pair \<open>(m, p)\<close> that stands for \<open>m / 2 ^ p\<close>.  The main
  result is that the computed root of a perfect square is exact on the whole range of
  \<^verbatim>\<open>u64\<close>, although \<^verbatim>\<open>n as f64\<close> itself is not.
\<close>

section \<open>Integer square root and bit length\<close>

fun isqrt :: "nat \<Rightarrow> nat" where
  "isqrt n = (if n = 0 then 0
     else let r = 2 * isqrt (n div 4) in if (r + 1) * (r + 1) \<le> n then r + 1 else r)"

fun bit_len :: "nat \<Rightarrow> nat" where
  "bit_len n = (if n = 0 then 0 else Suc (bit_len (n div 2)))"

declare isqrt.simps [simp del] bit_len.simps [simp del]

section \<open>Rounding\<close>

text \<open>\<open>n / 2 ^ k\<close> rounded to the nearest integer, ties to even.\<close>

definition round_half_even :: "nat \<Rightarrow> nat \<Rightarrow> nat" where
  "round_half_even n k =
     (let q = n div 2 ^ k; r = n mod 2 ^ k in
      if 2 * r < 2 ^ k then q else if 2 ^ k < 2 * r then q + 1
      else if even q then q else q + 1)"

text \<open>\<^verbatim>\<open>n as f64\<close>: exact below \<open>2 ^ 53\<close>, otherwise 53 bits are kept.\<close>

definition f64_of_nat :: "nat \<Rightarrow> nat" where
  "f64_of_nat n = (let k = bit_len n - 53 in if k = 0 then n else round_half_even n k * 2 ^ k)"

text \<open>
  \<^verbatim>\<open>f64::sqrt\<close>: the root is scaled so that its integer part has 53 bits; half-way cases do not
  occur, so the rounding compares \<open>x\<close> with \<open>(s + 1/2)\<^sup>2\<close>.
\<close>

definition f64_sqrt :: "nat \<Rightarrow> nat \<times> nat" where
  "f64_sqrt v =
     (let p = 53 - bit_len (isqrt v); x = v * 4 ^ p; s = isqrt x in
      (if x \<le> s * s + s then s else s + 1, p))"

text \<open>\<^verbatim>\<open>as u64\<close>: truncation, saturating at the largest value.\<close>

definition f64_as_u64 :: "nat \<times> nat \<Rightarrow> u64" where
  "f64_as_u64 = (\<lambda>(m, p). word_of_nat (min (m div 2 ^ p) (2 ^ 64 - 1)))"

definition u64_sqrt :: "u64 \<Rightarrow> u64" where
  "u64_sqrt n = f64_as_u64 (f64_sqrt (f64_of_nat (unat n)))"

section \<open>Bounds\<close>

lemma isqrt_bounds: "isqrt n * isqrt n \<le> n \<and> n < (isqrt n + 1) * (isqrt n + 1)"
proof (induction n rule: isqrt.induct)
  case (1 n)
  show ?case
  proof (cases "n = 0")
    case False
    define q where "q = isqrt (n div 4)"
    have lo: "q * q \<le> n div 4" and hi: "n div 4 < (q + 1) * (q + 1)"
      using "1" False by (auto simp: q_def)
    have "4 * (q * q) \<le> n" "n < 4 * ((q + 1) * (q + 1))"
      using lo hi by linarith+
    then have "2 * q * (2 * q) \<le> n" "n < (2 * q + 2) * (2 * q + 2)"
      by (simp_all add: algebra_simps)
    then show ?thesis
      using False by (auto simp: isqrt.simps[of n] Let_def q_def[symmetric] algebra_simps)
  qed (simp add: isqrt.simps)
qed

lemmas isqrt_le = isqrt_bounds[THEN conjunct1]
  and isqrt_less = isqrt_bounds[THEN conjunct2]

lemma isqrt_unique:
  assumes "r * r \<le> n" and "n < (r + 1) * (r + 1)"
  shows "isqrt n = r"
proof (rule antisym)
  show "isqrt n \<le> r"
  proof (rule ccontr)
    assume "\<not> isqrt n \<le> r"
    then have "(r + 1) * (r + 1) \<le> isqrt n * isqrt n" by (intro mult_le_mono) auto
    with assms(2) isqrt_le[of n] show False by linarith
  qed
  show "r \<le> isqrt n"
  proof (rule ccontr)
    assume "\<not> r \<le> isqrt n"
    then have "(isqrt n + 1) * (isqrt n + 1) \<le> r * r" by (intro mult_le_mono) auto
    with assms(1) isqrt_less[of n] show False by linarith
  qed
qed

lemma bit_len_0 [simp]: "bit_len 0 = 0"
  by (subst bit_len.simps) simp

lemma bit_len_step: "n \<noteq> 0 \<Longrightarrow> bit_len n = Suc (bit_len (n div 2))"
  by (subst bit_len.simps) simp

lemma bit_len_upper: "n < 2 ^ bit_len n"
proof (induction n rule: bit_len.induct)
  case (1 n)
  then show ?case by (cases "n = 0") (auto simp: bit_len_step[of n])
qed

lemma bit_len_lower: "n \<noteq> 0 \<Longrightarrow> 2 ^ (bit_len n - 1) \<le> n"
proof (induction n rule: bit_len.induct)
  case (1 n)
  show ?case
  proof (cases "n div 2 = 0")
    case True
    with 1(2) show ?thesis by (simp add: bit_len_step[of n])
  next
    case False
    with 1 have "2 ^ (bit_len (n div 2) - 1) \<le> n div 2" by auto
    moreover from False have "bit_len (n div 2) \<noteq> 0" by (subst bit_len_step) auto
    then obtain m where "bit_len (n div 2) = Suc m" by (cases "bit_len (n div 2)") auto
    ultimately show ?thesis using 1(2) by (simp add: bit_len_step[of n])
  qed
qed

lemma bit_len_unique:
  assumes "2 ^ b \<le> n" and "n < 2 ^ Suc b"
  shows "bit_len n = Suc b"
proof -
  from assms(1) have "n \<noteq> 0" by (metis le_zero_eq power_not_zero zero_neq_numeral)
  then have pos: "bit_len n \<noteq> 0" by (subst bit_len_step) auto
  have "(2::nat) ^ b < 2 ^ bit_len n" using assms(1) bit_len_upper[of n] by linarith
  then have "b < bit_len n" by simp
  moreover have less: "(2::nat) ^ (bit_len n - 1) < 2 ^ Suc b"
    using assms(2) bit_len_lower[OF \<open>n \<noteq> 0\<close>] by linarith
  have "bit_len n - 1 < Suc b" by (rule power_less_imp_less_exp[OF _ less]) simp
  ultimately show ?thesis using pos by linarith
qed

lemma bit_len_le: "n < 2 ^ b \<Longrightarrow> bit_len n \<le> b"
proof (rule ccontr)
  assume "n < 2 ^ b" and "\<not> bit_len n \<le> b"
  then have "n \<noteq> 0" by (metis bit_len_0 le0)
  then have less: "(2::nat) ^ (bit_len n - 1) < 2 ^ b"
    using bit_len_lower \<open>n < 2 ^ b\<close> le_less_trans by blast
  have "bit_len n - 1 < b" by (rule power_less_imp_less_exp[OF _ less]) simp
  with \<open>\<not> bit_len n \<le> b\<close> show False by simp
qed

section \<open>The rounding errors\<close>

lemma round_half_even_error:
  "2 * n \<le> 2 * (round_half_even n k * 2 ^ k) + 2 ^ k \<and>
   2 * (round_half_even n k * 2 ^ k) \<le> 2 * n + 2 ^ k"
proof -
  define q r where "q = n div 2 ^ k" and "r = n mod 2 ^ k"
  have n: "n = q * 2 ^ k + r" and "r < 2 ^ k" 
    by (metis q_def r_def div_mult_mod_eq, simp add: r_def)
  then show ?thesis
    unfolding round_half_even_def Let_def q_def[symmetric] r_def[symmetric]
    by (auto simp: algebra_simps)
qed

lemma f64_of_nat_error:
  assumes "bit_len n \<le> L" and "54 \<le> L"
  shows "n \<le> f64_of_nat n + 2 ^ (L - 54) \<and> f64_of_nat n \<le> n + 2 ^ (L - 54)"
proof (cases "bit_len n - 53 = 0")
  case False
  define k where "k = bit_len n - 53"
  with False obtain j where j: "k = Suc j" by (metis not0_implies_Suc)
  have le: "(2::nat) ^ j \<le> 2 ^ (L - 54)" using assms j by (intro power_increasing) (auto simp: k_def)
  have "n \<le> round_half_even n k * 2 ^ k + 2 ^ j \<and> round_half_even n k * 2 ^ k \<le> n + 2 ^ j"
    using round_half_even_error[of n k] by (simp add: j)
  moreover have "f64_of_nat n = round_half_even n k * 2 ^ k"
    using False by (simp add: f64_of_nat_def Let_def k_def)
  ultimately show ?thesis using le by linarith
qed (simp add: f64_of_nat_def)

lemma f64_of_nat_exact: "bit_len n \<le> 53 \<Longrightarrow> f64_of_nat n = n"
  by (simp add: f64_of_nat_def)

lemma f64_of_nat_power: "f64_of_nat (2 ^ e) = 2 ^ e"
proof -
  have b: "bit_len (2 ^ e) = Suc e" by (rule bit_len_unique) auto
  show ?thesis
  proof (cases "e < 53")
    case False
    then have e: "e = 52 + (Suc e - 53)" by simp
    have "(2::nat) ^ e = 2 ^ 52 * 2 ^ (Suc e - 53)"
      by (subst e) (rule power_add)
    then have "round_half_even (2 ^ e) (Suc e - 53) = 2 ^ 52"
      by (simp add: round_half_even_def)
    with False b \<open>2 ^ e = 2 ^ 52 * 2 ^ (Suc e - 53)\<close> show ?thesis
      by (simp add: f64_of_nat_def)
  qed (simp add: f64_of_nat_def b)
qed

section \<open>Square roots of perfect squares\<close>

lemma f64_sqrt_nearest:
  assumes p: "p = 53 - bit_len (isqrt v)"
    and lo: "k * 2 ^ p * (k * 2 ^ p) < v * 4 ^ p + k * 2 ^ p"
    and hi: "v * 4 ^ p \<le> k * 2 ^ p * (k * 2 ^ p) + k * 2 ^ p"
  shows "f64_sqrt v = (k * 2 ^ p, p)"
proof -
  define K x where "K = k * 2 ^ p" and "x = v * 4 ^ p"
  have K: "K * K < x + K" "x \<le> K * K + K" using lo hi by (simp_all add: K_def x_def)
  have "(if x \<le> isqrt x * isqrt x + isqrt x then isqrt x else isqrt x + 1) = K"
  proof (cases "K * K \<le> x")
    case True
    have "isqrt x = K" using True K(2) by (intro isqrt_unique) auto
    with K(2) show ?thesis by simp
  next
    case False
    then obtain j where j: "K = Suc j" by (cases K) auto
    have "isqrt x = j" using False K by (intro isqrt_unique) (auto simp: j)
    with K(1) j show ?thesis by simp
  qed
  then show ?thesis
    unfolding f64_sqrt_def Let_def p[symmetric] x_def[symmetric] K_def by simp
qed

lemma square_bit_len: "bit_len k \<le> b \<Longrightarrow> bit_len (k * k) \<le> 2 * b"
proof (rule bit_len_le)
  assume b: "bit_len k \<le> b"
  have "k < 2 ^ bit_len k" by (rule bit_len_upper)
  also have "(2::nat) ^ bit_len k \<le> 2 ^ b" using b by (rule power_increasing) simp
  finally have "k * k < 2 ^ b * 2 ^ b" by (intro mult_strict_mono) auto
  then show "k * k < 2 ^ (2 * b)" by (simp add: power_add mult_2)
qed

text \<open>
  The rounding error of \<^verbatim>\<open>k * k\<close> as a double is too small to move the root: for \<open>k\<close> of
  \<open>b\<close> bits the error is at most \<open>2 ^ (2 * b - 54)\<close>, and \<open>k\<close> is not below \<open>2 ^ (b - 1)\<close>.
\<close>

lemma f64_of_square_close:
  assumes "k \<noteq> 0" and "k < 2 ^ 32"
  shows "f64_of_nat (k * k) = k * k \<or>
    (\<exists>e. k * k \<le> f64_of_nat (k * k) + e \<and> f64_of_nat (k * k) \<le> k * k + e \<and>
       e * 2 ^ (53 - bit_len k) < k \<and> 2 ^ (bit_len k - 1) < k)"
proof (cases "bit_len k \<le> 26 \<or> k = 2 ^ (bit_len k - 1)")
  case True
  then show ?thesis
  proof
    assume "bit_len k \<le> 26"
    then have "bit_len (k * k) \<le> 53" using square_bit_len[of k 26] by simp
    then show ?thesis by (simp add: f64_of_nat_exact)
  next
    assume k: "k = 2 ^ (bit_len k - 1)"
    have "k * k = 2 ^ (bit_len k - 1 + (bit_len k - 1))"
      by (subst (1 2) k) (simp add: power_add)
    then show ?thesis by (simp add: f64_of_nat_power)
  qed
next
  case False
  then have big: "27 \<le> bit_len k" and less: "2 ^ (bit_len k - 1) < k"
    using bit_len_lower[OF assms(1)] by auto
  from assms(2) have "bit_len k \<le> 32" by (rule bit_len_le)
  let ?e = "2 ^ (2 * bit_len k - 54) :: nat"
  have "k * k \<le> f64_of_nat (k * k) + ?e \<and> f64_of_nat (k * k) \<le> k * k + ?e"
    using big by (intro f64_of_nat_error square_bit_len) auto
  moreover have "?e * 2 ^ (53 - bit_len k) \<le> 2 ^ (bit_len k - 1)"
    unfolding power_add[symmetric] using big \<open>bit_len k \<le> 32\<close> by (intro power_increasing) auto
  ultimately show ?thesis using less le_less_trans by blast
qed

lemma bit_len_isqrt_near:
  assumes "2 ^ (bit_len k - 1) < k" and "k * k < v + k" and "v < k * k + k"
  shows "bit_len (isqrt v) = bit_len k"
proof -
  from assms(1) have "k \<noteq> 0" by auto
  then obtain b where b: "bit_len k = Suc b" using bit_len_step by blast
  obtain j where j: "k = Suc j" using assms(1) by (cases k) auto
  have k: "2 ^ b < k" "k < 2 ^ Suc b" using assms(1) bit_len_upper[of k] by (simp_all add: b)
  show ?thesis
  proof (cases "k * k \<le> v")
    case True
    have "isqrt v = k" using True assms(3) by (intro isqrt_unique) auto
    then show ?thesis by simp
  next
    case False
    have "isqrt v = j" using False assms(2) by (intro isqrt_unique) (auto simp: j)
    moreover have "bit_len j = Suc b" using k by (intro bit_len_unique) (auto simp: j)
    ultimately show ?thesis by (simp add: b)
  qed
qed

lemma f64_sqrt_of_square:
  assumes "k < 2 ^ 32"
  shows "f64_sqrt (f64_of_nat (k * k)) = (k * 2 ^ (53 - bit_len k), 53 - bit_len k)"
proof (cases "k = 0")
  case True
  have "isqrt 0 = 0" by (rule isqrt_unique) auto
  with True show ?thesis by (simp add: f64_of_nat_def f64_sqrt_def)
next
  case False
  define v p where "v = f64_of_nat (k * k)" and "p = 53 - bit_len k"
  have four: "(4::nat) ^ p = 2 ^ p * 2 ^ p" by (simp flip: power_mult_distrib)
  consider "v = k * k"
    | e where "k * k \<le> v + e" "v \<le> k * k + e" "e * 2 ^ p < k" "2 ^ (bit_len k - 1) < k"
    using f64_of_square_close[OF False assms] by (auto simp: v_def p_def)
  then have "f64_sqrt v = (k * 2 ^ p, p)"
  proof cases
    case 1
    have "isqrt v = k" unfolding 1 by (intro isqrt_unique) auto
    with False show ?thesis by (intro f64_sqrt_nearest) (auto simp: p_def 1 four[unfolded p_def])
  next
    case (2 e)
    have "e * 1 \<le> e * 2 ^ p" by (intro mult_le_mono) auto
    with 2 have near: "k * k < v + k" "v < k * k + k" by linarith+
    have "e * 2 ^ p * 2 ^ p < k * 2 ^ p" using 2(3) by simp
    then have e4: "e * 4 ^ p < k * 2 ^ p" by (simp add: four mult.assoc)
    have "k * k * 4 ^ p \<le> (v + e) * 4 ^ p" "v * 4 ^ p \<le> (k * k + e) * 4 ^ p"
      using 2(1,2) by (intro mult_le_mono; simp)+
    with e4 have "k * k * 4 ^ p < v * 4 ^ p + k * 2 ^ p" "v * 4 ^ p \<le> k * k * 4 ^ p + k * 2 ^ p"
      by (simp_all add: distrib_right)
    then show ?thesis
      using bit_len_isqrt_near[OF 2(4) near]
      by (intro f64_sqrt_nearest) (auto simp: p_def four[unfolded p_def] ac_simps)
  qed
  then show ?thesis by (simp add: v_def p_def)
qed

lemma u64_square_root_small:
  assumes "unat (n :: u64) = k * k"
  shows "k < 2 ^ 32"
proof (rule ccontr)
  assume "\<not> k < 2 ^ 32"
  then have "2 ^ 32 * 2 ^ 32 \<le> k * k" by (intro mult_le_mono) auto
  with assms unat_u64_less[of n] show False by simp
qed

lemma u64_sqrt_exact:
  assumes "unat n = k * k"
  shows "u64_sqrt n = word_of_nat k"
  using u64_square_root_small[OF assms] assms
  by (simp add: u64_sqrt_def f64_sqrt_of_square f64_as_u64_def)

text \<open>The computed root never exceeds \<open>2 ^ 32\<close>, so its square wraps to 0 at most once.\<close>

lemma bit_len_u64: "bit_len (unat (n :: u64)) \<le> 64"
  using unat_u64_less by (rule bit_len_le)

lemma f64_of_u64_le: "f64_of_nat (unat (n :: u64)) \<le> 2 ^ 64"
proof (cases "bit_len (unat n) \<le> 53")
  case True
  with unat_u64_less[of n] show ?thesis by (simp add: f64_of_nat_exact)
next
  case False
  define k where "k = bit_len (unat n) - 53"
  have k: "k \<le> 11" "k \<noteq> 0" using bit_len_u64[of n] False by (auto simp: k_def)
  have split: "(2::nat) ^ 64 = 2 ^ (64 - k) * 2 ^ k"
    using k(1) by (subst power_add[symmetric]) simp
  have "unat n div 2 ^ k < 2 ^ (64 - k)"
    using unat_u64_less[of n] unfolding split by (rule less_mult_imp_div_less)
  then have "round_half_even (unat n) k \<le> 2 ^ (64 - k)"
    by (auto simp: round_half_even_def Let_def)
  then have "round_half_even (unat n) k * 2 ^ k \<le> 2 ^ 64"
    unfolding split by (rule mult_le_mono1)
  with False show ?thesis by (simp add: f64_of_nat_def Let_def k_def)
qed

lemma f64_sqrt_le:
  assumes "v < (r + 1) * (r + 1)" and "f64_sqrt v = (m, p)"
  shows "m div 2 ^ p \<le> r + 1"
proof -
  have "isqrt (v * 4 ^ p) < (r + 1) * 2 ^ p"
  proof (rule ccontr)
    assume "\<not> ?thesis"
    then have "(r + 1) * 2 ^ p * ((r + 1) * 2 ^ p) \<le> v * 4 ^ p"
      using isqrt_le[of "v * 4 ^ p"] mult_le_mono[of "(r + 1) * 2 ^ p" "isqrt (v * 4 ^ p)"
        "(r + 1) * 2 ^ p" "isqrt (v * 4 ^ p)"] by linarith
    moreover have "(4::nat) ^ p = 2 ^ p * 2 ^ p" by (simp flip: power_mult_distrib)
    then have "(r + 1) * 2 ^ p * ((r + 1) * 2 ^ p) = (r + 1) * (r + 1) * 4 ^ p"
      by (simp only: ac_simps)
    ultimately have "(r + 1) * (r + 1) * 4 ^ p \<le> v * 4 ^ p" by simp
    then have "(r + 1) * (r + 1) \<le> v" by (simp only: mult_le_cancel2) simp
    with assms(1) show False by simp
  qed
  with assms(2) have "m \<le> (r + 1) * 2 ^ p"
    by (auto simp: f64_sqrt_def Let_def split: if_splits)
  then have "m div 2 ^ p \<le> (r + 1) * 2 ^ p div 2 ^ p" by (rule div_le_mono)
  then show ?thesis by simp
qed

lemma u64_sqrt_bound: "unat (u64_sqrt n) \<le> 2 ^ 32"
proof -
  define v where "v = f64_of_nat (unat n)"
  obtain m p where mp: "f64_sqrt v = (m, p)" by fastforce
  have "m div 2 ^ p \<le> 2 ^ 32"
  proof (cases "v = 2 ^ 64")
    case True
    have "isqrt (2 ^ 64) = 2 ^ 32" by (rule isqrt_unique) auto
    moreover have "bit_len (2 ^ 32) = 33" using bit_len_unique[of 32 "2 ^ 32"] by simp
    ultimately have "f64_sqrt v = (2 ^ 32 * 2 ^ 20, 20)"
      using True by (intro f64_sqrt_nearest) auto
    with mp show ?thesis by auto
  next
    case False
    with f64_of_u64_le[of n] have "v < (2 ^ 32 - 1 + 1) * (2 ^ 32 - 1 + 1)" by (simp add: v_def)
    from f64_sqrt_le[OF this mp] show ?thesis by simp
  qed
  then have "min (m div 2 ^ p) (2 ^ 64 - 1) \<le> 2 ^ 32" by simp
  moreover have "unat (word_of_nat (min (m div 2 ^ p) (2 ^ 64 - 1)) :: u64) =
      min (m div 2 ^ p) (2 ^ 64 - 1)"
    by (subst unat_of_nat) (simp add: min_def)
  ultimately show ?thesis
    using mp by (simp add: u64_sqrt_def f64_as_u64_def v_def)
qed

text \<open>
  Hence the test \<^verbatim>\<open>sqrt * sqrt == n\<close> of the source, in wrapping arithmetic, decides whether a
  positive \<^verbatim>\<open>u64\<close> is a perfect square.
\<close>

theorem u64_sqrt_test:
  assumes "n \<noteq> 0"
  shows "u64_sqrt n * u64_sqrt n = n \<longleftrightarrow> (\<exists>k. unat n = k * k)"
proof
  define s where "s = unat (u64_sqrt n)"
  assume sq: "u64_sqrt n * u64_sqrt n = n"
  have *: "unat n = s * s mod 2 ^ 64"
    using arg_cong[OF sq, of unat] by (simp add: unat_word_ariths s_def)
  show "\<exists>k. unat n = k * k"
  proof (cases "s < 2 ^ 32")
    case True
    then have "s * s < 2 ^ 32 * 2 ^ 32" by (intro mult_strict_mono) auto
    with * have "unat n = s * s" by simp
    then show ?thesis ..
  next
    case False
    with u64_sqrt_bound[of n] have "s = 2 ^ 32" by (simp add: s_def)
    with * have "unat n = 0" by simp
    with assms show ?thesis by (simp add: unat_eq_0)
  qed
next
  assume "\<exists>k. unat n = k * k"
  then obtain k where k: "unat n = k * k" ..
  then have "n = word_of_nat (k * k)" by (simp flip: k del: of_nat_mult)
  then show "u64_sqrt n * u64_sqrt n = n" unfolding u64_sqrt_exact[OF k] by simp
qed

end
