(* ===== verification/Slots.thy ===== *)
theory Slots
  imports Float64
begin

text \<open>
  \<^verbatim>\<open>containers/src/slot.rs\<close>: slots, the index of a slot in the window of tracked slots, and the
  3SF-mini justifiability rule.  A slot is its \<^verbatim>\<open>u64\<close>; \<^verbatim>\<open>Ord for Slot\<close> is the order of the
  word.  The rule is computed with floating-point square roots; \<open>justifiable_delta\<close> is the rule
  as the documentation of the source states it, and the theorems relate the two.
\<close>

section \<open>Operations\<close>

definition justified_index_after :: "slot \<Rightarrow> slot \<Rightarrow> u64 option" where
  "justified_index_after self finalized_slot = checked_sub self (finalized_slot + 1)"

definition is_justifiable_after :: "slot \<Rightarrow> slot \<Rightarrow> bool res" where
  "is_justifiable_after self finalized =
     (if \<not> finalized \<le> self then Panic CandidateBeforeFinalized
      else let delta = self - finalized in
        if delta \<le> 5 then Ok True
        else let sqrt = u64_sqrt delta in
          if sqrt * sqrt = delta then Ok True
          else let test = 4 * delta + 1; test_sqrt = u64_sqrt test in
            Ok (test_sqrt * test_sqrt = test \<and> test_sqrt mod 2 = 1))"

section \<open>The documented rule\<close>

definition justifiable_delta :: "nat \<Rightarrow> bool" where
  "justifiable_delta d \<longleftrightarrow> d \<le> 5 \<or> isqrt d * isqrt d = d \<or> isqrt d * (isqrt d + 1) = d"

lemma perfect_square_iff: "isqrt n * isqrt n = n \<longleftrightarrow> (\<exists>k. n = k * k)"
  by (metis isqrt_unique less_add_one mult_strict_mono order_refl zero_le
      add_is_0 le_add1 zero_less_one not_gr_zero)

lemma pronic_iff: "isqrt n * (isqrt n + 1) = n \<longleftrightarrow> (\<exists>k. n = k * (k + 1))"
proof
  assume "\<exists>k. n = k * (k + 1)"
  then obtain k where k: "n = k * (k + 1)" ..
  then have "isqrt n = k" by (intro isqrt_unique) auto
  with k show "isqrt n * (isqrt n + 1) = n" by simp
qed metis

lemma justifiable_delta_iff:
  "justifiable_delta d \<longleftrightarrow> d \<le> 5 \<or> (\<exists>k. d = k * k) \<or> (\<exists>k. d = k * (k + 1))"
  unfolding justifiable_delta_def perfect_square_iff pronic_iff ..

text \<open>\<open>4 * d + 1\<close> is a square exactly when \<open>d\<close> is pronic, and its root is then odd.\<close>

lemma pronic_square: "(\<exists>k. 4 * d + 1 = k * k) \<longleftrightarrow> (\<exists>k. d = k * (k + (1::nat)))"
proof
  assume "\<exists>k. 4 * d + 1 = k * k"
  then obtain k where k: "4 * d + 1 = k * k" ..
  then have "odd (k * k)" by (metis even_mult_iff even_plus_one_iff even_numeral)
  then have "odd k" by simp
  then obtain j where "k = 2 * j + 1" by (rule oddE)
  with k have "d = j * (j + 1)" by (simp add: algebra_simps)
  then show "\<exists>k. d = k * (k + 1)" ..
next
  assume "\<exists>k. d = k * (k + 1)"
  then obtain k where "d = k * (k + 1)" ..
  then have "4 * d + 1 = (2 * k + 1) * (2 * k + 1)" by (simp add: algebra_simps)
  then show "\<exists>k. 4 * d + 1 = k * k" ..
qed

lemma odd_root:
  assumes "unat t = 4 * d + 1" and "unat t = k * k"
  shows "u64_sqrt t mod 2 = 1"
proof -
  have "odd (k * k)" using assms by (metis even_mult_iff even_plus_one_iff even_numeral)
  then have "odd k" by simp
  moreover have "unat (u64_sqrt t) = k"
    using u64_square_root_small[OF assms(2)] by (simp add: u64_sqrt_exact[OF assms(2)] unat_of_nat)
  ultimately have "unat (u64_sqrt t mod 2) = 1" by (simp add: unat_mod odd_iff_mod_2_eq_one)
  then show ?thesis by (metis unat_1 word_unat_eq_iff)
qed

section \<open>The computed rule is the documented one\<close>

lemma pronic_test:
  assumes "unat (delta :: u64) < 2 ^ 62"
  shows "(let test = 4 * delta + 1; r = u64_sqrt test in r * r = test \<and> r mod 2 = 1) \<longleftrightarrow>
    (\<exists>k. unat delta = k * (k + 1))"
proof -
  define t where "t = 4 * delta + 1"
  have t: "unat t = 4 * unat delta + 1"
    using assms by (simp add: t_def unat_word_ariths)
  then have "t \<noteq> 0" by (metis unat_0 add_is_0 one_neq_zero)
  then have "u64_sqrt t * u64_sqrt t = t \<longleftrightarrow> (\<exists>k. unat delta = k * (k + 1))"
    using u64_sqrt_test t pronic_square by presburger
  moreover have "u64_sqrt t mod 2 = 1" if "u64_sqrt t * u64_sqrt t = t"
    using that u64_sqrt_test[OF \<open>t \<noteq> 0\<close>] odd_root[OF t] by blast
  ultimately show ?thesis by (auto simp: Let_def t_def[symmetric])
qed

lemma is_justifiable_after_delta:
  assumes "finalized \<le> self" and "unat self - unat finalized < 2 ^ 62"
  shows "is_justifiable_after self finalized = Ok (justifiable_delta (unat self - unat finalized))"
proof -
  define delta where "delta = self - finalized"
  have d: "unat delta = unat self - unat finalized"
    using assms(1) by (simp add: delta_def unat_sub_le)
  have five: "delta \<le> 5 \<longleftrightarrow> unat delta \<le> 5" by (simp add: word_le_nat_alt)
  show ?thesis
  proof (cases "delta \<le> 5")
    case True
    with assms(1) five show ?thesis
      by (simp add: is_justifiable_after_def justifiable_delta_def delta_def[symmetric] d[symmetric])
  next
    case False
    then have "delta \<noteq> 0" by auto
    from u64_sqrt_test[OF this] pronic_test[of delta] False assms five show ?thesis
      by (simp add: is_justifiable_after_def justifiable_delta_iff delta_def[symmetric] d Let_def)
  qed
qed

lemma is_justifiable_after_small [simp]:
  "finalized \<le> self \<Longrightarrow> self - finalized \<le> 5 \<Longrightarrow> is_justifiable_after self finalized = Ok True"
  by (simp add: is_justifiable_after_def)

lemma is_justifiable_after_Panic [simp]:
  "self < finalized \<Longrightarrow> is_justifiable_after self finalized = Panic CandidateBeforeFinalized"
  by (simp add: is_justifiable_after_def linorder_not_le)

lemma is_justifiable_after_Ok_le: "is_justifiable_after self finalized = Ok b \<Longrightarrow> finalized \<le> self"
  by (auto simp: is_justifiable_after_def split: if_splits)

lemma is_justifiable_after_total:
  "finalized \<le> self \<Longrightarrow> \<exists>b. is_justifiable_after self finalized = Ok b"
  by (auto simp: is_justifiable_after_def Let_def)

lemma justified_index_after_Some:
  assumes "unat finalized + 1 < 2 ^ 64"
  shows "justified_index_after self finalized = Some i \<longleftrightarrow>
    unat finalized < unat self \<and> unat i = unat self - unat finalized - 1"
proof -
  have "unat (finalized + 1) = unat finalized + 1" using assms by (simp add: unat_word_ariths)
  then show ?thesis by (auto simp: justified_index_after_def checked_sub_Some)
qed

lemma justified_index_after_None:
  assumes "unat finalized + 1 < 2 ^ 64"
  shows "justified_index_after self finalized = None \<longleftrightarrow> unat self \<le> unat finalized"
proof -
  have "unat (finalized + 1) = unat finalized + 1" using assms by (simp add: unat_word_ariths)
  then show ?thesis by (auto simp: justified_index_after_def checked_sub_None)
qed

text \<open>
  C20: for every slot at or after the finalized one whose distance is below \<open>2 ^ 62\<close>, the
  floating-point test of \<^verbatim>\<open>Slot::is_justifiable_after\<close> answers exactly the 3SF-mini rule of its
  documentation: the distance is at most 5, a perfect square, or a pronic number.
\<close>

theorem is_justifiable_after_correct:
  assumes "finalized \<le> self" and "unat self - unat finalized < 2 ^ 62"
  shows "is_justifiable_after self finalized = Ok (
    let d = unat self - unat finalized in
    d \<le> 5 \<or> (\<exists>k. d = k * k) \<or> (\<exists>k. d = k * (k + 1)))"
  using assms by (simp add: is_justifiable_after_delta justifiable_delta_iff Let_def)

theorem is_justifiable_after_correct_witness:
  "is_justifiable_after 112 100 = Ok (
     let d = 12 in d \<le> 5 \<or> (\<exists>k. d = k * k) \<or> (\<exists>k. d = k * (k + (1::nat))))"
  using is_justifiable_after_correct[of 100 112] by (simp add: word_le_nat_alt)

text \<open>
  Beyond that distance the product \<open>4 * delta + 1\<close> wraps around and the test accepts slots
  that the documented rule excludes: the distance \<open>2 ^ 62 + 2\<close> is neither a square nor pronic.
\<close>

theorem is_justifiable_after_wraps:
  "is_justifiable_after (2 ^ 62 + 2) 0 = Ok True \<and> \<not> justifiable_delta (2 ^ 62 + 2)"
proof
  have "u64_sqrt 18446744073709551625 = 3" using u64_sqrt_exact[of 18446744073709551625 3] by simp
  then show "is_justifiable_after (2 ^ 62 + 2) 0 = Ok True"
    by (simp add: is_justifiable_after_def Let_def)
  have "isqrt (2 ^ 62 + 2) = 2 ^ 31" by (rule isqrt_unique) auto
  then show "\<not> justifiable_delta (2 ^ 62 + 2)"
    by (simp add: justifiable_delta_def)
qed

end
