(* ===== verification/HashMaps.thy ===== *)
theory HashMaps
  imports Prelude "HOL-Library.AList" "HOL-Library.Multiset"
begin

text \<open>
  \<^verbatim>\<open>std::collections::HashMap\<close> as the source uses it.  A map is the list of its entries in
  iteration order, no key twice (\<open>hm_ok\<close>).  The order of a real hash map is unspecified, so
  results that depend on it are stated for every order.  The locale \<open>map_adt\<close> is the contract
  the other theories rely on; \<open>hm\<close> interprets it on the entry lists.
\<close>

section \<open>Operations\<close>

type_synonym ('k, 'v) hmap = "('k \<times> 'v) list"

definition hm_ok :: "('k, 'v) hmap \<Rightarrow> bool" where
  "hm_ok m \<longleftrightarrow> distinct (map fst m)"

definition hm_empty :: "('k, 'v) hmap" where
  "hm_empty = []"

definition hm_get :: "('k, 'v) hmap \<Rightarrow> 'k \<Rightarrow> 'v option" where
  "hm_get m k = map_of m k"

definition hm_contains_key :: "('k, 'v) hmap \<Rightarrow> 'k \<Rightarrow> bool" where
  "hm_contains_key m k \<longleftrightarrow> hm_get m k \<noteq> None"

definition hm_insert :: "'k \<Rightarrow> 'v \<Rightarrow> ('k, 'v) hmap \<Rightarrow> ('k, 'v) hmap" where
  "hm_insert k v m = AList.update k v m"

definition hm_remove :: "'k \<Rightarrow> ('k, 'v) hmap \<Rightarrow> ('k, 'v) hmap" where
  "hm_remove k m = AList.delete k m"

definition hm_retain :: "('k \<Rightarrow> 'v \<Rightarrow> bool) \<Rightarrow> ('k, 'v) hmap \<Rightarrow> ('k, 'v) hmap" where
  "hm_retain p m = filter (\<lambda>(k, v). p k v) m"

definition hm_keys :: "('k, 'v) hmap \<Rightarrow> 'k list" where
  "hm_keys m = map fst m"

definition hm_values :: "('k, 'v) hmap \<Rightarrow> 'v list" where
  "hm_values m = map snd m"

text \<open>\<^verbatim>\<open>extend\<close> and \<^verbatim>\<open>collect\<close>: insert the entries one after the other.\<close>

definition hm_extend :: "('k, 'v) hmap \<Rightarrow> ('k \<times> 'v) list \<Rightarrow> ('k, 'v) hmap" where
  "hm_extend m es = fold (\<lambda>(k, v). hm_insert k v) es m"

text \<open>\<^verbatim>\<open>map[&k]\<close> panics on a missing key.\<close>

definition hm_index :: "('k, 'v) hmap \<Rightarrow> 'k \<Rightarrow> 'v res" where
  "hm_index m k = or_panic (hm_get m k) MissingKey"

text \<open>\<^verbatim>\<open>entry(k).or_default().push(v)\<close> on a map of vectors.\<close>

definition hm_push :: "'k \<Rightarrow> 'v \<Rightarrow> ('k, 'v list) hmap \<Rightarrow> ('k, 'v list) hmap" where
  "hm_push k v m = hm_insert k ((case hm_get m k of None \<Rightarrow> [] | Some vs \<Rightarrow> vs) @ [v]) m"

section \<open>The contract of a map\<close>

locale map_adt =
  fixes empty :: "'m" and insert :: "'k \<Rightarrow> 'v \<Rightarrow> 'm \<Rightarrow> 'm" and remove :: "'k \<Rightarrow> 'm \<Rightarrow> 'm"
    and get :: "'m \<Rightarrow> 'k \<Rightarrow> 'v option" and keys :: "'m \<Rightarrow> 'k list" and ok :: "'m \<Rightarrow> bool"
  assumes get_empty: "get empty k = None"
    and get_insert: "get (insert k v m) k' = (if k' = k then Some v else get m k')"
    and get_remove: "ok m \<Longrightarrow> get (remove k m) k' = (if k' = k then None else get m k')"
    and keys_get: "k \<in> set (keys m) \<longleftrightarrow> get m k \<noteq> None"
    and ok_empty: "ok empty"
    and ok_insert: "ok m \<Longrightarrow> ok (insert k v m)"
    and ok_remove: "ok m \<Longrightarrow> ok (remove k m)"
begin

text \<open>Clients: keep an entry only if it is newer, and supersede an older one.\<close>

definition newer_than :: "('v \<Rightarrow> nat) \<Rightarrow> 'm \<Rightarrow> 'k \<Rightarrow> 'v \<Rightarrow> bool" where
  "newer_than rank m k v \<longleftrightarrow> (case get m k of None \<Rightarrow> True | Some w \<Rightarrow> rank w < rank v)"

definition insert_newer :: "('v \<Rightarrow> nat) \<Rightarrow> 'k \<Rightarrow> 'v \<Rightarrow> 'm \<Rightarrow> 'm" where
  "insert_newer rank k v m = (if newer_than rank m k v then insert k v m else m)"

lemma ok_insert_newer: "ok m \<Longrightarrow> ok (insert_newer rank k v m)"
  by (simp add: insert_newer_def ok_insert)

lemma get_insert_newer:
  "get (insert_newer rank k v m) k' =
     (if k' = k \<and> newer_than rank m k v then Some v else get m k')"
  by (simp add: insert_newer_def get_insert)

lemma insert_newer_entry:
  "\<exists>w. get (insert_newer rank k v m) k = Some w \<and> rank v \<le> rank w"
  by (auto simp: get_insert_newer newer_than_def split: option.splits)

lemma insert_newer_mono:
  "get m k' = Some w \<Longrightarrow> \<exists>w'. get (insert_newer rank k v m) k' = Some w' \<and> rank w \<le> rank w'"
  by (auto simp: get_insert_newer newer_than_def)

lemma remove_get_le: "ok m \<Longrightarrow> get (remove k m) k' = Some v \<Longrightarrow> get m k' = Some v"
  by (simp add: get_remove split: if_splits)

lemma keys_insert: "set (keys (insert k v m)) = Set.insert k (set (keys m))"
  by (auto simp: keys_get get_insert split: if_splits)

end

section \<open>The entry lists satisfy it\<close>

interpretation hm: map_adt hm_empty hm_insert hm_remove hm_get hm_keys hm_ok
proof
  fix m :: "('k, 'v) hmap" and k k' :: 'k and v :: 'v
  show "hm_get hm_empty k = (None :: 'v option)"
    by (simp add: hm_get_def hm_empty_def)
  show "hm_get (hm_insert k v m) k' = (if k' = k then Some v else hm_get m k')"
    by (simp add: hm_get_def hm_insert_def update_conv')
  show "hm_ok m \<Longrightarrow> hm_get (hm_remove k m) k' = (if k' = k then None else hm_get m k')"
    by (simp add: hm_get_def hm_remove_def delete_conv')
  show "k \<in> set (hm_keys m) \<longleftrightarrow> hm_get m k \<noteq> None"
    by (auto simp: hm_get_def hm_keys_def map_of_eq_None_iff)
  show "hm_ok (hm_empty :: ('k, 'v) hmap)"
    by (simp add: hm_ok_def hm_empty_def)
  show "hm_ok m \<Longrightarrow> hm_ok (hm_insert k v m)"
    by (simp add: hm_ok_def hm_insert_def distinct_update)
  show "hm_ok m \<Longrightarrow> hm_ok (hm_remove k m)"
    by (simp add: hm_ok_def hm_remove_def distinct_delete)
qed

lemmas hm_simps [simp] = hm.get_empty hm.get_insert hm.ok_empty hm.ok_insert hm.ok_remove

lemma hm_get_in: "hm_get m k = Some v \<Longrightarrow> (k, v) \<in> set m"
  by (simp add: hm_get_def map_of_SomeD)

lemma hm_in_get: "hm_ok m \<Longrightarrow> (k, v) \<in> set m \<longleftrightarrow> hm_get m k = Some v"
  by (auto simp: hm_get_def hm_ok_def)

lemma hm_contains_key_keys: "hm_contains_key m k \<longleftrightarrow> k \<in> set (hm_keys m)"
  by (simp add: hm_contains_key_def hm.keys_get)

lemma hm_contains_key_Some [simp]: "hm_get m k = Some v \<Longrightarrow> hm_contains_key m k"
  by (simp add: hm_contains_key_def)

lemma hm_contains_insert [simp]:
  "hm_contains_key (hm_insert k v m) k' \<longleftrightarrow> k' = k \<or> hm_contains_key m k'"
  by (simp add: hm_contains_key_def)

lemma hm_index_Ok [simp]: "hm_index m k = Ok v \<longleftrightarrow> hm_get m k = Some v"
  by (simp add: hm_index_def)

lemma hm_index_Some [simp]: "hm_get m k = Some v \<Longrightarrow> hm_index m k = Ok v"
  by simp

lemma hm_ok_retain [simp]: "hm_ok m \<Longrightarrow> hm_ok (hm_retain p m)"
  unfolding hm_ok_def hm_retain_def by (rule distinct_map_filter)

lemma hm_get_retain:
  assumes "hm_ok m"
  shows "hm_get (hm_retain p m) k =
    (case hm_get m k of None \<Rightarrow> None | Some v \<Rightarrow> if p k v then Some v else None)"
proof -
  have iff: "hm_get (hm_retain p m) k = Some v \<longleftrightarrow> hm_get m k = Some v \<and> p k v" for v
    using hm_in_get[OF hm_ok_retain[OF assms], symmetric] hm_in_get[OF assms]
    by (auto simp: hm_retain_def)
  show ?thesis
  proof (cases "hm_get (hm_retain p m) k")
    case None
    then have "\<not> p k v" if "hm_get m k = Some v" for v using iff that by (metis option.distinct(1))
    with None show ?thesis by (auto split: option.splits)
  next
    case (Some v)
    then have "hm_get m k = Some v" "p k v" using iff by blast+
    with Some show ?thesis by simp
  qed
qed

lemma hm_ok_extend: "hm_ok m \<Longrightarrow> hm_ok (hm_extend m es)"
  unfolding hm_extend_def by (induction es arbitrary: m) auto

lemma hm_get_extend:
  "hm_get (hm_extend m es) k = (case map_of (rev es) k of None \<Rightarrow> hm_get m k | Some v \<Rightarrow> Some v)"
proof (induction es arbitrary: m)
  case (Cons e es)
  then show ?case
    by (cases e) (auto simp: hm_extend_def map_add_def split: option.splits)
qed (simp add: hm_extend_def)

lemma hm_push_get:
  "hm_get (hm_push k v m) k' =
    (if k' = k then Some ((case hm_get m k of None \<Rightarrow> [] | Some vs \<Rightarrow> vs) @ [v]) else hm_get m k')"
  by (simp add: hm_push_def)

lemma hm_ok_push [simp]: "hm_ok m \<Longrightarrow> hm_ok (hm_push k v m)"
  by (simp add: hm_push_def)

lemma hm_get_remove [simp]:
  "hm_ok m \<Longrightarrow> hm_get (hm_remove k m) k' = (if k' = k then None else hm_get m k')"
  by (rule hm.get_remove)

text \<open>A lookup does not depend on the order of the entries.\<close>

lemma hm_get_perm:
  assumes "hm_ok m" and "mset m = mset m'"
  shows "hm_get m' = hm_get m"
proof -
  have "set m = set m'" using assms(2) by (metis set_mset_mset)
  moreover have "hm_ok m'"
    using assms by (metis hm_ok_def mset_eq_imp_distinct_iff mset_map)
  ultimately have "hm_get m' k = Some v \<longleftrightarrow> hm_get m k = Some v" for k v
    using hm_in_get[OF assms(1)] hm_in_get[OF \<open>hm_ok m'\<close>] by metis
  then show ?thesis by (metis ext option.exhaust)
qed

end
