(* ===== verification/Containers.thy ===== *)
theory Containers
  imports Slots HashMaps
begin

text \<open>
  The data of the \<^verbatim>\<open>containers\<close> and \<^verbatim>\<open>xmss\<close> crates as records, and the collection types they
  use.  \<^verbatim>\<open>PersistentList<T, N>\<close> is a list that a \<^verbatim>\<open>push\<close> keeps within its type-level limit
  \<^verbatim>\<open>N\<close>, \<^verbatim>\<open>BitList<N>\<close> a list of bits.  Key and signature types are the bytes they wrap.

  The Merkle roots (\<^verbatim>\<open>hash_tree_root\<close>, derived by the ssz crate) are not code of this
  repository: they are the fields of \<open>ssz_root\<close>, an argument of every definition that hashes.
\<close>

section \<open>Keys and signatures (xmss)\<close>

datatype public_key = PublicKey (pk_bytes: "u8 list")
datatype secret_key = SecretKey (sk_bytes: "u8 list")
datatype signature = Signature (sig_bytes: "u8 list")
datatype aggregated_signature = AggregatedSignature (as_bytes: "u8 list")

section \<open>Containers\<close>

record checkpoint =
  cp_root :: h256
  cp_slot :: slot

record config =
  genesis_time :: u64

record status =
  status_finalized :: checkpoint
  status_head :: checkpoint

record validator =
  pubkey :: public_key
  v_index :: u64

record attestation_data =
  ad_slot :: slot
  ad_head :: checkpoint
  ad_target :: checkpoint
  ad_source :: checkpoint

record signature_key =
  sk_validator_id :: u64
  sk_data_root :: h256

record attestation =
  att_validator_id :: u64
  att_data :: attestation_data

record signed_attestation =
  sa_validator_id :: u64
  sa_message :: attestation_data
  sa_signature :: signature

type_synonym aggregation_bits = "bool list"

record aggregated_signature_proof =
  participants :: aggregation_bits
  proof_data :: aggregated_signature

record aggregated_attestation =
  aa_bits :: aggregation_bits
  aa_data :: attestation_data

record block_body =
  attestations :: "aggregated_attestation list"

record block_header =
  bh_slot :: slot
  bh_proposer_index :: u64
  bh_parent_root :: h256
  bh_state_root :: h256
  bh_body_root :: h256

record block =
  b_slot :: slot
  b_proposer_index :: u64
  b_parent_root :: h256
  b_state_root :: h256
  b_body :: block_body

record block_with_attestation =
  bwa_block :: block
  bwa_proposer_attestation :: attestation

record block_signatures =
  attestation_signatures :: "aggregated_signature_proof list"
  proposer_signature :: signature

record signed_block_with_attestation =
  sb_message :: block_with_attestation
  sb_signature :: block_signatures

text \<open>\<^verbatim>\<open>State\<close> of \<^verbatim>\<open>containers/src/state.rs\<close>.\<close>

record state =
  st_config :: config
  st_slot :: slot
  latest_block_header :: block_header
  st_latest_justified :: checkpoint
  st_latest_finalized :: checkpoint
  historical_block_hashes :: "h256 list"
  justified_slots :: "bool list"
  validators :: "validator list"
  justifications_roots :: "h256 list"
  justifications_validators :: "bool list"

text \<open>\<^verbatim>\<open>Default\<close> of the containers the network layer sends.\<close>

definition checkpoint_default :: checkpoint where
  "checkpoint_default = \<lparr>cp_root = 0, cp_slot = 0\<rparr>"

definition status_default :: status where
  "status_default = \<lparr>status_finalized = checkpoint_default, status_head = checkpoint_default\<rparr>"

definition public_key_default :: public_key where
  "public_key_default = PublicKey (replicate 52 0)"

definition signature_default :: signature where
  "signature_default = Signature (replicate 3112 0)"

definition signature_key_new :: "u64 \<Rightarrow> h256 \<Rightarrow> signature_key" where
  "signature_key_new validator_id data_root =
     \<lparr>sk_validator_id = validator_id, sk_data_root = data_root\<rparr>"

definition validator_registry_limit :: nat where
  "validator_registry_limit = 4096"

definition historical_roots_limit :: nat where
  "historical_roots_limit = 262144"

section \<open>Merkle roots\<close>

record ssz_root =
  root_state :: "state \<Rightarrow> h256"
  root_header :: "block_header \<Rightarrow> h256"
  root_body :: "block_body \<Rightarrow> h256"
  root_block :: "block \<Rightarrow> h256"
  root_data :: "attestation_data \<Rightarrow> h256"

text \<open>
  The header of a block.  SSZ hashes a container field by field, so a block and the header that
  carries the root of its body have the same root: the documented law \<open>ssz_header_law\<close>.
\<close>

definition header_of :: "ssz_root \<Rightarrow> block \<Rightarrow> block_header" where
  "header_of H b =
     \<lparr>bh_slot = b_slot b, bh_proposer_index = b_proposer_index b, bh_parent_root = b_parent_root b,
      bh_state_root = b_state_root b, bh_body_root = root_body H (b_body b)\<rparr>"

definition ssz_header_law :: "ssz_root \<Rightarrow> bool" where
  "ssz_header_law H \<longleftrightarrow> (\<forall>b. root_block H b = root_header H (header_of H b))"

text \<open>A concrete hash that satisfies the law, and data to vote on, for the examples.\<close>

definition mix :: "h256 \<Rightarrow> h256 \<Rightarrow> h256" where
  "mix a b = 1000003 * a + b"

definition sample_header_root :: "block_header \<Rightarrow> h256" where
  "sample_header_root h = 18446744073709551616 * mix (mix (mix (ucast (bh_proposer_index h))
     (bh_parent_root h)) (bh_state_root h)) (bh_body_root h) + ucast (bh_slot h)"

definition sample_root :: ssz_root where
  "sample_root =
     \<lparr>root_state = (\<lambda>s. 7 + ucast (st_slot s)),
      root_header = sample_header_root,
      root_body = (\<lambda>b. word_of_nat (length (attestations b))),
      root_block = (\<lambda>b. sample_header_root \<lparr>bh_slot = b_slot b,
        bh_proposer_index = b_proposer_index b, bh_parent_root = b_parent_root b,
        bh_state_root = b_state_root b,
        bh_body_root = word_of_nat (length (attestations (b_body b)))\<rparr>),
      root_data = (\<lambda>d. ucast (ad_slot d))\<rparr>"

lemma sample_root_header_law: "ssz_header_law sample_root"
  by (simp add: ssz_header_law_def sample_root_def header_of_def)

definition data_at :: "slot \<Rightarrow> attestation_data" where
  "data_at s = \<lparr>ad_slot = s, ad_head = checkpoint_default, ad_target = checkpoint_default,
     ad_source = checkpoint_default\<rparr>"

section \<open>Lists with a limit and bit lists\<close>

definition plist_push :: "nat \<Rightarrow> 'a list \<Rightarrow> 'a \<Rightarrow> 'a list res" where
  "plist_push limit xs x = (if length xs < limit then Ok (xs @ [x]) else Err ListFull)"

definition plist_get :: "'a list \<Rightarrow> u64 \<Rightarrow> 'a res" where
  "plist_get xs i = (if unat i < length xs then Ok (xs ! unat i) else Err IndexOutOfBounds)"

definition plist_try_from_iter :: "nat \<Rightarrow> 'a list \<Rightarrow> 'a list res" where
  "plist_try_from_iter limit xs = (if length xs \<le> limit then Ok xs else Err ListFull)"

definition bits_with_length :: "nat \<Rightarrow> bool list" where
  "bits_with_length n = replicate n False"

definition bits_get :: "bool list \<Rightarrow> nat \<Rightarrow> bool option" where
  "bits_get bs i = (if i < length bs then Some (bs ! i) else None)"

definition bits_set :: "nat \<Rightarrow> bool \<Rightarrow> bool list \<Rightarrow> bool list res" where
  "bits_set i b bs = (if i < length bs then Ok (bs[i := b]) else Panic BitIndexOutOfRange)"

text \<open>\<^verbatim>\<open>for (i, v) in vs.iter().enumerate() { bits.set(i, v) }\<close>.\<close>

definition bits_copy :: "bool list \<Rightarrow> bool list \<Rightarrow> bool list res" where
  "bits_copy src dst = for_each (\<lambda>(i, b). bits_set i b) (List.enumerate 0 src) dst"

definition bits_slice :: "bool list \<Rightarrow> nat \<Rightarrow> nat \<Rightarrow> bool list res" where
  "bits_slice bs from to =
     (if from \<le> to \<and> to \<le> length bs then Ok (take (to - from) (drop from bs))
      else Panic SliceOutOfRange)"

section \<open>Lemmas\<close>

lemma plist_push_Ok [simp]:
  "plist_push limit xs x = Ok ys \<longleftrightarrow> length xs < limit \<and> ys = xs @ [x]"
  by (auto simp: plist_push_def)

lemma plist_get_Ok [simp]: "plist_get xs i = Ok x \<longleftrightarrow> unat i < length xs \<and> x = xs ! unat i"
  by (auto simp: plist_get_def)

lemma plist_get_no_panic [simp]: "plist_get xs i \<noteq> Panic p" "plist_get xs i \<noteq> Diverge"
  by (auto simp: plist_get_def)

lemma plist_try_from_iter_Ok [simp]:
  "plist_try_from_iter limit xs = Ok ys \<longleftrightarrow> length xs \<le> limit \<and> ys = xs"
  by (auto simp: plist_try_from_iter_def)

lemma bits_get_Some [simp]: "bits_get bs i = Some b \<longleftrightarrow> i < length bs \<and> b = bs ! i"
  by (auto simp: bits_get_def)

lemma bits_get_None [simp]: "bits_get bs i = None \<longleftrightarrow> length bs \<le> i"
  by (auto simp: bits_get_def)

lemma bits_set_Ok [simp]: "bits_set i b bs = Ok cs \<longleftrightarrow> i < length bs \<and> cs = bs[i := b]"
  by (auto simp: bits_set_def)

lemma length_bits_with_length [simp]: "length (bits_with_length n) = n"
  by (simp add: bits_with_length_def)

lemma nth_bits_with_length [simp]: "i < n \<Longrightarrow> \<not> bits_with_length n ! i"
  by (simp add: bits_with_length_def)

lemma bits_slice_Ok [simp]:
  "bits_slice bs from to = Ok cs \<longleftrightarrow>
    from \<le> to \<and> to \<le> length bs \<and> cs = take (to - from) (drop from bs)"
  by (auto simp: bits_slice_def)

text \<open>Copying bits into a longer list overwrites its prefix.\<close>

lemma bits_copy_from:
  "n + length src \<le> length dst \<Longrightarrow>
   for_each (\<lambda>(i, b). bits_set i b) (List.enumerate n src) dst =
     Ok (take n dst @ src @ drop (n + length src) dst)"
proof (induction src arbitrary: n dst)
  case (Cons b src)
  then have "n < length dst" by simp
  then have "take (Suc n) (dst[n := b]) = take n dst @ [b]"
    by (simp add: take_Suc_conv_app_nth)
  with Cons show ?case by (simp add: bits_set_def)
qed simp

lemma bits_copy_Ok [simp]:
  "length src \<le> length dst \<Longrightarrow> bits_copy src dst = Ok (src @ drop (length src) dst)"
  using bits_copy_from[of 0 src dst] by (simp add: bits_copy_def)


text \<open>The characterizations of \<open>Ok\<close> results, which a concrete run does not need.\<close>

lemmas outcome_iffs = and_then_Ok map_res_Ok ok_or_Ok or_panic_Ok expect_Ok plist_push_Ok plist_get_Ok
  plist_try_from_iter_Ok bits_set_Ok bits_slice_Ok hm_index_Ok bits_get_Some bits_get_None bits_copy_Ok

lemmas [run_simps] = hm_extend_def hm_keys_def hm_insert_def hm_get_def hm_contains_key_def hm_index_def
  hm_remove_def hm_retain_def hm_empty_def plist_push_def plist_get_def plist_try_from_iter_def
  bits_with_length_def bits_copy_def bits_set_def bits_get_def bits_slice_def
  historical_roots_limit_def validator_registry_limit_def justified_index_after_def
  sample_root_def sample_header_root_def mix_def

end
