(* ===== verification/Attestations.thy ===== *)
theory Attestations
  imports Containers
begin

text \<open>
  \<^verbatim>\<open>containers/src/attestation.rs\<close>: participation bit lists, the grouping of attestations by
  their data, and the duplicate check.  Shown here: bit lists and index lists are inverse to
  each other, grouping keeps exactly the votes it is given and never emits the same data twice.
\<close>

section \<open>Participation bits\<close>

definition from_validator_indices :: "u64 list \<Rightarrow> aggregation_bits res" where
  "from_validator_indices indices =
     (case indices of
        [] \<Rightarrow> Panic NoValidatorReferenced
      | i # is \<Rightarrow>
          let max_id = fold max is i in
          if \<not> max_id < word_of_nat validator_registry_limit then Panic ValidatorIndexOverLimit
          else
            and_then (for_each (\<lambda>j. bits_set j False) [0..<Suc (unat max_id)]
                        (bits_with_length (unat (max_id + 1))))
              (for_each (\<lambda>j. bits_set (unat j) True) indices))"

definition set_bit_indices :: "bool list \<Rightarrow> u64 list" where
  "set_bit_indices bits = map word_of_nat (filter (\<lambda>i. bits ! i) [0..<length bits])"

definition to_validator_indices :: "aggregation_bits \<Rightarrow> u64 list res" where
  "to_validator_indices bits =
     (let indices = set_bit_indices bits in
      if indices = [] then Panic NoValidatorReferenced else Ok indices)"

definition get_participant_indices :: "aggregated_signature_proof \<Rightarrow> u64 list res" where
  "get_participant_indices proof = to_validator_indices (participants proof)"

section \<open>Grouping and duplicates\<close>

text \<open>\<^verbatim>\<open>find\<close> the group with the same data and push, or push a new group.\<close>

fun add_to_group ::
  "attestation \<Rightarrow> (attestation_data \<times> u64 list) list \<Rightarrow> (attestation_data \<times> u64 list) list" where
  "add_to_group a [] = [(att_data a, [att_validator_id a])]"
| "add_to_group a ((data, validator_ids) # groups) =
     (if data = att_data a then (data, validator_ids @ [att_validator_id a]) # groups
      else (data, validator_ids) # add_to_group a groups)"

definition aggregate_by_data :: "attestation list \<Rightarrow> aggregated_attestation list res" where
  "aggregate_by_data atts =
     map_collect
       (\<lambda>(data, validator_ids).
          map_res (\<lambda>bits. \<lparr>aa_bits = bits, aa_data = data\<rparr>) (from_validator_indices validator_ids))
       (fold add_to_group atts [])"

fun has_duplicate_from ::
  "ssz_root \<Rightarrow> aggregated_attestation list \<Rightarrow> h256 set \<Rightarrow> bool" where
  "has_duplicate_from H [] seen = False"
| "has_duplicate_from H (a # as) seen =
     (let root = root_data H (aa_data a) in
      if root \<in> seen then True else has_duplicate_from H as (insert root seen))"

definition has_duplicate_data :: "ssz_root \<Rightarrow> aggregated_attestation list \<Rightarrow> bool" where
  "has_duplicate_data H as = has_duplicate_from H as {}"

section \<open>Lemmas on participation bits\<close>

lemma fold_max_ge: "i \<le> fold max is i \<and> (\<forall>j \<in> set is. j \<le> fold max is (i :: 'a :: linorder))"
proof (induction "is" arbitrary: i)
  case (Cons a "is")
  from Cons[of "max a i"] show ?case by auto
qed simp

lemma fold_max_in: "fold max is i \<in> insert i (set is)" for i :: "'a :: linorder"
proof (induction "is" arbitrary: i)
  case (Cons a "is")
  from Cons[of "max a i"] show ?case by (auto simp: max_def)
qed simp

lemma for_each_bits_set:
  assumes "\<And>x. x \<in> set xs \<Longrightarrow> f x < length bs"
  shows "\<exists>cs. for_each (\<lambda>x. bits_set (f x) b) xs bs = Ok cs \<and> length cs = length bs \<and>
    (\<forall>i < length bs. cs ! i = (if i \<in> f ` set xs then b else bs ! i))"
  using assms
proof (induction xs arbitrary: bs)
  case (Cons x xs)
  from Cons.IH[of "bs[f x := b]"] Cons.prems obtain cs where
    "for_each (\<lambda>x. bits_set (f x) b) xs (bs[f x := b]) = Ok cs" "length cs = length bs"
    "\<forall>i < length bs. cs ! i = (if i \<in> f ` set xs then b else bs[f x := b] ! i)"
    by auto
  with Cons.prems show ?case by (auto simp: nth_list_update)
qed simp

lemma from_validator_indices_Ok:
  assumes "indices \<noteq> []" and "\<And>i. i \<in> set indices \<Longrightarrow> unat i < 4096"
  shows "\<exists>bits. from_validator_indices indices = Ok bits \<and> length bits \<le> 4096 \<and>
    (\<forall>j < length bits. bits ! j \<longleftrightarrow> word_of_nat j \<in> set indices) \<and>
    (\<forall>i \<in> set indices. unat i < length bits)"
proof -
  obtain i "is" where ind: "indices = i # is" using assms(1) by (cases indices) auto
  define m where "m = fold max is i"
  have m: "m \<in> set indices" "\<forall>j \<in> set indices. j \<le> m"
    using fold_max_in[of "is" i] fold_max_ge[of i "is"] by (auto simp: ind m_def)
  then have lim: "unat m < 4096" using assms(2) by blast
  then have m1: "unat (m + 1) = Suc (unat m)" by (simp add: unat_word_ariths)
  have ok: "m < word_of_nat validator_registry_limit"
    using lim by (simp add: validator_registry_limit_def word_less_nat_alt)
  obtain b0 where b0: "for_each (\<lambda>j. bits_set j False) [0..<Suc (unat m)]
      (bits_with_length (unat (m + 1))) = Ok b0" "length b0 = Suc (unat m)"
      "\<forall>i < Suc (unat m). \<not> b0 ! i"
    using for_each_bits_set[of "[0..<Suc (unat m)]" "\<lambda>j. j" "bits_with_length (unat (m + 1))" False]
    by (auto simp: m1 simp del: upt_Suc)
  obtain bits where bits: "for_each (\<lambda>j. bits_set (unat j) True) indices b0 = Ok bits"
      "length bits = Suc (unat m)"
      "\<forall>j < Suc (unat m). bits ! j = (j \<in> unat ` set indices \<or> b0 ! j)"
    using for_each_bits_set[of indices unat b0 True] m(2) b0(2)
    by (auto simp: word_le_nat_alt less_Suc_eq_le)
  have "j \<in> unat ` set indices \<longleftrightarrow> word_of_nat j \<in> set indices" if "j < Suc (unat m)" for j
  proof -
    have "unat (word_of_nat j :: u64) = j" using that lim by (simp add: unat_of_nat)
    then show ?thesis by (auto intro: rev_image_eqI)
  qed
  with bits b0(1,3) m(2) lim ok show ?thesis
    by (auto simp: from_validator_indices_def ind m_def[symmetric] Let_def
        word_le_nat_alt less_Suc_eq_le)
qed

lemma set_bit_indices_set:
  assumes "length bits \<le> 2 ^ 64"
  shows "set (set_bit_indices bits) = {i. unat i < length bits \<and> bits ! unat i}"
proof -
  have "unat (word_of_nat j :: u64) = j" if "j < length bits" for j
    using that assms by (simp add: unat_of_nat)
  then show ?thesis
    by (force simp: set_bit_indices_def image_iff)
qed

lemma from_validator_indices_ids:
  assumes "indices \<noteq> []" and "\<forall>i \<in> set indices. unat i < 4096"
  shows "\<exists>bits. from_validator_indices indices = Ok bits \<and> length bits \<le> 4096 \<and>
    set (set_bit_indices bits) = set indices"
proof -
  obtain bits where bits: "from_validator_indices indices = Ok bits" "length bits \<le> 4096"
      "\<forall>j < length bits. bits ! j \<longleftrightarrow> word_of_nat j \<in> set indices"
      "\<forall>i \<in> set indices. unat i < length bits"
    using from_validator_indices_Ok assms by metis
  then have "set (set_bit_indices bits) = set indices"
    by (auto simp: set_bit_indices_set)
  with bits(1,2) show ?thesis by blast
qed

lemma set_bit_indices_sorted:
  assumes "length bits \<le> 2 ^ 64"
  shows "sorted_wrt (<) (set_bit_indices bits)"
proof -
  have "unat (word_of_nat j :: u64) = j" if "j < length bits" for j
    using that assms by (simp add: unat_of_nat)
  moreover have "sorted_wrt (<) (filter (\<lambda>i. bits ! i) [0..<length bits])"
    by (simp add: sorted_wrt_filter)
  ultimately show ?thesis
    by (auto simp: set_bit_indices_def sorted_wrt_map word_less_nat_alt
        elim!: sorted_wrt_mono_rel[rotated])
qed

lemma set_bit_indices_nonempty: "set_bit_indices bits \<noteq> [] \<longleftrightarrow> True \<in> set bits"
  by (auto simp: set_bit_indices_def filter_empty_conv in_set_conv_nth)

section \<open>Lemmas on grouping\<close>

lemma map_of_add_to_group:
  "map_of (add_to_group a gs) d =
    (if d = att_data a
     then Some ((case map_of gs d of None \<Rightarrow> [] | Some ids \<Rightarrow> ids) @ [att_validator_id a])
     else map_of gs d)"
  by (induction a gs rule: add_to_group.induct) auto

lemma add_to_group_keys:
  "set (map fst (add_to_group a gs)) = insert (att_data a) (set (map fst gs))"
  by (induction a gs rule: add_to_group.induct) auto

lemma distinct_add_to_group: "distinct (map fst gs) \<Longrightarrow> distinct (map fst (add_to_group a gs))"
  using add_to_group_keys by (induction a gs rule: add_to_group.induct) auto

lemma distinct_groups: "distinct (map fst gs) \<Longrightarrow> distinct (map fst (fold add_to_group atts gs))"
  by (induction atts arbitrary: gs) (auto simp: distinct_add_to_group)

text \<open>The ids that a group collects are those of the attestations with its data, in order.\<close>

definition ids_for :: "attestation_data \<Rightarrow> attestation list \<Rightarrow> u64 list" where
  "ids_for d atts = map att_validator_id (filter (\<lambda>a. att_data a = d) atts)"

lemma map_of_groups:
  "map_of (fold add_to_group atts gs) d =
    (case map_of gs d of None \<Rightarrow> if ids_for d atts = [] then None else Some (ids_for d atts)
     | Some ids \<Rightarrow> Some (ids @ ids_for d atts))"
proof (induction atts arbitrary: gs)
  case (Cons a atts)
  show ?case
    by (auto simp: Cons[of "add_to_group a gs"] map_of_add_to_group ids_for_def split: option.splits)
qed (auto simp: ids_for_def split: option.splits)

lemma groups_mem:
  "(d, ids) \<in> set (fold add_to_group atts []) \<longleftrightarrow> ids = ids_for d atts \<and> ids \<noteq> []"
proof -
  have "(d, ids) \<in> set (fold add_to_group atts []) \<longleftrightarrow>
      map_of (fold add_to_group atts []) d = Some ids"
    using distinct_groups[of "[]" atts] by simp
  then show ?thesis by (auto simp: map_of_groups)
qed

lemma set_ids_for: "v \<in> set (ids_for d atts) \<longleftrightarrow> \<lparr>att_validator_id = v, att_data = d\<rparr> \<in> set atts"
  by (auto simp: ids_for_def image_iff) (metis attestation.surjective old.unit.exhaust)

lemma aggregate_by_data_Ok:
  assumes "\<And>a. a \<in> set atts \<Longrightarrow> unat (att_validator_id a) < 4096"
  shows "\<exists>aggs. aggregate_by_data atts = Ok aggs \<and>
    map aa_data aggs = map fst (fold add_to_group atts []) \<and>
    (\<forall>agg \<in> set aggs. length (aa_bits agg) \<le> 4096 \<and>
       set (set_bit_indices (aa_bits agg)) = set (ids_for (aa_data agg) atts) \<and>
       ids_for (aa_data agg) atts \<noteq> [])"
proof -
  define gs where "gs = fold add_to_group atts []"
  define P where "P = (\<lambda>g agg. map_res (\<lambda>bits. \<lparr>aa_bits = bits, aa_data = fst g\<rparr>)
      (from_validator_indices (snd g)) = Ok agg \<and> aa_data agg = fst g \<and> length (aa_bits agg) \<le> 4096 \<and>
      set (set_bit_indices (aa_bits agg)) = set (snd g))"
  have "\<exists>agg. P g agg" if "g \<in> set gs" for g
  proof -
    obtain d ids where g: "g = (d, ids)" by fastforce
    with that have ids: "ids = ids_for d atts" "ids \<noteq> []" by (auto simp: gs_def groups_mem)
    have "\<forall>i \<in> set ids. unat i < 4096" using assms by (auto simp: ids ids_for_def)
    then obtain bits where "from_validator_indices ids = Ok bits" "length bits \<le> 4096"
        "set (set_bit_indices bits) = set ids"
      using from_validator_indices_ids[OF ids(2)] by blast
    then show ?thesis by (auto simp: P_def g)
  qed
  then obtain f where f: "\<And>g. g \<in> set gs \<Longrightarrow> P g (f g)" by metis
  have "map_collect (\<lambda>(data, ids). map_res (\<lambda>bits. \<lparr>aa_bits = bits, aa_data = data\<rparr>)
      (from_validator_indices ids)) gs = Ok (map f gs)"
    using f by (intro map_collect_all_Ok) (auto simp: P_def case_prod_beta)
  then have "aggregate_by_data atts = Ok (map f gs)" by (simp add: aggregate_by_data_def gs_def)
  moreover have "map aa_data (map f gs) = map fst gs" using f by (auto simp: P_def)
  moreover have "snd g = ids_for (fst g) atts \<and> snd g \<noteq> []" if "g \<in> set gs" for g
    using that groups_mem[of "fst g" "snd g" atts] by (auto simp: gs_def)
  then have "\<forall>agg \<in> set (map f gs). length (aa_bits agg) \<le> 4096 \<and>
       set (set_bit_indices (aa_bits agg)) = set (ids_for (aa_data agg) atts) \<and>
       ids_for (aa_data agg) atts \<noteq> []"
    using f by (auto simp: P_def)
  ultimately show ?thesis unfolding gs_def by blast
qed

lemma has_duplicate_from_iff:
  "has_duplicate_from H as seen \<longleftrightarrow>
    \<not> distinct (map (\<lambda>a. root_data H (aa_data a)) as) \<or>
    (\<exists>a \<in> set as. root_data H (aa_data a) \<in> seen)"
  by (induction H as seen rule: has_duplicate_from.induct) (auto simp: Let_def image_iff, metis)

lemma has_duplicate_data_iff:
  "has_duplicate_data H as \<longleftrightarrow> \<not> distinct (map (\<lambda>a. root_data H (aa_data a)) as)"
  by (simp add: has_duplicate_data_def has_duplicate_from_iff)

section \<open>Properties\<close>

text \<open>
  Building the participation bits of a non-empty list of validator indices below the registry
  limit always succeeds, and reading the indices back gives the same set, in increasing order.
\<close>

theorem validator_indices_roundtrip:
  assumes "indices \<noteq> []" and "\<forall>i \<in> set indices. unat i < 4096"
  shows "\<exists>bits js. from_validator_indices indices = Ok bits \<and> to_validator_indices bits = Ok js \<and>
    set js = set indices \<and> sorted_wrt (<) js"
proof -
  obtain bits where bits: "from_validator_indices indices = Ok bits" "length bits \<le> 4096"
      "set (set_bit_indices bits) = set indices"
    using from_validator_indices_ids[OF assms] by blast
  with assms(1) have "set_bit_indices bits \<noteq> []" by (metis set_empty)
  with bits show ?thesis
    by (auto simp: to_validator_indices_def Let_def set_bit_indices_sorted)
qed

theorem validator_indices_roundtrip_witness:
  "\<exists>bits js. from_validator_indices [7, 2] = Ok bits \<and> to_validator_indices bits = Ok js \<and>
    set js = {7, 2} \<and> sorted_wrt (<) js"
  using validator_indices_roundtrip[of "[7, 2]"] by simp

text \<open>
  C26: \<^verbatim>\<open>aggregate_by_data\<close> succeeds on attestations of registered validators and is exact: it
  emits one aggregate per attestation data, and a validator is marked in the aggregate of some
  data exactly when one of the given attestations is that validator's vote for that data.
\<close>

theorem aggregate_by_data_exact:
  assumes "\<forall>a \<in> set atts. unat (att_validator_id a) < 4096"
  shows "\<exists>aggs. aggregate_by_data atts = Ok aggs \<and> distinct (map aa_data aggs) \<and>
    (\<forall>d v. (\<exists>agg \<in> set aggs. aa_data agg = d \<and> v \<in> set (set_bit_indices (aa_bits agg))) \<longleftrightarrow>
       \<lparr>att_validator_id = v, att_data = d\<rparr> \<in> set atts)"
proof -
  obtain aggs where aggs: "aggregate_by_data atts = Ok aggs"
      "map aa_data aggs = map fst (fold add_to_group atts [])"
      "\<forall>agg \<in> set aggs. set (set_bit_indices (aa_bits agg)) = set (ids_for (aa_data agg) atts)"
    using aggregate_by_data_Ok assms by metis
  have "distinct (map aa_data aggs)" by (simp add: aggs(2) distinct_groups)
  moreover have "\<exists>agg \<in> set aggs. aa_data agg = d"
    if "\<lparr>att_validator_id = v, att_data = d\<rparr> \<in> set atts" for d v
  proof -
    from that have "ids_for d atts \<noteq> []" by (metis set_ids_for empty_iff list.set(1))
    then have "d \<in> set (map fst (fold add_to_group atts []))" using groups_mem by force
    then show ?thesis by (auto simp flip: aggs(2))
  qed
  ultimately show ?thesis using aggs by (auto simp: set_ids_for)
qed

theorem aggregate_by_data_exact_witness:
  "\<exists>aggs. aggregate_by_data [\<lparr>att_validator_id = 3, att_data = data_at 5\<rparr>] = Ok aggs \<and>
    distinct (map aa_data aggs) \<and>
    (\<forall>d v. (\<exists>agg \<in> set aggs. aa_data agg = d \<and> v \<in> set (set_bit_indices (aa_bits agg))) \<longleftrightarrow>
       \<lparr>att_validator_id = v, att_data = d\<rparr> \<in> set [\<lparr>att_validator_id = 3, att_data = data_at 5\<rparr>])"
  by (rule aggregate_by_data_exact) simp

text \<open>
  The aggregates that \<^verbatim>\<open>aggregate_by_data\<close> emits pass the block's duplicate check whenever the
  data roots of the given attestations do not collide.
\<close>

theorem aggregate_by_data_no_duplicates:
  assumes "aggregate_by_data atts = Ok aggs" and "inj_on (root_data H) (att_data ` set atts)"
  shows "\<not> has_duplicate_data H aggs"
proof -
  have "map aa_data aggs = map fst (fold add_to_group atts [])"
    using assms(1) unfolding aggregate_by_data_def map_collect_Ok
    by (induction rule: list_all2_induct) auto
  then have dist: "distinct (map aa_data aggs)"
    and sub: "set (map aa_data aggs) = set (map fst (fold add_to_group atts []))"
    by (simp_all add: distinct_groups)
  have "d \<in> att_data ` set atts" if "d \<in> set (map fst (fold add_to_group atts []))" for d
  proof -
    from that obtain ids where "(d, ids) \<in> set (fold add_to_group atts [])" by auto
    then have "ids_for d atts \<noteq> []" by (auto simp: groups_mem)
    then show ?thesis by (auto simp: ids_for_def filter_empty_conv)
  qed
  then have "set (map aa_data aggs) \<subseteq> att_data ` set atts" unfolding sub by blast
  with assms(2) have "inj_on (root_data H) (set (map aa_data aggs))" by (rule inj_on_subset)
  with dist have "distinct (map (root_data H) (map aa_data aggs))"
    by (simp add: distinct_map del: map_map)
  then show ?thesis by (simp add: has_duplicate_data_iff comp_def)
qed

theorem aggregate_by_data_no_duplicates_witness:
  "\<not> has_duplicate_data sample_root
     [\<lparr>aa_bits = [True], aa_data = data_at 5\<rparr>, \<lparr>aa_bits = [True], aa_data = data_at 6\<rparr>]"
proof (rule aggregate_by_data_no_duplicates)
  show "aggregate_by_data [\<lparr>att_validator_id = 0, att_data = data_at 5\<rparr>,
      \<lparr>att_validator_id = 0, att_data = data_at 6\<rparr>] =
    Ok [\<lparr>aa_bits = [True], aa_data = data_at 5\<rparr>, \<lparr>aa_bits = [True], aa_data = data_at 6\<rparr>]"
    by (simp add: aggregate_by_data_def from_validator_indices_def data_at_def bits_with_length_def
        bits_set_def validator_registry_limit_def map_res_def word_less_nat_alt)
qed (simp add: data_at_def sample_root_def)

end
