(* ===== verification/State_Transition.thy ===== *)
theory State_Transition
  imports Attestations
begin

text \<open>
  \<^verbatim>\<open>containers/src/state.rs\<close> up to and including \<^verbatim>\<open>process_attestations\<close>: the window of justified
  slots, genesis, slot and block processing, and the 3SF-mini justification and finalization
  rules.  The body of the attestation loop is split at its \<^verbatim>\<open>continue\<close>s:
  \<open>attestation_counts\<close> is the chain of filters, \<open>record_votes\<close>, \<open>try_finalize\<close> and
  \<open>process_attestation\<close> are the rest in the order of the source.
\<close>

section \<open>JustifiedSlots\<close>

definition is_slot_justified :: "bool list \<Rightarrow> slot \<Rightarrow> slot \<Rightarrow> bool res" where
  "is_slot_justified js finalized_slot target_slot =
     (case justified_index_after target_slot finalized_slot of
        None \<Rightarrow> Ok True
      | Some relative_index \<Rightarrow> ok_or (bits_get js (unat relative_index)) SlotOutsideTrackedRange)"

definition with_justified :: "bool list \<Rightarrow> slot \<Rightarrow> slot \<Rightarrow> bool \<Rightarrow> bool list res" where
  "with_justified js finalized_slot target_slot value =
     (case justified_index_after target_slot finalized_slot of
        None \<Rightarrow> Ok js
      | Some relative_index \<Rightarrow>
          ok_or (map_option (\<lambda>_. js[unat relative_index := value]) (bits_get js (unat relative_index)))
            SlotOutsideTrackedRange)"

definition shift_window :: "bool list \<Rightarrow> u64 \<Rightarrow> bool list res" where
  "shift_window js delta =
     (if delta = 0 then Ok js
      else and_then (bits_slice js (unat delta) (length js))
             (\<lambda>bits. bits_copy bits (bits_with_length (length bits))))"

definition extend_to_slot :: "bool list \<Rightarrow> slot \<Rightarrow> slot \<Rightarrow> bool list res" where
  "extend_to_slot js finalized_slot target_slot =
     (case justified_index_after target_slot finalized_slot of
        None \<Rightarrow> Ok js
      | Some relative_index \<Rightarrow>
          let required_capacity = relative_index + 1 in
          (case checked_sub required_capacity (word_of_nat (length js)) of
             None \<Rightarrow> Ok js
           | Some gap_size \<Rightarrow> bits_copy js (bits_with_length (unat required_capacity))))"

section \<open>Genesis\<close>

definition genesis_header :: "ssz_root \<Rightarrow> block_header" where
  "genesis_header H =
     \<lparr>bh_slot = 0, bh_proposer_index = 0, bh_parent_root = 0, bh_state_root = 0,
      bh_body_root = root_body H \<lparr>attestations = []\<rparr>\<rparr>"

definition genesis_with_list :: "ssz_root \<Rightarrow> u64 \<Rightarrow> validator list \<Rightarrow> state" where
  "genesis_with_list H time validator_list =
     \<lparr>st_config = \<lparr>genesis_time = time\<rparr>, st_slot = 0, latest_block_header = genesis_header H,
      st_latest_justified = \<lparr>cp_root = 0, cp_slot = 0\<rparr>,
      st_latest_finalized = \<lparr>cp_root = 0, cp_slot = 0\<rparr>,
      historical_block_hashes = [], justified_slots = [], validators = validator_list,
      justifications_roots = [], justifications_validators = []\<rparr>"

definition push_validators :: "validator list \<Rightarrow> validator list res" where
  "push_validators vs =
     for_each (\<lambda>v l. expect (plist_push validator_registry_limit l v) ListLimitExceeded) vs []"

definition generate_genesis_with_validators :: "ssz_root \<Rightarrow> u64 \<Rightarrow> validator list \<Rightarrow> state res" where
  "generate_genesis_with_validators H time vs =
     map_res (genesis_with_list H time) (push_validators vs)"

definition generate_genesis :: "ssz_root \<Rightarrow> u64 \<Rightarrow> u64 \<Rightarrow> state res" where
  "generate_genesis H time num_validators =
     map_res (genesis_with_list H time)
       (push_validators
          (map (\<lambda>i. \<lparr>pubkey = public_key_default, v_index = word_of_nat i\<rparr>) [0..<unat num_validators]))"

section \<open>The flattened justification map\<close>

text \<open>A \<^verbatim>\<open>BTreeMap\<close> is its list of entries in key order; \<^verbatim>\<open>collect\<close> keeps the last entry of a key.\<close>

definition btree_collect :: "('k :: linorder \<times> 'v) list \<Rightarrow> ('k, 'v) hmap" where
  "btree_collect es = sort_key fst (hm_extend [] es)"

definition get_justifications :: "state \<Rightarrow> (h256, bool list) hmap" where
  "get_justifications st =
     (let num_validators = length (validators st) in
      btree_collect
        (map (\<lambda>(i, root).
            (root, map (\<lambda>idx. case bits_get (justifications_validators st) idx of
                                 Some b \<Rightarrow> b | None \<Rightarrow> False)
                     [i * num_validators ..< i * num_validators + num_validators]))
          (List.enumerate 0 (justifications_roots st))))"

definition with_justifications :: "state \<Rightarrow> (h256, bool list) hmap \<Rightarrow> state res" where
  "with_justifications st m =
     (let num_validators = length (validators st);
          roots = sort (hm_keys m) in
      and_then (for_each (\<lambda>r l. expect (plist_push historical_roots_limit l r) ListLimitExceeded)
                  roots [])
        (\<lambda>new_roots.
      and_then (for_each
          (\<lambda>(i, r) bits.
             and_then (or_panic (hm_get m r) MissingKey) (\<lambda>v.
             if length v \<noteq> num_validators then Panic VoteVectorLength
             else for_each (\<lambda>(j, bit) bs. if bit then bits_set (i * num_validators + j) True bs else Ok bs)
                    (List.enumerate 0 v) bits))
          (List.enumerate 0 roots) (bits_with_length (length roots * num_validators)))
        (\<lambda>new_validators.
      Ok (st\<lparr>justifications_roots := new_roots, justifications_validators := new_validators\<rparr>))))"

definition with_historical_hashes :: "state \<Rightarrow> h256 list \<Rightarrow> state res" where
  "with_historical_hashes st hashes =
     map_res (\<lambda>hs. st\<lparr>historical_block_hashes := hs\<rparr>)
       (for_each (\<lambda>h l. expect (plist_push historical_roots_limit l h) ListLimitExceeded) hashes [])"

section \<open>Slots and block headers\<close>

definition is_proposer_for :: "u64 \<Rightarrow> slot \<Rightarrow> u64 \<Rightarrow> bool res" where
  "is_proposer_for validator_index s num_validators =
     (if num_validators = 0 then Panic RemainderByZero
      else Ok (s mod num_validators = validator_index))"

definition process_slot :: "ssz_root \<Rightarrow> state \<Rightarrow> state" where
  "process_slot H st =
     (let st' = (if bh_state_root (latest_block_header st) = 0
                 then st\<lparr>latest_block_header :=
                        (latest_block_header st)\<lparr>bh_state_root := root_state H st\<rparr>\<rparr>
                 else st)
      in st'\<lparr>st_slot := st_slot st' + 1\<rparr>)"

lemma process_slot_slot [simp]: "st_slot (process_slot H st) = st_slot st + 1"
  by (simp add: process_slot_def Let_def)

function process_slots_loop :: "ssz_root \<Rightarrow> slot \<Rightarrow> state \<Rightarrow> state" where
  "process_slots_loop H target_slot st =
     (if st_slot st < target_slot then process_slots_loop H target_slot (process_slot H st) else st)"
  by pat_completeness auto
termination
  by (relation "measure (\<lambda>(H, target_slot, st). unat target_slot - unat (st_slot st))")
     (auto simp: unat_add_one word_less_nat_alt)

definition process_slots :: "ssz_root \<Rightarrow> state \<Rightarrow> slot \<Rightarrow> state res" where
  "process_slots H st target_slot =
     (if \<not> st_slot st < target_slot then Err TargetSlotNotInFuture
      else Ok (process_slots_loop H target_slot st))"

definition process_block_header :: "ssz_root \<Rightarrow> state \<Rightarrow> block \<Rightarrow> state res" where
  "process_block_header H st b =
     (let parent_header = latest_block_header st;
          parent_root = root_header H parent_header in
      if b_slot b \<noteq> st_slot st then Err BlockSlotMismatch
      else if \<not> b_slot b > bh_slot parent_header then Err BlockOlderThanLatestHeader
      else
        and_then (is_proposer_for (b_proposer_index b) (st_slot st) (word_of_nat (length (validators st))))
          (\<lambda>is_proposer.
        if \<not> is_proposer then Err IncorrectBlockProposer
        else if b_parent_root b \<noteq> parent_root then Err BlockParentRootMismatch
        else
          let is_genesis_parent = (bh_slot parent_header = 0);
              new_latest_justified =
                (if is_genesis_parent then \<lparr>cp_root = parent_root, cp_slot = 0\<rparr>
                 else st_latest_justified st);
              new_latest_finalized =
                (if is_genesis_parent then \<lparr>cp_root = parent_root, cp_slot = 0\<rparr>
                 else st_latest_finalized st);
              num_empty_slots = b_slot b - bh_slot parent_header - 1 in
          and_then (plist_push historical_roots_limit (historical_block_hashes st) parent_root)
            (\<lambda>hashes0.
          and_then (for_each (\<lambda>_ hs. plist_push historical_roots_limit hs 0)
                      [0..<unat num_empty_slots] hashes0)
            (\<lambda>hashes.
          and_then (extend_to_slot (justified_slots st) (cp_slot (st_latest_finalized st)) (b_slot b - 1))
            (\<lambda>js.
          Ok (st\<lparr>historical_block_hashes := hashes, justified_slots := js,
                 st_latest_justified := new_latest_justified,
                 st_latest_finalized := new_latest_finalized,
                 latest_block_header :=
                   \<lparr>bh_slot = b_slot b, bh_proposer_index = b_proposer_index b,
                    bh_parent_root = b_parent_root b, bh_state_root = 0,
                    bh_body_root = root_body H (b_body b)\<rparr>\<rparr>))))))"

section \<open>Attestations\<close>

text \<open>The variables of the loop of \<^verbatim>\<open>process_attestations\<close>.\<close>

record att_loop =
  al_justifications :: "(h256, bool list) hmap"
  al_latest_justified :: checkpoint
  al_latest_finalized :: checkpoint
  al_finalized_slot :: slot
  al_justified_slots :: "bool list"

definition initial_justifications :: "state \<Rightarrow> (h256, bool list) hmap res" where
  "initial_justifications st =
     (let n = length (validators st) in
      map_res (hm_extend [])
        (map_collect (\<lambda>(i, root).
            map_res (\<lambda>votes. (root, votes))
              (bits_slice (justifications_validators st) (i * n) ((i + 1) * n)))
          (List.enumerate 0 (justifications_roots st))))"

definition build_root_to_slot :: "h256 list \<Rightarrow> slot \<Rightarrow> (h256, slot) hmap res" where
  "build_root_to_slot hashes finalized_slot =
     for_each (\<lambda>i m.
         and_then (plist_get hashes (word_of_nat i)) (\<lambda>root.
         Ok (case hm_get m root of
               Some s \<Rightarrow> if word_of_nat i > s then hm_insert root (word_of_nat i) m else m
             | None \<Rightarrow> hm_insert root (word_of_nat i) m)))
       [unat (finalized_slot + 1)..<length hashes] []"

definition attestation_counts :: "state \<Rightarrow> att_loop \<Rightarrow> aggregated_attestation \<Rightarrow> bool res" where
  "attestation_counts st l a =
     (let source = ad_source (aa_data a); target = ad_target (aa_data a);
          hashes = historical_block_hashes st in
      and_then (is_slot_justified (al_justified_slots l) (al_finalized_slot l) (cp_slot source))
        (\<lambda>source_justified.
      if \<not> source_justified then Ok False
      else
      and_then (is_slot_justified (al_justified_slots l) (al_finalized_slot l) (cp_slot target))
        (\<lambda>target_justified.
      if target_justified then Ok False
      else if cp_root source = 0 \<or> cp_root target = 0 then Ok False
      else
      and_then (plist_get hashes (cp_slot source)) (\<lambda>source_hash.
      and_then (if cp_root source \<noteq> source_hash then Ok True
                else map_res (\<lambda>target_hash. cp_root target \<noteq> target_hash)
                       (plist_get hashes (cp_slot target)))
        (\<lambda>mismatch.
      if mismatch then Ok False
      else if cp_slot target \<le> cp_slot source then Ok False
      else is_justifiable_after (cp_slot target) (cp_slot (st_latest_finalized st)))))))"

definition record_votes ::
  "nat \<Rightarrow> h256 \<Rightarrow> aggregation_bits \<Rightarrow> (h256, bool list) hmap \<Rightarrow> (h256, bool list) hmap res" where
  "record_votes n root bits justifications =
     (let js = (if hm_contains_key justifications root then justifications
                else hm_insert root (bits_with_length n) justifications) in
      and_then (to_validator_indices bits) (\<lambda>ids.
      for_each (\<lambda>validator_id m.
          and_then (ok_or (hm_get m root) UnknownTargetRoot) (\<lambda>votes.
          if unat validator_id < length votes
          then Ok (hm_insert root (votes[unat validator_id := True]) m)
          else Err ValidatorIndexOutOfRange))
        ids js))"

definition vote_count :: "bool list \<Rightarrow> u64" where
  "vote_count votes = word_of_nat (length (filter id votes))"

definition supermajority :: "nat \<Rightarrow> bool list \<Rightarrow> bool" where
  "supermajority n votes \<longleftrightarrow> 3 * vote_count votes \<ge> 2 * (word_of_nat n :: u64)"

fun any_justifiable :: "slot \<Rightarrow> nat list \<Rightarrow> bool res" where
  "any_justifiable fin [] = Ok False"
| "any_justifiable fin (s # ss) =
     and_then (is_justifiable_after (word_of_nat s) fin)
       (\<lambda>b. if b then Ok True else any_justifiable fin ss)"

definition try_finalize ::
  "state \<Rightarrow> (h256, slot) hmap \<Rightarrow> checkpoint \<Rightarrow> checkpoint \<Rightarrow> att_loop \<Rightarrow> att_loop res" where
  "try_finalize st root_to_slot source target l =
     and_then (any_justifiable (cp_slot (st_latest_finalized st))
                 [unat (cp_slot source + 1)..<unat (cp_slot target)])
       (\<lambda>between.
     if between then Ok l
     else
       let old_finalized_slot = al_finalized_slot l;
           l' = l\<lparr>al_latest_finalized := source, al_finalized_slot := cp_slot source\<rparr> in
       (case checked_sub (cp_slot source) old_finalized_slot of
          None \<Rightarrow> Ok l'
        | Some delta \<Rightarrow>
            if \<not> delta > 0 then Ok l'
            else
              and_then (shift_window (al_justified_slots l) delta) (\<lambda>js.
              if \<not> list_all (hm_contains_key root_to_slot) (hm_keys (al_justifications l))
              then Err JustificationRootMissing
              else Ok (l'\<lparr>al_justified_slots := js,
                          al_justifications :=
                            hm_retain (\<lambda>root _. case hm_get root_to_slot root of
                                          Some s \<Rightarrow> s > cp_slot source | None \<Rightarrow> False)
                              (al_justifications l)\<rparr>))))"

definition process_attestation ::
  "state \<Rightarrow> (h256, slot) hmap \<Rightarrow> aggregated_attestation \<Rightarrow> att_loop \<Rightarrow> att_loop res" where
  "process_attestation st root_to_slot a l =
     (let source = ad_source (aa_data a); target = ad_target (aa_data a);
          n = length (validators st) in
      and_then (attestation_counts st l a) (\<lambda>counts.
      if \<not> counts then Ok l
      else
      and_then (record_votes n (cp_root target) (aa_bits a) (al_justifications l)) (\<lambda>justifications.
      and_then (hm_index justifications (cp_root target)) (\<lambda>votes.
      let l1 = l\<lparr>al_justifications := justifications\<rparr> in
      if \<not> supermajority n votes then Ok l1
      else
      and_then (with_justified (al_justified_slots l1) (al_finalized_slot l1) (cp_slot target) True)
        (\<lambda>js.
      try_finalize st root_to_slot source target
        (l1\<lparr>al_latest_justified := target, al_justified_slots := js,
            al_justifications := hm_remove (cp_root target) justifications\<rparr>))))))"

definition flatten_justifications :: "(h256, bool list) hmap \<Rightarrow> (h256 list \<times> bool list) res" where
  "flatten_justifications justifications =
     (let sorted_roots = sort (hm_keys justifications) in
      and_then (plist_try_from_iter historical_roots_limit sorted_roots) (\<lambda>roots.
      and_then (map_collect (hm_index justifications) sorted_roots) (\<lambda>votes.
      map_res (\<lambda>bits. (roots, bits)) (bits_copy (concat votes) (bits_with_length (length (concat votes)))))))"

definition process_attestations :: "state \<Rightarrow> aggregated_attestation list \<Rightarrow> state res" where
  "process_attestations st atts =
     (if \<not> list_all (\<lambda>root. root \<noteq> 0) (justifications_roots st) then Err ZeroHashInJustificationRoots
      else
      and_then (initial_justifications st) (\<lambda>justifications.
      and_then (build_root_to_slot (historical_block_hashes st) (cp_slot (st_latest_finalized st)))
        (\<lambda>root_to_slot.
      and_then (for_each (process_attestation st root_to_slot) atts
          \<lparr>al_justifications = justifications, al_latest_justified = st_latest_justified st,
           al_latest_finalized = st_latest_finalized st,
           al_finalized_slot = cp_slot (st_latest_finalized st),
           al_justified_slots = justified_slots st\<rparr>)
        (\<lambda>l.
      map_res (\<lambda>(roots, bits).
          st\<lparr>justifications_roots := roots, justifications_validators := bits,
             justified_slots := al_justified_slots l,
             st_latest_justified := al_latest_justified l,
             st_latest_finalized := al_latest_finalized l\<rparr>)
        (flatten_justifications (al_justifications l))))))"

section \<open>Blocks\<close>

definition process_block :: "ssz_root \<Rightarrow> state \<Rightarrow> block \<Rightarrow> state res" where
  "process_block H st b =
     and_then (process_block_header H st b) (\<lambda>st'.
     if has_duplicate_data H (attestations (b_body b)) then Err DuplicateAttestationData
     else process_attestations st' (attestations (b_body b)))"

definition state_transition ::
  "ssz_root \<Rightarrow> state \<Rightarrow> signed_block_with_attestation \<Rightarrow> bool \<Rightarrow> state res" where
  "state_transition H st signed_block valid_signatures =
     (if \<not> valid_signatures then Err InvalidBlockSignatures
      else
        let b = bwa_block (sb_message signed_block) in
        and_then (process_slots H st (b_slot b)) (\<lambda>st1.
        and_then (process_block H st1 b) (\<lambda>st2.
        if b_state_root b \<noteq> root_state H st2 then Err InvalidStateRoot else Ok st2)))"

declare process_slots_loop.simps [simp del]


lemmas [run_simps] = to_validator_indices_def set_bit_indices_def has_duplicate_data_def
  is_slot_justified_def with_justified_def shift_window_def extend_to_slot_def genesis_header_def
  genesis_with_list_def is_proposer_for_def process_slot_def process_slots_loop.simps process_slots_def
  process_block_header_def initial_justifications_def build_root_to_slot_def attestation_counts_def
  record_votes_def vote_count_def supermajority_def try_finalize_def process_attestation_def
  flatten_justifications_def process_attestations_def process_block_def state_transition_def

end
