(* ===== verification/Justified_Window.thy ===== *)
theory Justified_Window
  imports State_Transition
begin

text \<open>
  What the bit list of \<^verbatim>\<open>JustifiedSlots\<close> means.  The list is relative to the finalized slot; its
  abstraction \<open>window_slots\<close> is the set of justified slots after it.  The locale
  \<open>justified_window\<close> is the contract that \<^verbatim>\<open>process_attestations\<close> relies on, stated over that
  set; it is interpreted on the operations of \<^verbatim>\<open>state.rs\<close>.
\<close>

section \<open>The abstraction\<close>

definition window_slots :: "bool list \<Rightarrow> slot \<Rightarrow> nat set" where
  "window_slots js fin =
     {s. unat fin < s \<and> s - unat fin - 1 < length js \<and> js ! (s - unat fin - 1)}"

text \<open>Slots up to the finalized one count as justified.\<close>

definition justified_at :: "bool list \<Rightarrow> slot \<Rightarrow> nat \<Rightarrow> bool" where
  "justified_at js fin s \<longleftrightarrow> s \<le> unat fin \<or> s \<in> window_slots js fin"

abbreviation no_wrap :: "slot \<Rightarrow> bool" where
  "no_wrap s \<equiv> unat s + 1 < 2 ^ 64"

section \<open>The contract\<close>

locale justified_window =
  fixes query :: "'w \<Rightarrow> slot \<Rightarrow> slot \<Rightarrow> bool res"
    and mark :: "'w \<Rightarrow> slot \<Rightarrow> slot \<Rightarrow> bool \<Rightarrow> 'w res"
    and shift :: "'w \<Rightarrow> u64 \<Rightarrow> 'w res"
    and extend :: "'w \<Rightarrow> slot \<Rightarrow> slot \<Rightarrow> 'w res"
    and slots :: "'w \<Rightarrow> slot \<Rightarrow> nat set"
    and tracked :: "'w \<Rightarrow> nat"
  assumes query: "no_wrap f \<Longrightarrow> query w f t =
      (if unat t \<le> unat f then Ok True
       else if unat t - unat f \<le> tracked w then Ok (unat t \<in> slots w f)
       else Err SlotOutsideTrackedRange)"
    and mark_Err: "no_wrap f \<Longrightarrow> unat f < unat t \<Longrightarrow> \<not> unat t - unat f \<le> tracked w \<Longrightarrow>
      mark w f t True = Err SlotOutsideTrackedRange"
    and mark_Ok: "no_wrap f \<Longrightarrow> unat f < unat t \<Longrightarrow> unat t - unat f \<le> tracked w \<Longrightarrow>
      \<exists>w'. mark w f t True = Ok w' \<and> slots w' f = insert (unat t) (slots w f) \<and> tracked w' = tracked w"
    and shift_Ok: "unat f \<le> unat f' \<Longrightarrow> unat f' - unat f \<le> tracked w \<Longrightarrow>
      \<exists>w'. shift w (f' - f) = Ok w' \<and> slots w' f' = {s \<in> slots w f. unat f' < s} \<and>
        tracked w' = tracked w - (unat f' - unat f)"
    and extend_Ok: "no_wrap f \<Longrightarrow> no_wrap t \<Longrightarrow> tracked w < 2 ^ 64 \<Longrightarrow>
      \<exists>w'. extend w f t = Ok w' \<and> slots w' f = slots w f \<and>
        tracked w' = max (tracked w) (unat t - unat f)"
begin

definition holds_at :: "'w \<Rightarrow> slot \<Rightarrow> nat \<Rightarrow> bool" where
  "holds_at w f s \<longleftrightarrow> s \<le> unat f \<or> s \<in> slots w f"

lemma query_iff: "no_wrap f \<Longrightarrow> query w f t = Ok b \<Longrightarrow> b \<longleftrightarrow> holds_at w f (unat t)"
  by (auto simp: query holds_at_def split: if_splits)

lemma query_False:
  "no_wrap f \<Longrightarrow> query w f t = Ok False \<Longrightarrow>
    unat f < unat t \<and> unat t - unat f \<le> tracked w \<and> unat t \<notin> slots w f"
  by (auto simp: query split: if_splits)

lemma query_True_after:
  "no_wrap f \<Longrightarrow> query w f t = Ok True \<Longrightarrow> unat f < unat t \<Longrightarrow> unat t - unat f \<le> tracked w"
  by (auto simp: query split: if_splits)

lemma query_no_panic: "no_wrap f \<Longrightarrow> query w f t \<noteq> Panic p \<and> query w f t \<noteq> Diverge"
  by (auto simp: query)

lemma mark_result:
  assumes "no_wrap f" and "unat f < unat t" and "mark w f t True = Ok w'"
  shows "slots w' f = insert (unat t) (slots w f) \<and> tracked w' = tracked w"
proof (cases "unat t - unat f \<le> tracked w")
  case True
  with mark_Ok[OF assms(1,2), of w] assms(3) show ?thesis by auto
next
  case False
  with mark_Err[OF assms(1,2), of w] assms(3) show ?thesis by simp
qed

lemma holds_at_mark:
  assumes "no_wrap f" and "unat f < unat t" and "mark w f t True = Ok w'"
  shows "holds_at w' f s \<longleftrightarrow> s = unat t \<or> holds_at w f s"
  unfolding holds_at_def conjunct1[OF mark_result[OF assms]] by blast

lemma holds_at_shift:
  assumes "unat f \<le> unat f'" and "unat f' - unat f \<le> tracked w" and "shift w (f' - f) = Ok w'"
  shows "holds_at w' f' s \<longleftrightarrow> s \<le> unat f' \<or> holds_at w f s"
proof -
  obtain v where "shift w (f' - f) = Ok v" "slots v f' = {s \<in> slots w f. unat f' < s}"
    using shift_Ok[OF assms(1,2)] by blast
  with assms(3) have S: "slots w' f' = {s \<in> slots w f. unat f' < s}" by simp
  show ?thesis unfolding holds_at_def S mem_Collect_eq using assms(1) by (meson le_trans not_le)
qed

lemma tracked_shift:
  assumes "unat f \<le> unat f'" and "unat f' - unat f \<le> tracked w" and "shift w (f' - f) = Ok w'"
  shows "tracked w' = tracked w - (unat f' - unat f)"
proof -
  obtain v where "shift w (f' - f) = Ok v" "tracked v = tracked w - (unat f' - unat f)"
    using shift_Ok[OF assms(1,2)] by blast
  with assms(3) show ?thesis by simp
qed

lemma shift_no_panic:
  assumes "unat f \<le> unat f'" and "unat f' - unat f \<le> tracked w"
  shows "\<exists>w'. shift w (f' - f) = Ok w'"
  using shift_Ok[OF assms] by blast

end

section \<open>The operations of the source satisfy it\<close>

lemma is_slot_justified_cases:
  assumes "no_wrap f"
  shows "is_slot_justified js f t =
    (if unat t \<le> unat f then Ok True
     else if unat t - unat f \<le> length js then Ok (unat t \<in> window_slots js f)
     else Err SlotOutsideTrackedRange)"
proof (cases "justified_index_after t f")
  case None
  then have "unat t \<le> unat f" using justified_index_after_None[OF assms] by blast
  with None show ?thesis by (simp add: is_slot_justified_def)
next
  case (Some i)
  then have "unat f < unat t" "unat i = unat t - unat f - 1"
    using justified_index_after_Some[OF assms] by blast+
  with Some show ?thesis
    by (auto simp: is_slot_justified_def window_slots_def bits_get_def)
qed

lemma with_justified_cases:
  assumes "no_wrap f" and "unat f < unat t"
  shows "with_justified js f t v =
    (if unat t - unat f \<le> length js then Ok (js[unat t - unat f - 1 := v])
     else Err SlotOutsideTrackedRange)"
proof -
  obtain i where i: "justified_index_after t f = Some i"
    using justified_index_after_None[OF assms(1)] assms(2) by (cases "justified_index_after t f") auto
  then have "unat i = unat t - unat f - 1" using justified_index_after_Some[OF assms(1)] by blast
  with i assms(2) show ?thesis by (auto simp: with_justified_def bits_get_def)
qed

lemma window_slots_mark:
  assumes "unat f < t" and "t - unat f \<le> length js"
  shows "window_slots (js[t - unat f - 1 := True]) f = insert t (window_slots js f)"
proof (rule set_eqI)
  fix s
  show "s \<in> window_slots (js[t - unat f - 1 := True]) f \<longleftrightarrow> s \<in> insert t (window_slots js f)"
  proof (cases "s = t")
    case True
    with assms show ?thesis by (simp add: window_slots_def)
  next
    case False
    then have "t - unat f - 1 \<noteq> s - unat f - 1" if "unat f < s"
      using that assms(1) by linarith
    with False show ?thesis by (auto simp: window_slots_def)
  qed
qed

lemma shift_window_Ok:
  "unat d \<le> length js \<Longrightarrow> shift_window js d = Ok (drop (unat d) js)"
  by (auto simp: shift_window_def bits_slice_def)

lemma window_slots_drop:
  assumes "unat f \<le> unat f'"
  shows "window_slots (drop (unat f' - unat f) js) f' = {s \<in> window_slots js f. unat f' < s}"
proof (rule set_eqI)
  fix s
  have "unat f' - unat f + (s - unat f' - 1) = s - unat f - 1" if "unat f' < s"
    using that assms by linarith
  with assms show "s \<in> window_slots (drop (unat f' - unat f) js) f' \<longleftrightarrow>
      s \<in> {s \<in> window_slots js f. unat f' < s}"
    by (cases "unat f' < s") (auto simp: window_slots_def)
qed

lemma extend_to_slot_Ok:
  assumes "no_wrap f" and "no_wrap t" and "length js < 2 ^ 64"
  shows "extend_to_slot js f t = Ok (js @ replicate (unat t - unat f - length js) False)"
proof (cases "justified_index_after t f")
  case None
  then have "unat t \<le> unat f" using justified_index_after_None[OF assms(1)] by blast
  with None show ?thesis by (simp add: extend_to_slot_def)
next
  case (Some i)
  then have i: "unat f < unat t" "unat i = unat t - unat f - 1"
    using justified_index_after_Some[OF assms(1)] by blast+
  then have i1: "unat (i + 1) = unat t - unat f"
    using unat_u64_less[of t] by (simp add: unat_word_ariths)
  have len: "unat (word_of_nat (length js) :: u64) = length js"
    using assms(3) by (rule unat_word_of_nat)
  show ?thesis
  proof (cases "checked_sub (i + 1) (word_of_nat (length js))")
    case None
    with i1 len have "unat t - unat f < length js" by (simp add: checked_sub_None)
    with None Some show ?thesis by (simp add: extend_to_slot_def Let_def)
  next
    case (Some gap)
    with i1 len have "length js \<le> unat t - unat f" by (simp add: checked_sub_Some)
    with Some i1 \<open>justified_index_after t f = Some i\<close> show ?thesis
      by (simp add: extend_to_slot_def Let_def bits_with_length_def)
  qed
qed

lemma window_slots_append_False:
  "window_slots (js @ replicate n False) f = window_slots js f"
proof -
  have "(js @ replicate n False) ! i \<longleftrightarrow> i < length js \<and> js ! i" if "i < length js + n" for i
    using that by (simp add: nth_append)
  then show ?thesis unfolding window_slots_def length_append length_replicate by fastforce
qed

interpretation jw: justified_window is_slot_justified with_justified shift_window extend_to_slot
  window_slots length
proof
  fix w :: "bool list" and f t f' :: slot
  show "no_wrap f \<Longrightarrow> is_slot_justified w f t =
      (if unat t \<le> unat f then Ok True
       else if unat t - unat f \<le> length w then Ok (unat t \<in> window_slots w f)
       else Err SlotOutsideTrackedRange)"
    by (rule is_slot_justified_cases)
  show "no_wrap f \<Longrightarrow> unat f < unat t \<Longrightarrow> \<not> unat t - unat f \<le> length w \<Longrightarrow>
      with_justified w f t True = Err SlotOutsideTrackedRange"
    by (simp add: with_justified_cases)
  show "no_wrap f \<Longrightarrow> unat f < unat t \<Longrightarrow> unat t - unat f \<le> length w \<Longrightarrow>
      \<exists>w'. with_justified w f t True = Ok w' \<and>
        window_slots w' f = insert (unat t) (window_slots w f) \<and> length w' = length w"
    using window_slots_mark[of f "unat t" w] by (simp add: with_justified_cases)
  show "unat f \<le> unat f' \<Longrightarrow> unat f' - unat f \<le> length w \<Longrightarrow>
      \<exists>w'. shift_window w (f' - f) = Ok w' \<and>
        window_slots w' f' = {s \<in> window_slots w f. unat f' < s} \<and>
        length w' = length w - (unat f' - unat f)"
    by (simp add: shift_window_Ok window_slots_drop unat_sub_le word_le_nat_alt)
  show "no_wrap f \<Longrightarrow> no_wrap t \<Longrightarrow> length w < 2 ^ 64 \<Longrightarrow>
      \<exists>w'. extend_to_slot w f t = Ok w' \<and> window_slots w' f = window_slots w f \<and>
        length w' = max (length w) (unat t - unat f)"
    by (simp add: extend_to_slot_Ok window_slots_append_False)
qed

lemma holds_at_justified_at [simp]: "jw.holds_at = justified_at"
  by (simp add: fun_eq_iff jw.holds_at_def justified_at_def)

section \<open>Properties\<close>

text \<open>
  C19: the bit list of \<^verbatim>\<open>JustifiedSlots\<close> implements a set of justified slots.  Marking a slot after
  the finalized one adds exactly that slot; moving the window to a later finalized slot keeps
  exactly the justified slots after it and answers \<^verbatim>\<open>true\<close> up to it; extending the window changes
  no answer.
\<close>

theorem justified_slots_refine_set:
  assumes "unat f + 1 < 2 ^ 64" and "unat f < unat t" and "unat t - unat f \<le> length js"
    and "unat f \<le> unat f'" and "unat f' - unat f \<le> length js"
    and "unat e + 1 < 2 ^ 64" and "length js < 2 ^ 64"
  shows "\<exists>js1 js2 js3.
    with_justified js f t True = Ok js1 \<and>
      (\<forall>s. justified_at js1 f s \<longleftrightarrow> s = unat t \<or> justified_at js f s) \<and>
    shift_window js (f' - f) = Ok js2 \<and>
      (\<forall>s. justified_at js2 f' s \<longleftrightarrow> s \<le> unat f' \<or> justified_at js f s) \<and>
    extend_to_slot js f e = Ok js3 \<and> (\<forall>s. justified_at js3 f s \<longleftrightarrow> justified_at js f s)"
proof -
  obtain js1 where 1: "with_justified js f t True = Ok js1"
    using jw.mark_Ok[OF assms(1-3)] by blast
  obtain js2 where 2: "shift_window js (f' - f) = Ok js2"
    using jw.shift_no_panic[OF assms(4,5)] by blast
  obtain js3 where 3: "extend_to_slot js f e = Ok js3" "window_slots js3 f = window_slots js f"
    using jw.extend_Ok[OF assms(1,6,7)] by blast
  show ?thesis
    using 1 2 3 jw.holds_at_mark[OF assms(1,2) 1] jw.holds_at_shift[OF assms(4,5) 2]
    by (auto simp: justified_at_def)
qed

theorem justified_slots_refine_set_witness:
  "\<exists>js1 js2 js3.
    with_justified [False, True] 3 4 True = Ok js1 \<and>
      (\<forall>s. justified_at js1 3 s \<longleftrightarrow> s = 4 \<or> justified_at [False, True] 3 s) \<and>
    shift_window [False, True] (4 - 3) = Ok js2 \<and>
      (\<forall>s. justified_at js2 4 s \<longleftrightarrow> s \<le> 4 \<or> justified_at [False, True] 3 s) \<and>
    extend_to_slot [False, True] 3 9 = Ok js3 \<and>
      (\<forall>s. justified_at js3 3 s \<longleftrightarrow> justified_at [False, True] 3 s)"
  using justified_slots_refine_set[of 3 4 "[False, True]" 4 9] by simp

end
