(* ===== verification/Justification.thy ===== *)
theory Justification
  imports Justified_Window
begin

text \<open>
  What the loop of \<^verbatim>\<open>State::process_attestations\<close> keeps: \<open>loop_ok\<close> is its invariant, and every step
  of the loop preserves it.  From it follow that finalization never moves backwards, that a step
  never fails with a missing justification root, and when a step can panic.
\<close>

section \<open>The loop invariant\<close>

definition on_chain :: "h256 list \<Rightarrow> checkpoint \<Rightarrow> bool" where
  "on_chain hist c \<longleftrightarrow> unat (cp_slot c) < length hist \<and> hist ! unat (cp_slot c) = cp_root c"

definition votes_ok :: "nat \<Rightarrow> h256 list \<Rightarrow> slot \<Rightarrow> (h256, bool list) hmap \<Rightarrow> bool" where
  "votes_ok n hist f m \<longleftrightarrow> hm_ok m \<and>
     (\<forall>r v. hm_get m r = Some v \<longrightarrow> r \<noteq> 0 \<and> length v = n \<and> r \<in> set (drop (Suc (unat f)) hist))"

text \<open>
  The finality rule of the loop.  Either nothing was finalized since the state \<open>st\<close>, or some later
  slot \<open>t\<close> is justified, was justifiable after the finalized slot of \<open>st\<close>, and no slot strictly
  between the finalized slot and \<open>t\<close> is.
\<close>

definition finality_rule :: "slot \<Rightarrow> bool list \<Rightarrow> slot \<Rightarrow> bool" where
  "finality_rule f0 js f \<longleftrightarrow> f = f0 \<or>
     (\<exists>t. f < t \<and> justified_at js f (unat t) \<and> is_justifiable_after t f0 = Ok True \<and>
        (\<forall>c. f < c \<and> c < t \<longrightarrow> is_justifiable_after c f0 \<noteq> Ok True))"

definition loop_ok :: "state \<Rightarrow> att_loop \<Rightarrow> bool" where
  "loop_ok st l \<longleftrightarrow>
     (let hist = historical_block_hashes st; f = al_finalized_slot l in
      votes_ok (length (validators st)) hist f (al_justifications l) \<and>
      cp_slot (al_latest_finalized l) = f \<and>
      on_chain hist (al_latest_finalized l) \<and> on_chain hist (al_latest_justified l) \<and>
      cp_slot (st_latest_finalized st) \<le> f \<and> f \<le> cp_slot (al_latest_justified l) \<and>
      length (al_justified_slots l) = length hist - 1 - unat f \<and>
      justified_at (al_justified_slots l) f (unat (cp_slot (al_latest_justified l))) \<and>
      finality_rule (cp_slot (st_latest_finalized st)) (al_justified_slots l) f)"

section \<open>Filters\<close>

lemma on_chain_iff:
  "on_chain hist c \<longleftrightarrow> unat (cp_slot c) < length hist \<and> cp_root c = hist ! unat (cp_slot c)"
  by (auto simp: on_chain_def)

text \<open>What the chain of filters of the loop establishes.\<close>

lemma attestation_counts_True:
  assumes "no_wrap (al_finalized_slot l)" and "attestation_counts st l a = Ok True"
  defines "source \<equiv> ad_source (aa_data a)" and "target \<equiv> ad_target (aa_data a)"
    and "hist \<equiv> historical_block_hashes st" and "f \<equiv> al_finalized_slot l"
  shows "justified_at (al_justified_slots l) f (unat (cp_slot source))"
    and "f < cp_slot target" and "unat (cp_slot target) - unat f \<le> length (al_justified_slots l)"
    and "\<not> justified_at (al_justified_slots l) f (unat (cp_slot target))"
    and "cp_slot source < cp_slot target" and "cp_root target \<noteq> 0"
    and "on_chain hist source" and "on_chain hist target"
    and "is_justifiable_after (cp_slot target) (cp_slot (st_latest_finalized st)) = Ok True"
proof -
  note q = jw.query_iff[OF assms(1)]
  from assms(2) have src: "is_slot_justified (al_justified_slots l) f (cp_slot source) = Ok True"
    and tgt: "is_slot_justified (al_justified_slots l) f (cp_slot target) = Ok False"
    and rest: "cp_root target \<noteq> 0" "cp_slot source < cp_slot target"
      "on_chain hist source" "on_chain hist target"
      "is_justifiable_after (cp_slot target) (cp_slot (st_latest_finalized st)) = Ok True"
    by (auto simp: attestation_counts_def Let_def source_def target_def hist_def f_def on_chain_iff
        split: if_splits)
  show "justified_at (al_justified_slots l) f (unat (cp_slot source))"
    using q[OF src[unfolded f_def]] by (simp add: f_def)
  show "\<not> justified_at (al_justified_slots l) f (unat (cp_slot target))"
    using q[OF tgt[unfolded f_def]] by (simp add: f_def)
  show "f < cp_slot target" "unat (cp_slot target) - unat f \<le> length (al_justified_slots l)"
    using jw.query_False[OF assms(1)] tgt by (auto simp: f_def word_less_nat_alt)
  show "cp_slot source < cp_slot target" "cp_root target \<noteq> 0" "on_chain hist source"
    "on_chain hist target"
    "is_justifiable_after (cp_slot target) (cp_slot (st_latest_finalized st)) = Ok True"
    using rest by simp_all
qed

lemma any_justifiable_Ok:
  assumes "any_justifiable f ss = Ok b"
  shows "b \<longleftrightarrow> (\<exists>s \<in> set ss. is_justifiable_after (word_of_nat s) f = Ok True)"
  using assms by (induction ss) (auto split: if_splits)

lemma any_justifiable_first:
  "any_justifiable f (s # ss) = Ok b \<Longrightarrow> unat f \<le> unat (word_of_nat s :: u64)"
  using is_justifiable_after_Ok_le by (fastforce simp: word_le_nat_alt)

lemma any_justifiable_total:
  assumes "\<And>s. s \<in> set ss \<Longrightarrow> f \<le> word_of_nat s"
  shows "\<exists>b. any_justifiable f ss = Ok b"
  using assms
proof (induction ss)
  case (Cons s ss)
  then obtain b where "is_justifiable_after (word_of_nat s) f = Ok b"
    using is_justifiable_after_total by (meson list.set_intros(1))
  with Cons show ?case by (cases b) auto
qed auto

section \<open>Votes\<close>

text \<open>\<open>record_votes\<close> sets the bits of the listed validators for one root and touches no other root.\<close>

definition votes_of :: "nat \<Rightarrow> h256 \<Rightarrow> (h256, bool list) hmap \<Rightarrow> bool list" where
  "votes_of n root m = (case hm_get m root of Some v \<Rightarrow> v | None \<Rightarrow> replicate n False)"

definition add_votes :: "u64 list \<Rightarrow> bool list \<Rightarrow> bool list" where
  "add_votes ids v = fold (\<lambda>i v. v[unat i := True]) ids v"

lemma length_add_votes [simp]: "length (add_votes ids v) = length v"
  unfolding add_votes_def by (induction ids arbitrary: v) auto

lemma nth_add_votes:
  "i < length v \<Longrightarrow> add_votes ids v ! i \<longleftrightarrow> v ! i \<or> i \<in> unat ` set ids"
  unfolding add_votes_def
proof (induction ids arbitrary: v)
  case (Cons a ids)
  from Cons.IH[of "v[unat a := True]"] Cons.prems show ?case by (cases "i = unat a") auto
qed simp

abbreviation vote_step ::
  "h256 \<Rightarrow> u64 \<Rightarrow> (h256, bool list) hmap \<Rightarrow> (h256, bool list) hmap res" where
  "vote_step root \<equiv> (\<lambda>validator_id m.
          and_then (ok_or (hm_get m root) UnknownTargetRoot) (\<lambda>votes.
          if unat validator_id < length votes
          then Ok (hm_insert root (votes[unat validator_id := True]) m)
          else Err ValidatorIndexOutOfRange))"

lemma vote_loop:
  assumes "hm_get m root = Some v" and "hm_ok m"
  shows "if \<forall>i \<in> set ids. unat i < length v
    then \<exists>m'. for_each (vote_step root) ids m = Ok m' \<and> hm_ok m' \<and>
      hm_get m' = (hm_get m)(root \<mapsto> add_votes ids v)
    else for_each (vote_step root) ids m = Err ValidatorIndexOutOfRange"
  using assms
proof (induction ids arbitrary: m v)
  case Nil
  then show ?case by (auto simp: add_votes_def)
next
  case (Cons i ids)
  let ?v = "v[unat i := True]" and ?m = "hm_insert root (v[unat i := True]) m"
  have "hm_get ?m root = Some ?v" "hm_ok ?m" using Cons.prems by simp_all
  note IH = Cons.IH[OF this]
  have "(hm_get ?m)(root \<mapsto> w) = (hm_get m)(root \<mapsto> w)" for w by (auto simp: fun_eq_iff)
  with IH Cons.prems show ?case by (auto simp: add_votes_def fun_eq_iff)
qed

lemma record_votes_cases:
  assumes "hm_ok m"
  shows "set_bit_indices bits = [] \<Longrightarrow> record_votes n root bits m = Panic NoValidatorReferenced"
    and "set_bit_indices bits \<noteq> [] \<Longrightarrow>
      (if \<forall>i \<in> set (set_bit_indices bits). unat i < length (votes_of n root m)
       then \<exists>m'. record_votes n root bits m = Ok m' \<and> hm_ok m' \<and>
         hm_get m' = (hm_get m)(root \<mapsto> add_votes (set_bit_indices bits) (votes_of n root m))
       else record_votes n root bits m = Err ValidatorIndexOutOfRange)"
proof -
  show "set_bit_indices bits = [] \<Longrightarrow> record_votes n root bits m = Panic NoValidatorReferenced"
    by (simp add: record_votes_def to_validator_indices_def)
  assume ne: "set_bit_indices bits \<noteq> []"
  let ?m = "if hm_contains_key m root then m else hm_insert root (bits_with_length n) m"
  have r: "record_votes n root bits m = for_each (vote_step root) (set_bit_indices bits) ?m"
    using ne by (simp add: record_votes_def to_validator_indices_def Let_def)
  have 1: "hm_get ?m root = Some (votes_of n root m)"
    by (auto simp: hm_contains_key_def votes_of_def bits_with_length_def)
  have 2: "hm_ok ?m" using assms by simp
  have 3: "(hm_get ?m)(root \<mapsto> w) = (hm_get m)(root \<mapsto> w)" for w by (auto simp: fun_eq_iff)
  show "if \<forall>i \<in> set (set_bit_indices bits). unat i < length (votes_of n root m)
       then \<exists>m'. record_votes n root bits m = Ok m' \<and> hm_ok m' \<and>
         hm_get m' = (hm_get m)(root \<mapsto> add_votes (set_bit_indices bits) (votes_of n root m))
       else record_votes n root bits m = Err ValidatorIndexOutOfRange"
    using vote_loop[OF 1 2] unfolding r 3 .
qed

lemma record_votes_Ok:
  assumes "hm_ok m" and "record_votes n root bits m = Ok m'"
  shows "hm_ok m'" and "hm_get m' = (hm_get m)(root \<mapsto> add_votes (set_bit_indices bits) (votes_of n root m))"
    and "\<forall>i \<in> set (set_bit_indices bits). unat i < length (votes_of n root m)"
proof -
  have ne: "set_bit_indices bits \<noteq> []"
    using record_votes_cases(1)[OF assms(1), of bits n root] assms(2) by auto
  show "hm_ok m'" "hm_get m' = (hm_get m)(root \<mapsto> add_votes (set_bit_indices bits) (votes_of n root m))"
    "\<forall>i \<in> set (set_bit_indices bits). unat i < length (votes_of n root m)"
    using record_votes_cases(2)[OF assms(1) ne, of n root] assms(2) by (auto split: if_splits)
qed

lemma votes_ok_record:
  assumes "votes_ok n hist f m" and "record_votes n root bits m = Ok m'"
    and "root \<noteq> 0" and "root \<in> set (drop (Suc (unat f)) hist)"
  shows "votes_ok n hist f m'"
proof -
  have "hm_ok m" using assms(1) by (simp add: votes_ok_def)
  note r = record_votes_Ok[OF this assms(2)]
  have "length (votes_of n root m) = n"
    using assms(1) by (auto simp: votes_ok_def votes_of_def split: option.splits)
  with r assms show ?thesis by (auto simp: votes_ok_def)
qed

section \<open>The index of roots\<close>

definition roots_indexed :: "h256 list \<Rightarrow> slot \<Rightarrow> (h256, slot) hmap \<Rightarrow> bool" where
  "roots_indexed hist f m \<longleftrightarrow>
     (\<forall>r \<in> set (drop (Suc (unat f)) hist). hm_contains_key m r) \<and>
     (\<forall>r s. hm_get m r = Some s \<longrightarrow> unat f < unat s \<and> unat s < length hist \<and> hist ! unat s = r)"

abbreviation index_root :: "h256 \<Rightarrow> nat \<Rightarrow> (h256, slot) hmap \<Rightarrow> (h256, slot) hmap" where
  "index_root root i m \<equiv> (case hm_get m root of
     Some s \<Rightarrow> if word_of_nat i > s then hm_insert root (word_of_nat i) m else m
   | None \<Rightarrow> hm_insert root (word_of_nat i) m)"

lemma roots_indexed_step:
  assumes idx: "roots_indexed (take k hist) f m" and "unat f < k" and "k < length hist"
    and k: "unat (word_of_nat k :: u64) = k"
  shows "roots_indexed (take (Suc k) hist) f (index_root (hist ! k) k m)"
  unfolding roots_indexed_def
proof (intro conjI ballI allI impI)
  let ?m = "index_root (hist ! k) k m"
  have tk: "take (Suc k) hist = take k hist @ [hist ! k]" using assms(3) by (simp add: take_Suc_conv_app_nth)
  have c: "hm_contains_key ?m r \<longleftrightarrow> r = hist ! k \<or> hm_contains_key m r" for r
    by (auto simp: hm_contains_key_def split: option.splits)
  have g: "hm_get ?m r = Some s \<Longrightarrow> hm_get m r = Some s \<or> r = hist ! k \<and> s = word_of_nat k" for r s
    by (auto split: option.splits if_splits)
  show "hm_contains_key ?m r" if "r \<in> set (drop (Suc (unat f)) (take (Suc k) hist))" for r
    using that idx by (auto simp: c tk roots_indexed_def drop_Cons' split: if_splits)
  fix r s assume "hm_get ?m r = Some s"
  from g[OF this] have "unat f < unat s \<and> unat s < length (take (Suc k) hist) \<and> take (Suc k) hist ! unat s = r"
  proof
    assume "hm_get m r = Some s"
    with idx have "unat f < unat s \<and> unat s < length (take k hist) \<and> take k hist ! unat s = r"
      unfolding roots_indexed_def by blast
    with assms(3) show ?thesis by auto
  qed (use k assms(2,3) in simp)
  then show "unat f < unat s" "unat s < length (take (Suc k) hist)" "take (Suc k) hist ! unat s = r" by blast+
qed

lemma build_root_to_slot_prefix:
  assumes "length hist \<le> historical_roots_limit" and "unat f < k" and "k \<le> length hist"
  shows "\<exists>m. for_each (\<lambda>i m. and_then (plist_get hist (word_of_nat i)) (\<lambda>root. Ok (index_root root i m)))
       [Suc (unat f)..<k] [] = Ok m \<and> roots_indexed (take k hist) f m"
  using assms(2,3)
proof (induction k)
  case (Suc k)
  have k: "unat (word_of_nat k :: u64) = k" "k < length hist"
    using Suc.prems assms(1) by (simp_all add: unat_word_of_nat historical_roots_limit_def)
  show ?case
  proof (cases "unat f < k")
    case False
    with Suc.prems have "k = unat f" by simp
    then show ?thesis by (simp add: roots_indexed_def hm_empty_def[symmetric])
  next
    case True
    with Suc obtain m where "for_each (\<lambda>i m. and_then (plist_get hist (word_of_nat i)) (\<lambda>root. Ok (index_root root i m)))
       [Suc (unat f)..<k] [] = Ok m" and idx: "roots_indexed (take k hist) f m"
      by auto
    with True k roots_indexed_step[OF idx True k(2,1)] show ?thesis by (simp add: for_each_append)
  qed
qed simp

lemma build_root_to_slot_Ok:
  assumes "length hist \<le> historical_roots_limit" and "unat f < length hist"
  shows "\<exists>m. build_root_to_slot hist f = Ok m \<and> roots_indexed hist f m"
proof -
  have "unat (f + 1) = Suc (unat f)"
    using assms by (simp add: historical_roots_limit_def unat_word_ariths)
  with build_root_to_slot_prefix[OF assms order_refl] show ?thesis
    by (simp add: build_root_to_slot_def)
qed

section \<open>One step of the loop\<close>

text \<open>
  Finalization goes forward: a source before the finalized slot would need that no justifiable
  slot lies between it and a target that is itself not yet justified.
\<close>

lemma finalize_forward:
  assumes rule: "finality_rule f0 js f" and "f < t" and new: "\<not> justified_at js f (unat t)"
    and t: "is_justifiable_after t f0 = Ok True" and st: "s < t"
    and none: "any_justifiable f0 [unat (s + 1)..<unat t] = Ok False"
  shows "f \<le> s"
proof (rule ccontr)
  assume "\<not> f \<le> s"
  then have "s < f" by simp
  have s1: "unat (s + 1) = unat s + 1" using st by (rule unat_add_one)
  have between: "is_justifiable_after c f0 \<noteq> Ok True" if "s < c" and "c < t" for c
  proof
    assume "is_justifiable_after c f0 = Ok True"
    moreover have "unat c \<in> set [unat (s + 1)..<unat t]" using that s1 by (simp add: word_nat)
    ultimately show False using any_justifiable_Ok[OF none] by (metis word_of_nat_unat)
  qed
  from rule show False unfolding finality_rule_def
  proof (elim disjE exE conjE)
    assume "f = f0"
    with \<open>s < f\<close> \<open>f < t\<close> between[of f] show False by simp
  next
    fix t' assume t': "f < t'" "justified_at js f (unat t')" "is_justifiable_after t' f0 = Ok True"
      "\<forall>c. f < c \<and> c < t' \<longrightarrow> is_justifiable_after c f0 \<noteq> Ok True"
    show False
    proof (cases t t' rule: linorder_cases)
      case less with t' \<open>f < t\<close> t show ?thesis by blast
    next
      case equal with new t' show ?thesis by simp
    next
      case greater with between[of t'] t' \<open>s < f\<close> show ?thesis by (meson less_trans)
    qed
  qed
qed

lemma finality_rule_mono:
  assumes "finality_rule f0 js f" and "\<And>s. justified_at js f s \<Longrightarrow> justified_at js' f s"
  shows "finality_rule f0 js' f"
  using assms unfolding finality_rule_def by blast

lemma finality_rule_new:
  assumes "any_justifiable f0 [unat (s + 1)..<unat t] = Ok False" and "s < t"
    and "is_justifiable_after t f0 = Ok True" and "justified_at js s (unat t)"
  shows "finality_rule f0 js s"
proof -
  have s1: "unat (s + 1) = unat s + 1" using assms(2) by (rule unat_add_one)
  have "is_justifiable_after c f0 \<noteq> Ok True" if "s < c" and "c < t" for c
  proof
    assume "is_justifiable_after c f0 = Ok True"
    moreover have "unat c \<in> set [unat (s + 1)..<unat t]" using that s1 by (simp add: word_nat)
    ultimately show False using any_justifiable_Ok[OF assms(1)] by (metis word_of_nat_unat)
  qed
  with assms show ?thesis unfolding finality_rule_def by blast
qed

lemma votes_ok_remove: "votes_ok n hist f m \<Longrightarrow> votes_ok n hist f (hm_remove r m)"
  by (auto simp: votes_ok_def)

lemma votes_ok_retain:
  assumes "votes_ok n hist f m" and "roots_indexed hist f0 rts"
  shows "votes_ok n hist s (hm_retain (\<lambda>root _. case hm_get rts root of
           Some i \<Rightarrow> i > s | None \<Rightarrow> False) m)"
proof -
  have "r \<in> set (drop (Suc (unat s)) hist)" if "hm_get rts r = Some i" and "i > s" for r i
  proof -
    have "unat i < length hist" "hist ! unat i = r" "unat s < unat i"
      using that assms(2) by (auto simp: roots_indexed_def word_less_nat_alt)
    then show ?thesis
      by (auto simp: in_set_conv_nth intro!: exI[of _ "unat i - Suc (unat s)"])
  qed
  with assms(1) show ?thesis
    by (auto simp: votes_ok_def hm_get_retain split: option.splits if_splits)
qed


text \<open>Every root that votes are stored for is in the index of roots.\<close>

lemma votes_indexed:
  assumes "votes_ok n hist f m" and "roots_indexed hist f0 rts" and "f0 \<le> f"
  shows "list_all (hm_contains_key rts) (hm_keys m)"
proof -
  have "set (drop (Suc (unat f)) hist) \<subseteq> set (drop (Suc (unat f0)) hist)"
    using assms(3) by (simp add: word_nat set_drop_subset_set_drop)
  moreover have "r \<in> set (drop (Suc (unat f)) hist)" if "hm_contains_key m r" for r
    using that assms(1) by (auto simp: votes_ok_def hm_contains_key_def)
  ultimately have "hm_contains_key rts r" if "hm_contains_key m r" for r
    using that assms(2) unfolding roots_indexed_def by blast
  then show ?thesis by (simp add: list_all_iff hm_contains_key_keys)
qed

text \<open>The part of a step after the target is marked: the finalization attempt.\<close>

lemma try_finalize_ok:
  assumes lim: "length (historical_block_hashes st) \<le> historical_roots_limit"
    and rts: "roots_indexed (historical_block_hashes st) (cp_slot (st_latest_finalized st)) rts"
    and ok: "loop_ok st l" and just: "al_latest_justified l = target"
    and ft: "al_finalized_slot l < cp_slot target" and st: "cp_slot source < cp_slot target"
    and src: "on_chain (historical_block_hashes st) source"
      "justified_at (al_justified_slots l) (al_finalized_slot l) (unat (cp_slot source))"
    and jt: "is_justifiable_after (cp_slot target) (cp_slot (st_latest_finalized st)) = Ok True"
    and forward: "any_justifiable (cp_slot (st_latest_finalized st))
        [unat (cp_slot source + 1)..<unat (cp_slot target)] = Ok False \<Longrightarrow>
      al_finalized_slot l \<le> cp_slot source"
    and any: "any_justifiable (cp_slot (st_latest_finalized st))
        [unat (cp_slot source + 1)..<unat (cp_slot target)] = Ok b"
  shows "\<exists>l'. try_finalize st rts source target l = Ok l' \<and> loop_ok st l' \<and>
    al_finalized_slot l \<le> al_finalized_slot l'"
proof (cases b)
  case True
  with any ok show ?thesis by (simp add: try_finalize_def)
next
  case False
  let ?hist = "historical_block_hashes st" and ?start = "cp_slot (st_latest_finalized st)"
  let ?f = "al_finalized_slot l" and ?s = "cp_slot source" and ?t = "cp_slot target"
  let ?js = "al_justified_slots l"
  have none: "any_justifiable ?start [unat (?s + 1)..<unat ?t] = Ok False" using any False by simp
  then have fs: "?f \<le> ?s" by (rule forward)
  from ok have f0: "?start \<le> ?f" and len: "length ?js = length ?hist - 1 - unat ?f"
    and votes: "votes_ok (length (validators st)) ?hist ?f (al_justifications l)"
    and tgt: "on_chain ?hist target" "justified_at ?js ?f (unat ?t)"
    using just by (auto simp: loop_ok_def Let_def)
  have shift: "unat ?f \<le> unat ?s" "unat ?s - unat ?f \<le> length ?js"
    using fs st tgt(1) len by (auto simp: on_chain_def word_nat)
  then obtain js where js: "shift_window ?js (?s - ?f) = Ok js"
    using jw.shift_no_panic by blast
  note jat = jw.holds_at_shift[OF shift js, simplified]
  have ljs: "length js = length ?hist - 1 - unat ?s"
    using jw.tracked_shift[OF shift js] len shift by simp
  note keys = votes_indexed[OF votes rts f0]
  have rule: "finality_rule ?start js' ?s" if "justified_at js' ?s (unat ?t)" for js'
    using finality_rule_new[OF none st jt that] .
  show ?thesis
  proof (cases "?s = ?f")
    case True
    then have "try_finalize st rts source target l =
        Ok (l\<lparr>al_latest_finalized := source, al_finalized_slot := ?s\<rparr>)"
      using none by (simp add: try_finalize_def Let_def checked_sub_def)
    with True ok just src tgt rule[of ?js] st show ?thesis
      by (simp add: loop_ok_def Let_def)
  next
    case False
    with fs have "?f < ?s" by simp
    then have "?s - ?f > 0" using False by (simp add: word_greater_zero_iff)
    then have eq: "try_finalize st rts source target l =
        Ok (l\<lparr>al_latest_finalized := source, al_finalized_slot := ?s, al_justified_slots := js,
              al_justifications := hm_retain (\<lambda>root _. case hm_get rts root of
                                          Some i \<Rightarrow> i > ?s | None \<Rightarrow> False) (al_justifications l)\<rparr>)"
      using none fs js keys by (simp add: try_finalize_def Let_def checked_sub_def)
    have "justified_at js ?s (unat ?t)" using jat tgt(2) by blast
    with ok just src tgt votes_ok_retain[OF votes rts, of ?s] rule[of js] ljs fs
      order_trans[OF f0 fs] less_imp_le[OF st] show ?thesis
      unfolding eq by (simp add: loop_ok_def Let_def)
  qed
qed


text \<open>The part before it: votes are recorded, and with two thirds of them the target is marked.\<close>

lemma loop_ok_votes:
  assumes "loop_ok st l" and "record_votes (length (validators st)) (cp_root target) bits
      (al_justifications l) = Ok m"
    and "al_finalized_slot l < cp_slot target" and "on_chain (historical_block_hashes st) target"
    and "cp_root target \<noteq> 0"
  shows "loop_ok st (l\<lparr>al_justifications := m\<rparr>)"
proof -
  let ?hist = "historical_block_hashes st" and ?f = "al_finalized_slot l"
  have "cp_root target \<in> set (drop (Suc (unat ?f)) ?hist)"
    using assms(3,4)
    by (auto simp: on_chain_iff word_nat in_set_conv_nth
        intro!: exI[of _ "unat (cp_slot target) - Suc (unat ?f)"])
  then have "votes_ok (length (validators st)) ?hist ?f m"
    using assms by (intro votes_ok_record[OF _ assms(2)]) (auto simp: loop_ok_def Let_def)
  with assms(1) show ?thesis by (simp add: loop_ok_def Let_def)
qed

lemma loop_ok_mark:
  assumes "loop_ok st l" and "no_wrap (al_finalized_slot l)"
    and "with_justified (al_justified_slots l) (al_finalized_slot l) (cp_slot target) True = Ok js"
    and "al_finalized_slot l < cp_slot target" and "on_chain (historical_block_hashes st) target"
  shows "loop_ok st (l\<lparr>al_latest_justified := target, al_justified_slots := js,
      al_justifications := hm_remove r (al_justifications l)\<rparr>)"
proof -
  let ?f = "al_finalized_slot l"
  have lt: "unat ?f < unat (cp_slot target)" using assms(4) by (simp add: word_nat)
  note jat = jw.holds_at_mark[OF assms(2) lt assms(3), simplified]
  have len: "length js = length (al_justified_slots l)"
    using jw.mark_result[OF assms(2) lt assms(3)] by simp
  have "finality_rule (cp_slot (st_latest_finalized st)) js ?f"
    by (rule finality_rule_mono[of _ "al_justified_slots l"])
       (use assms(1) jat in \<open>simp_all add: loop_ok_def Let_def\<close>)
  moreover have "votes_ok (length (validators st)) (historical_block_hashes st) ?f
      (hm_remove r (al_justifications l))"
    using assms(1) by (intro votes_ok_remove) (simp add: loop_ok_def Let_def)
  ultimately show ?thesis
    using assms jat len lt by (simp add: loop_ok_def Let_def)
qed

lemma loop_ok_no_wrap:
  assumes "loop_ok st l" and "length (historical_block_hashes st) \<le> historical_roots_limit"
  shows "no_wrap (al_finalized_slot l)"
  using assms by (auto simp: loop_ok_def Let_def on_chain_def historical_roots_limit_def)

lemma attestation_counts_outcome:
  assumes "no_wrap (al_finalized_slot l)" and "cp_slot (st_latest_finalized st) \<le> al_finalized_slot l"
  shows "errors_in {SlotOutsideTrackedRange, IndexOutOfBounds} (attestation_counts st l a)"
proof -
  let ?t = "cp_slot (ad_target (aa_data a))" and ?E = "{SlotOutsideTrackedRange, IndexOutOfBounds}"
  have query: "errors_in ?E (is_slot_justified (al_justified_slots l) (al_finalized_slot l) s)" for s
    by (simp add: is_slot_justified_cases[OF assms(1)])
  have get: "errors_in ?E (plist_get xs i)" for xs :: "h256 list" and i
    by (simp add: plist_get_def)
  have last: "errors_in ?E (is_justifiable_after ?t (cp_slot (st_latest_finalized st)))"
    if "is_slot_justified (al_justified_slots l) (al_finalized_slot l) ?t = Ok False"
  proof -
    have "cp_slot (st_latest_finalized st) \<le> ?t"
      using jw.query_False[OF assms(1) that] assms(2) by (simp add: word_nat)
    then show ?thesis using is_justifiable_after_total by fastforce
  qed
  show ?thesis
    unfolding attestation_counts_def Let_def
    by (intro errors_in_and_then query) (auto intro!: errors_in_and_then query get last)
qed

lemma any_justifiable_old:
  assumes "s < t" and "f < t" and "unat s + 1 < unat f"
  shows "any_justifiable f [unat (s + 1)..<unat t] = Panic CandidateBeforeFinalized"
proof -
  have s1: "unat (s + 1) = unat s + 1" using assms(1) by (rule unat_add_one)
  then have "s + 1 < f" using assms(3) by (simp add: word_nat)
  moreover have "[unat (s + 1)..<unat t] = unat (s + 1) # [Suc (unat (s + 1))..<unat t]"
    using assms s1 by (simp add: word_nat upt_conv_Cons)
  ultimately show ?thesis by simp
qed

lemma any_justifiable_outcome:
  assumes "s < t" and "f < t"
  shows "(\<exists>b. any_justifiable f [unat (s + 1)..<unat t] = Ok b) \<or>
    unat s + 1 < unat f \<and> any_justifiable f [unat (s + 1)..<unat t] = Panic CandidateBeforeFinalized"
proof (cases "unat s + 1 < unat f")
  case True
  with any_justifiable_old[OF assms] show ?thesis by blast
next
  case False
  have "f \<le> word_of_nat c" if "c \<in> set [unat (s + 1)..<unat t]" for c
    using that False unat_add_one[OF assms(1)] unat_u64_less[of t] by (simp add: word_nat unat_word_of_nat)
  then show ?thesis using any_justifiable_total by blast
qed

text \<open>The outcomes of recording the votes, and of a step whose votes reach two thirds.\<close>

lemma record_votes_outcome:
  assumes ok: "loop_ok st l"
  obtains (Ok) m votes where "record_votes (length (validators st)) root bits (al_justifications l) = Ok m"
      and "hm_get m root = Some votes"
    | (Range) "record_votes (length (validators st)) root bits (al_justifications l) = Err ValidatorIndexOutOfRange"
      and "\<not> (\<forall>i \<in> set (set_bit_indices bits). unat i < length (validators st))"
    | (Empty) "record_votes (length (validators st)) root bits (al_justifications l) = Panic NoValidatorReferenced"
      and "set_bit_indices bits = []"
proof (cases "set_bit_indices bits = []")
  case True
  have "hm_ok (al_justifications l)" using ok by (simp add: loop_ok_def votes_ok_def Let_def)
  from Empty[OF record_votes_cases(1)[OF this True] True] show ?thesis .
next
  case False
  let ?n = "length (validators st)"
  have hm: "hm_ok (al_justifications l)" and len: "length (votes_of ?n root (al_justifications l)) = ?n"
    using ok by (auto simp: loop_ok_def votes_ok_def votes_of_def Let_def split: option.splits)
  from record_votes_cases(2)[OF hm False, of ?n root] len Ok Range show ?thesis
    by (auto split: if_splits)
qed

lemma justify_outcome:
  assumes lim: "length (historical_block_hashes st) \<le> historical_roots_limit"
    and rts: "roots_indexed (historical_block_hashes st) (cp_slot (st_latest_finalized st)) rts"
    and ok: "loop_ok st l" and counts: "attestation_counts st l a = Ok True"
    and m: "record_votes (length (validators st)) (cp_root (ad_target (aa_data a))) (aa_bits a) (al_justifications l) = Ok m"
    and v: "hm_get m (cp_root (ad_target (aa_data a))) = Some votes"
    and super: "supermajority (length (validators st)) votes"
  obtains (Ok) l' where "process_attestation st rts a l = Ok l'" and "loop_ok st l'"
      and "al_finalized_slot l \<le> al_finalized_slot l'"
    | (Old_source) "process_attestation st rts a l = Panic CandidateBeforeFinalized"
      and "unat (cp_slot (ad_source (aa_data a))) + 1 < unat (cp_slot (st_latest_finalized st))"
proof -
  let ?s = "ad_source (aa_data a)" and ?t = "ad_target (aa_data a)"
  let ?start = "cp_slot (st_latest_finalized st)" and ?f = "al_finalized_slot l"
  let ?any = "any_justifiable ?start [unat (cp_slot ?s + 1)..<unat (cp_slot ?t)]"
  note nw = loop_ok_no_wrap[OF ok lim]
  note c = attestation_counts_True[OF nw counts]
  obtain js where js: "with_justified (al_justified_slots l) ?f (cp_slot ?t) True = Ok js"
    using jw.mark_Ok[OF nw _ c(3)] c(2) by (auto simp: word_nat)
  let ?l2 = "l\<lparr>al_justifications := m, al_latest_justified := ?t, al_justified_slots := js,
      al_justifications := hm_remove (cp_root ?t) m\<rparr>"
  have ok2: "loop_ok st ?l2"
    using loop_ok_mark[OF loop_ok_votes[OF ok m c(2,8,6)] _ _ _ c(8), of js "cp_root ?t"] nw js c(2) by simp
  have eq: "process_attestation st rts a l = try_finalize st rts ?s ?t ?l2"
    using counts m v super js by (simp add: process_attestation_def Let_def)
  have jat: "justified_at js ?f (unat (cp_slot ?s))"
    using jw.holds_at_mark[OF nw _ js] c(1,2) by (simp add: word_nat)
  have fwd: "?f \<le> cp_slot ?s" if "?any = Ok False"
    by (rule finalize_forward[OF _ c(2,4,9,5) that]) (use ok in \<open>simp add: loop_ok_def Let_def\<close>)
  have "?start < cp_slot ?t" using ok c(2) by (auto simp: loop_ok_def Let_def)
  from any_justifiable_outcome[OF c(5) this] show ?thesis
  proof (elim disjE exE conjE)
    fix b assume b: "?any = Ok b"
    have "\<exists>l'. try_finalize st rts ?s ?t ?l2 = Ok l' \<and> loop_ok st l' \<and> al_finalized_slot ?l2 \<le> al_finalized_slot l'"
      by (rule try_finalize_ok[OF lim rts ok2 _ _ c(5,7) _ c(9) _ b]) (use c(2) jat fwd in simp_all)
    then show ?thesis unfolding eq[symmetric] by (auto intro: Ok)
  qed (rule Old_source, simp_all add: eq try_finalize_def)
qed

text \<open>
  A step either keeps the invariant, fails on a check of the source, or hits one of the
  \<^verbatim>\<open>assert!\<close>s: an attestation without participants, or a source more than one slot before the
  finalized slot of the state.
\<close>

lemma process_attestation_cases:
  assumes lim: "length (historical_block_hashes st) \<le> historical_roots_limit"
    and rts: "roots_indexed (historical_block_hashes st) (cp_slot (st_latest_finalized st)) rts"
    and ok: "loop_ok st l"
  obtains (Ok) l' where "process_attestation st rts a l = Ok l'" and "loop_ok st l'"
      and "al_finalized_slot l \<le> al_finalized_slot l'"
    | (Err) e where "process_attestation st rts a l = Err e"
      and "e \<in> {SlotOutsideTrackedRange, IndexOutOfBounds, ValidatorIndexOutOfRange}"
      and "attestation_counts st l a = Err e \<or>
        \<not> (\<forall>i \<in> set (set_bit_indices (aa_bits a)). unat i < length (validators st))"
    | (Empty) "process_attestation st rts a l = Panic NoValidatorReferenced"
      and "set_bit_indices (aa_bits a) = []"
    | (Old_source) "process_attestation st rts a l = Panic CandidateBeforeFinalized"
      and "unat (cp_slot (ad_source (aa_data a))) + 1 < unat (cp_slot (st_latest_finalized st))"
proof (cases "attestation_counts st l a = Ok True")
  case False
  have "cp_slot (st_latest_finalized st) \<le> al_finalized_slot l" using ok by (simp add: loop_ok_def Let_def)
  from attestation_counts_outcome[OF loop_ok_no_wrap[OF ok lim] this, of a] show ?thesis
  proof (cases rule: errors_in_E)
    case (1 b)
    with False show ?thesis by (intro Ok[of l]) (simp_all add: process_attestation_def Let_def ok)
  next
    case (2 e)
    then show ?thesis by (intro Err[of e]) (auto simp: process_attestation_def Let_def)
  qed
next
  case counts: True
  note c = attestation_counts_True[OF loop_ok_no_wrap[OF ok lim] counts]
  show ?thesis
  proof (cases rule: record_votes_outcome[OF ok, of "cp_root (ad_target (aa_data a))" "aa_bits a"])
    case votes: (1 m votes)
    show ?thesis
    proof (cases "supermajority (length (validators st)) votes")
      case True
      then show ?thesis by (rule justify_outcome[OF lim rts ok counts votes]) (fact Ok Old_source)+
    next
      case False
      with counts votes loop_ok_votes[OF ok votes(1) c(2,8,6)] show ?thesis
        by (intro Ok[of "l\<lparr>al_justifications := m\<rparr>"]) (simp_all add: process_attestation_def Let_def)
    qed
  next
    case 2
    with counts show ?thesis
      by (intro Err[of ValidatorIndexOutOfRange]) (simp_all add: process_attestation_def Let_def)
  next
    case 3
    with counts show ?thesis by (intro Empty) (simp_all add: process_attestation_def Let_def)
  qed
qed

lemma process_attestation_keeps:
  assumes "length (historical_block_hashes st) \<le> historical_roots_limit"
    and "roots_indexed (historical_block_hashes st) (cp_slot (st_latest_finalized st)) rts"
    and "loop_ok st l" and "process_attestation st rts a l = Ok l'"
  shows "loop_ok st l'" and "al_finalized_slot l \<le> al_finalized_slot l'"
  by (cases rule: process_attestation_cases[OF assms(1-3), of a]; use assms(4) in simp)+

end
