(* ===== verification/State_Invariants.thy ===== *)
theory State_Invariants
  imports Justification
begin

text \<open>
  The invariant of the beacon state and the theorems on \<^verbatim>\<open>state.rs\<close> as a whole: genesis satisfies
  \<open>wf_state\<close>, every accepted block keeps it, finalization never moves backwards, the flattened
  vote lists and the vote map are inverse to each other, and justification needs two thirds of
  the validators.
\<close>

section \<open>The invariant\<close>

text \<open>
  The parts of a state that block processing keeps consistent: the history has one entry per
  slot before the latest block, the window of justified slots reaches from the finalized slot to
  the slot before the latest block, both checkpoints lie on the history, and the votes are stored
  for distinct sorted roots of blocks after the finalized slot, one bit per validator.
\<close>

definition wf_chain :: "state \<Rightarrow> bool" where
  "wf_chain st \<longleftrightarrow>
     (let hist = historical_block_hashes st; f = st_latest_finalized st; j = st_latest_justified st in
      length hist = unat (bh_slot (latest_block_header st)) \<and> length hist \<le> historical_roots_limit \<and>
      bh_slot (latest_block_header st) \<le> st_slot st \<and>
      (if hist = [] then cp_slot f = 0 \<and> cp_slot j = 0 else on_chain hist f \<and> on_chain hist j) \<and>
      cp_slot f \<le> cp_slot j \<and>
      length (justified_slots st) = length hist - 1 - unat (cp_slot f) \<and>
      justified_at (justified_slots st) (cp_slot f) (unat (cp_slot j)))"

definition wf_votes :: "state \<Rightarrow> bool" where
  "wf_votes st \<longleftrightarrow>
     (let n = length (validators st); roots = justifications_roots st in
      0 < n \<and> n \<le> validator_registry_limit \<and>
      sorted roots \<and> distinct roots \<and>
      (\<forall>r \<in> set roots. r \<noteq> 0 \<and>
        r \<in> set (drop (Suc (unat (cp_slot (st_latest_finalized st)))) (historical_block_hashes st))) \<and>
      length (justifications_validators st) = length roots * n)"

definition wf_state :: "state \<Rightarrow> bool" where
  "wf_state st \<longleftrightarrow> wf_chain st \<and> wf_votes st"

section \<open>The stored votes\<close>

text \<open>The vote map that the two flat lists of the state stand for.\<close>

definition stored_votes :: "state \<Rightarrow> (h256, bool list) hmap" where
  "stored_votes st =
     (let n = length (validators st) in
      map (\<lambda>(i, root). (root, take n (drop (i * n) (justifications_validators st))))
        (List.enumerate 0 (justifications_roots st)))"

lemma keys_stored_votes [simp]: "map fst (stored_votes st) = justifications_roots st"
  by (simp add: stored_votes_def Let_def case_prod_unfold comp_def)

lemma update_new: "k \<notin> fst ` set m \<Longrightarrow> AList.update k v m = m @ [(k, v)]"
  by (induction m) auto

lemma hm_extend_distinct:
  "distinct (map fst (m @ es)) \<Longrightarrow> hm_extend m es = m @ es"
proof (induction es arbitrary: m)
  case (Cons e es)
  then show ?case
    by (cases e) (simp add: hm_extend_def hm_insert_def update_new)
qed (simp add: hm_extend_def)

lemma slice_in_range:
  assumes "i < k"
  shows "(i + 1) * n \<le> k * (n :: nat)"
  using assms by (metis Suc_eq_plus1 Suc_leI mult_le_mono1)

lemma initial_justifications_Ok:
  assumes "distinct (justifications_roots st)"
    and "length (justifications_validators st) = length (justifications_roots st) * length (validators st)"
  shows "initial_justifications st = Ok (stored_votes st)"
proof -
  let ?n = "length (validators st)" and ?jv = "justifications_validators st"
  have "map_collect (\<lambda>(i, root). map_res (\<lambda>votes. (root, votes)) (bits_slice ?jv (i * ?n) ((i + 1) * ?n)))
      (List.enumerate 0 (justifications_roots st)) =
    Ok (map (\<lambda>(i, root). (root, take ?n (drop (i * ?n) ?jv))) (List.enumerate 0 (justifications_roots st)))"
  proof (rule map_collect_all_Ok)
    fix x assume x: "x \<in> set (List.enumerate 0 (justifications_roots st))"
    obtain i r where ir: "x = (i, r)" by fastforce
    with x have "i < length (justifications_roots st)" by (auto simp: in_set_enumerate_eq)
    then have "(i + 1) * ?n \<le> length ?jv" using slice_in_range assms(2) by metis
    then show "(case x of (i, root) \<Rightarrow>
        map_res (\<lambda>votes. (root, votes)) (bits_slice ?jv (i * ?n) ((i + 1) * ?n))) =
      Ok (case x of (i, root) \<Rightarrow> (root, take ?n (drop (i * ?n) ?jv)))"
      by (simp add: ir bits_slice_def map_res_def)
  qed
  moreover have "hm_extend [] (stored_votes st) = stored_votes st"
    using assms(1) hm_extend_distinct[of "[]" "stored_votes st"] by simp
  ultimately show ?thesis
    by (simp add: initial_justifications_def Let_def map_res_def stored_votes_def)
qed

lemma hm_get_stored_votes:
  assumes "hm_get (stored_votes st) r = Some v"
    and "length (justifications_validators st) = length (justifications_roots st) * length (validators st)"
  shows "r \<in> set (justifications_roots st)" and "length v = length (validators st)"
proof -
  let ?n = "length (validators st)"
  from hm_get_in[OF assms(1)] obtain i where "(i, r) \<in> set (List.enumerate 0 (justifications_roots st))"
    and v: "v = take ?n (drop (i * ?n) (justifications_validators st))"
    by (auto simp: stored_votes_def Let_def)
  then have i: "i < length (justifications_roots st)" and r: "r = justifications_roots st ! i"
    by (auto simp: in_set_enumerate_eq)
  then show "r \<in> set (justifications_roots st)" by simp
  have "(i + 1) * ?n \<le> length (justifications_validators st)"
    using slice_in_range[OF i] assms(2) by metis
  then show "length v = ?n" by (simp add: v)
qed

lemma flatten_justifications_Ok:
  assumes "length m \<le> historical_roots_limit" and "hm_ok m"
  shows "flatten_justifications m =
    Ok (sort (hm_keys m), concat (map (\<lambda>r. the (hm_get m r)) (sort (hm_keys m))))"
proof -
  have "hm_index m r = Ok (the (hm_get m r))" if "r \<in> set (sort (hm_keys m))" for r
  proof -
    have "hm_contains_key m r" using that by (simp add: hm_contains_key_keys)
    then show ?thesis by (auto simp: hm_contains_key_def)
  qed
  then have "map_collect (hm_index m) (sort (hm_keys m)) =
      Ok (map (\<lambda>r. the (hm_get m r)) (sort (hm_keys m)))"
    by (rule map_collect_all_Ok)
  with assms(1) show ?thesis
    by (simp add: flatten_justifications_def Let_def plist_try_from_iter_def hm_keys_def map_res_def)
qed

lemma concat_chunks:
  assumes "length xs = k * n"
  shows "concat (map (\<lambda>i. take n (drop (i * n) xs)) [0..<k]) = xs"
  using assms
proof (induction k arbitrary: xs)
  case (Suc k)
  have "concat (map (\<lambda>i. take n (drop (i * n) (take (k * n) xs))) [0..<k]) = take (k * n) xs"
    using Suc by (intro Suc.IH) simp
  moreover have "take n (drop (i * n) (take (k * n) xs)) = take n (drop (i * n) xs)" if "i < k" for i
  proof -
    have "(i + 1) * n \<le> k * n" using that by (rule slice_in_range)
    then show ?thesis by (simp add: drop_take min_absorb1 le_diff_conv2)
  qed
  ultimately have "concat (map (\<lambda>i. take n (drop (i * n) xs)) [0..<k]) = take (k * n) xs"
    by (smt (verit) atLeastLessThan_iff map_eq_conv set_upt)
  moreover have "take n (drop (k * n) xs) = drop (k * n) xs" using Suc.prems by simp
  ultimately show ?case by simp
qed simp

lemma flatten_stored_votes:
  assumes "sorted (justifications_roots st)" and "distinct (justifications_roots st)"
    and "length (justifications_validators st) = length (justifications_roots st) * length (validators st)"
    and "length (justifications_roots st) \<le> historical_roots_limit"
  shows "flatten_justifications (stored_votes st) = Ok (justifications_roots st, justifications_validators st)"
proof -
  let ?rs = "justifications_roots st" and ?n = "length (validators st)" and ?jv = "justifications_validators st"
  have ok: "hm_ok (stored_votes st)" using assms(2) by (simp add: hm_ok_def)
  have len: "length (stored_votes st) = length ?rs" by (metis keys_stored_votes length_map)
  have get: "hm_get (stored_votes st) (?rs ! i) = Some (take ?n (drop (i * ?n) ?jv))" if "i < length ?rs" for i
  proof -
    have "(i, ?rs ! i) \<in> set (List.enumerate 0 ?rs)" using that by (simp add: in_set_enumerate_eq)
    then have "(?rs ! i, take ?n (drop (i * ?n) ?jv)) \<in> set (stored_votes st)"
      by (force simp: stored_votes_def Let_def)
    with hm_in_get[OF ok] show ?thesis by blast
  qed
  have "map (\<lambda>r. the (hm_get (stored_votes st) r)) ?rs =
      map (\<lambda>i. take ?n (drop (i * ?n) ?jv)) [0..<length ?rs]"
    by (rule nth_equalityI) (simp_all add: get)
  then have "concat (map (\<lambda>r. the (hm_get (stored_votes st) r)) ?rs) = ?jv"
    using concat_chunks[OF assms(3)] by simp
  moreover have "sort (hm_keys (stored_votes st)) = ?rs"
    using assms(1) by (simp add: hm_keys_def sorted_sort_id)
  ultimately show ?thesis
    using flatten_justifications_Ok[OF _ ok] assms(4) len by simp
qed


section \<open>process_attestations\<close>

text \<open>The loop variables before the first attestation.\<close>

definition loop_start :: "state \<Rightarrow> att_loop" where
  "loop_start st =
     \<lparr>al_justifications = stored_votes st, al_latest_justified = st_latest_justified st,
      al_latest_finalized = st_latest_finalized st,
      al_finalized_slot = cp_slot (st_latest_finalized st), al_justified_slots = justified_slots st\<rparr>"

definition loop_end :: "state \<Rightarrow> att_loop \<Rightarrow> state" where
  "loop_end st l =
     (let roots = sort (hm_keys (al_justifications l)) in
      st\<lparr>justifications_roots := roots,
         justifications_validators := concat (map (\<lambda>r. the (hm_get (al_justifications l) r)) roots),
         justified_slots := al_justified_slots l,
         st_latest_justified := al_latest_justified l,
         st_latest_finalized := al_latest_finalized l\<rparr>)"

lemma loop_start_ok:
  assumes "wf_state st" and "historical_block_hashes st \<noteq> []"
  shows "loop_ok st (loop_start st)"
proof -
  have "hm_ok (stored_votes st)" using assms(1) by (simp add: wf_state_def wf_votes_def hm_ok_def Let_def)
  moreover have "r \<noteq> 0 \<and> length v = length (validators st) \<and>
      r \<in> set (drop (Suc (unat (cp_slot (st_latest_finalized st)))) (historical_block_hashes st))"
    if "hm_get (stored_votes st) r = Some v" for r v
  proof -
    have len: "length (justifications_validators st) = length (justifications_roots st) * length (validators st)"
      using assms(1) by (simp add: wf_state_def wf_votes_def Let_def)
    from hm_get_stored_votes[OF that len] assms(1) show ?thesis
      by (auto simp: wf_state_def wf_votes_def Let_def)
  qed
  ultimately have "votes_ok (length (validators st)) (historical_block_hashes st)
      (cp_slot (st_latest_finalized st)) (stored_votes st)"
    by (simp add: votes_ok_def)
  with assms show ?thesis
    by (simp add: loop_ok_def loop_start_def wf_state_def wf_chain_def finality_rule_def Let_def)
qed

lemma keys_limit:
  assumes "votes_ok n hist f m" and "length hist \<le> historical_roots_limit"
  shows "length m \<le> historical_roots_limit"
proof -
  have "set (hm_keys m) \<subseteq> set hist"
  proof
    fix r assume "r \<in> set (hm_keys m)"
    then obtain v where "hm_get m r = Some v"
      using hm_contains_key_keys[of m r] by (auto simp: hm_contains_key_def)
    with assms(1) have "r \<in> set (drop (Suc (unat f)) hist)" unfolding votes_ok_def by blast
    then show "r \<in> set hist" by (rule in_set_dropD)
  qed
  moreover have "distinct (hm_keys m)" using assms(1) by (simp add: votes_ok_def hm_ok_def hm_keys_def)
  ultimately have "length (hm_keys m) \<le> length hist"
    by (metis card_length card_mono distinct_card finite_set order_trans)
  with assms(2) show ?thesis by (simp add: hm_keys_def)
qed

lemma process_attestations_loops:
  assumes "wf_state st" and "historical_block_hashes st \<noteq> []"
  obtains rts where
    "roots_indexed (historical_block_hashes st) (cp_slot (st_latest_finalized st)) rts"
    and "\<And>atts. process_attestations st atts =
      and_then (for_each (process_attestation st rts) atts (loop_start st))
        (\<lambda>l. map_res (\<lambda>(roots, bits).
          st\<lparr>justifications_roots := roots, justifications_validators := bits,
             justified_slots := al_justified_slots l,
             st_latest_justified := al_latest_justified l,
             st_latest_finalized := al_latest_finalized l\<rparr>)
          (flatten_justifications (al_justifications l)))"
proof -
  let ?hist = "historical_block_hashes st" and ?f = "cp_slot (st_latest_finalized st)"
  have "length ?hist \<le> historical_roots_limit" "unat ?f < length ?hist"
    using assms by (auto simp: wf_state_def wf_chain_def on_chain_def Let_def)
  then obtain rts where rts: "build_root_to_slot ?hist ?f = Ok rts" "roots_indexed ?hist ?f rts"
    using build_root_to_slot_Ok by blast
  have "initial_justifications st = Ok (stored_votes st)"
    using assms(1) by (intro initial_justifications_Ok) (simp_all add: wf_state_def wf_votes_def Let_def)
  moreover have "list_all (\<lambda>root. root \<noteq> 0) (justifications_roots st)"
    using assms(1) by (simp add: wf_state_def wf_votes_def list_all_iff Let_def)
  ultimately show ?thesis
    by (intro that[OF rts(2)]) (simp add: process_attestations_def rts(1) loop_start_def)
qed

lemma process_attestations_loop:
  assumes "wf_state st" and "historical_block_hashes st \<noteq> []"
  obtains rts where
    "roots_indexed (historical_block_hashes st) (cp_slot (st_latest_finalized st)) rts"
    and "process_attestations st atts =
      and_then (for_each (process_attestation st rts) atts (loop_start st))
        (\<lambda>l. map_res (\<lambda>(roots, bits).
          st\<lparr>justifications_roots := roots, justifications_validators := bits,
             justified_slots := al_justified_slots l,
             st_latest_justified := al_latest_justified l,
             st_latest_finalized := al_latest_finalized l\<rparr>)
          (flatten_justifications (al_justifications l)))"
  using process_attestations_loops[OF assms] by blast

text \<open>
  A run of the loop that does not fail ends in a state that satisfies its invariant, and writing the
  votes back cannot fail then.
\<close>

lemma process_attestations_runs:
  assumes wf: "wf_state st" and ne: "historical_block_hashes st \<noteq> []"
  obtains rts where "roots_indexed (historical_block_hashes st) (cp_slot (st_latest_finalized st)) rts"
    and "\<And>l. for_each (process_attestation st rts) atts (loop_start st) = Ok l \<Longrightarrow>
      loop_ok st l \<and> process_attestations st atts = Ok (loop_end st l)"
    and "\<And>st'. process_attestations st atts = Ok st' \<Longrightarrow>
      \<exists>l. for_each (process_attestation st rts) atts (loop_start st) = Ok l"
proof -
  have lim: "length (historical_block_hashes st) \<le> historical_roots_limit"
    using wf by (simp add: wf_state_def wf_chain_def Let_def)
  obtain rts where rts: "roots_indexed (historical_block_hashes st) (cp_slot (st_latest_finalized st)) rts"
    and eq: "process_attestations st atts =
      and_then (for_each (process_attestation st rts) atts (loop_start st))
        (\<lambda>l. map_res (\<lambda>(roots, bits).
          st\<lparr>justifications_roots := roots, justifications_validators := bits,
             justified_slots := al_justified_slots l,
             st_latest_justified := al_latest_justified l,
             st_latest_finalized := al_latest_finalized l\<rparr>)
          (flatten_justifications (al_justifications l)))"
    using process_attestations_loop[OF wf ne] by blast
  show ?thesis
  proof (rule that[OF rts])
    fix l assume l: "for_each (process_attestation st rts) atts (loop_start st) = Ok l"
    have ok: "loop_ok st l"
      by (rule for_each_invariant[OF l, where P = "loop_ok st"])
         (auto intro: loop_start_ok[OF wf ne] process_attestation_keeps(1)[OF lim rts])
    then have v: "votes_ok (length (validators st)) (historical_block_hashes st) (al_finalized_slot l)
        (al_justifications l)" by (simp add: loop_ok_def Let_def)
    with ok flatten_justifications_Ok[OF keys_limit[OF v lim]]
    show "loop_ok st l \<and> process_attestations st atts = Ok (loop_end st l)"
      by (auto simp: eq l loop_end_def votes_ok_def Let_def map_res_def)
  qed (auto simp: eq)
qed

text \<open>An invariant of the loop besides \<open>loop_ok\<close> holds in the state it ends in.\<close>

lemma process_attestations_invariant:
  assumes wf: "wf_state st" and ne: "historical_block_hashes st \<noteq> []"
    and "process_attestations st atts = Ok st'" and start: "P (loop_start st)"
    and step: "\<And>rts a l l'. roots_indexed (historical_block_hashes st) (cp_slot (st_latest_finalized st)) rts \<Longrightarrow>
      a \<in> set atts \<Longrightarrow> loop_ok st l \<Longrightarrow> P l \<Longrightarrow> process_attestation st rts a l = Ok l' \<Longrightarrow> P l'"
  obtains l where "loop_ok st l" and "P l" and "st' = loop_end st l"
proof -
  have lim: "length (historical_block_hashes st) \<le> historical_roots_limit"
    using wf by (simp add: wf_state_def wf_chain_def Let_def)
  obtain rts l where rts: "roots_indexed (historical_block_hashes st) (cp_slot (st_latest_finalized st)) rts"
    and l: "for_each (process_attestation st rts) atts (loop_start st) = Ok l" and "st' = loop_end st l"
    using process_attestations_runs[OF wf ne, of atts] assms(3) by (metis res.inject(1))
  moreover have "loop_ok st l \<and> P l"
  proof (rule for_each_invariant[OF l, where P = "\<lambda>l. loop_ok st l \<and> P l"])
    fix a l l' assume a: "a \<in> set atts" and l: "loop_ok st l \<and> P l" and s: "process_attestation st rts a l = Ok l'"
    have "loop_ok st l'" by (rule process_attestation_keeps(1)[OF lim rts conjunct1[OF l] s])
    with step[OF rts a _ _ s] l show "loop_ok st l' \<and> P l'" by simp
  qed (use loop_start_ok[OF wf ne] start in simp)
  ultimately show ?thesis using that by blast
qed

lemma process_attestations_Ok:
  assumes "wf_state st" and "historical_block_hashes st \<noteq> []" and "process_attestations st atts = Ok st'"
  obtains l where "loop_ok st l" and "st' = loop_end st l"
  by (rule process_attestations_invariant[OF assms, where P = "\<lambda>_. True"]) (simp_all add: that)

lemma sum_list_const: "(\<And>x. x \<in> set xs \<Longrightarrow> f x = c) \<Longrightarrow> sum_list (map f xs) = length xs * (c :: nat)"
  by (induction xs) auto

lemma loop_end_wf:
  assumes "wf_state st" and "loop_ok st l" and "historical_block_hashes st \<noteq> []"
  shows "wf_state (loop_end st l)"
proof -
  let ?m = "al_justifications l" and ?n = "length (validators st)"
  let ?roots = "sort (hm_keys ?m)"
  have v: "votes_ok ?n (historical_block_hashes st) (al_finalized_slot l) ?m"
    and f: "cp_slot (al_latest_finalized l) = al_finalized_slot l"
    using assms(2) by (simp_all add: loop_ok_def Let_def)
  have get: "\<exists>v. hm_get ?m r = Some v" if "r \<in> set ?roots" for r
    using that hm_contains_key_keys[of ?m r] by (auto simp: hm_contains_key_def)
  have roots: "r \<noteq> 0 \<and> length (the (hm_get ?m r)) = ?n \<and>
      r \<in> set (drop (Suc (unat (al_finalized_slot l))) (historical_block_hashes st))" if "r \<in> set ?roots" for r
    using get[OF that] v by (auto simp: votes_ok_def)
  have "length (concat (map (\<lambda>r. the (hm_get ?m r)) ?roots)) = length ?roots * ?n"
    unfolding length_concat map_map by (rule sum_list_const) (use roots in simp)
  moreover have "distinct (hm_keys ?m)" using v by (simp add: votes_ok_def hm_ok_def hm_keys_def)
  ultimately have "wf_votes (loop_end st l)"
    using assms(1) roots f by (simp add: wf_votes_def loop_end_def wf_state_def Let_def)
  moreover have "wf_chain (loop_end st l)"
    using assms by (auto simp: wf_chain_def loop_end_def wf_state_def loop_ok_def Let_def)
  ultimately show ?thesis by (simp add: wf_state_def)
qed


section \<open>Slots and headers\<close>

text \<open>Everything but the slot and the state root of the latest header.\<close>

definition same_chain :: "state \<Rightarrow> state \<Rightarrow> bool" where
  "same_chain st st' \<longleftrightarrow>
     (\<exists>s r. st' = st\<lparr>st_slot := s,
        latest_block_header := (latest_block_header st)\<lparr>bh_state_root := r\<rparr>\<rparr>)"

lemma same_chain_refl: "same_chain st st"
  unfolding same_chain_def
  by (rule exI[of _ "st_slot st"], rule exI[of _ "bh_state_root (latest_block_header st)"]) simp

lemma same_chain_trans: "same_chain a b \<Longrightarrow> same_chain b c \<Longrightarrow> same_chain a c"
  unfolding same_chain_def by (auto, blast)

lemma process_slot_same_chain: "same_chain st (process_slot H st)"
  unfolding same_chain_def
  by (rule exI[of _ "st_slot st + 1"],
      rule exI[of _ "if bh_state_root (latest_block_header st) = 0 then root_state H st
                     else bh_state_root (latest_block_header st)"])
     (simp add: process_slot_def Let_def)

lemma process_slots_loop_result:
  assumes "st_slot st \<le> target"
  shows "same_chain st (process_slots_loop H target st) \<and> st_slot (process_slots_loop H target st) = target"
  using assms
proof (induction H target st rule: process_slots_loop.induct)
  case (1 H target st)
  show ?case
  proof (cases "st_slot st < target")
    case True
    then have "st_slot (process_slot H st) \<le> target"
      using unat_add_one[OF True] by (simp add: word_nat)
    with 1 True show ?thesis
      using same_chain_trans[OF process_slot_same_chain]
      by (subst (1 2) process_slots_loop.simps) auto
  next
    case False
    with 1 show ?thesis by (subst (1 2) process_slots_loop.simps) (auto simp: same_chain_refl)
  qed
qed

lemma wf_state_same_chain:
  assumes "wf_state st" and "same_chain st st'" and "st_slot st \<le> st_slot st'"
  shows "wf_state st'"
proof -
  obtain r s where st': "st' = st\<lparr>st_slot := s, latest_block_header :=
       (latest_block_header st)\<lparr>bh_state_root := r\<rparr>\<rparr>"
    using assms(2) unfolding same_chain_def by blast
  with assms show ?thesis
    by (auto simp: wf_state_def wf_chain_def wf_votes_def Let_def)
qed

text \<open>What an accepted header leaves behind.\<close>

lemma push_zeros:
  assumes "for_each (\<lambda>_ hs. plist_push limit hs 0) xs h = Ok h'" and "length h \<le> limit"
  shows "h' = h @ replicate (length xs) 0 \<and> length h' \<le> limit"
  using assms
proof (induction xs arbitrary: h)
  case (Cons x xs)
  then have "h' = (h @ [0]) @ replicate (length xs) 0 \<and> length h' \<le> limit"
    by (intro Cons.IH) auto
  then show ?case by auto
qed simp

lemma unat_gap:
  assumes "p < (b :: u64)"
  shows "unat (b - p - 1) = unat b - unat p - 1"
proof -
  have sub: "unat (b - p) = unat b - unat p" using assms by (intro unat_sub_le) simp
  moreover have "1 \<le> b - p" using assms sub by (simp add: word_nat)
  ultimately show ?thesis by (simp add: unat_sub_le)
qed

lemma process_block_header_Ok:
  assumes "process_block_header H st b = Ok st'" and "wf_state st"
  defines "p \<equiv> latest_block_header st" and "root \<equiv> root_header H (latest_block_header st)"
  shows "b_slot b = st_slot st" and "bh_slot p < b_slot b" and "b_parent_root b = root"
    and "st_slot st mod word_of_nat (length (validators st)) = b_proposer_index b"
    and "st' = st\<lparr>
      historical_block_hashes := historical_block_hashes st @ root #
        replicate (unat (b_slot b) - unat (bh_slot p) - 1) 0,
      justified_slots := justified_slots st @
        replicate (unat (b_slot b) - 1 - unat (cp_slot (st_latest_finalized st)) - length (justified_slots st)) False,
      st_latest_justified := if bh_slot p = 0 then \<lparr>cp_root = root, cp_slot = 0\<rparr> else st_latest_justified st,
      st_latest_finalized := if bh_slot p = 0 then \<lparr>cp_root = root, cp_slot = 0\<rparr> else st_latest_finalized st,
      latest_block_header := (header_of H b)\<lparr>bh_state_root := 0\<rparr>\<rparr>"
    and "unat (b_slot b) \<le> historical_roots_limit"
proof -
  let ?hist = "historical_block_hashes st" and ?f = "cp_slot (st_latest_finalized st)"
  from assms(1) obtain h js where s: "b_slot b = st_slot st" "bh_slot p < b_slot b"
      "b_parent_root b = root" "st_slot st mod word_of_nat (length (validators st)) = b_proposer_index b"
    and h0: "length ?hist < historical_roots_limit"
    and h: "for_each (\<lambda>_ hs. plist_push historical_roots_limit hs 0)
              [0..<unat (b_slot b - bh_slot p - 1)] (?hist @ [root]) = Ok h"
    and js: "extend_to_slot (justified_slots st) ?f (b_slot b - 1) = Ok js"
    and st': "st' = st\<lparr>historical_block_hashes := h, justified_slots := js,
      st_latest_justified := if bh_slot p = 0 then \<lparr>cp_root = root, cp_slot = 0\<rparr> else st_latest_justified st,
      st_latest_finalized := if bh_slot p = 0 then \<lparr>cp_root = root, cp_slot = 0\<rparr> else st_latest_finalized st,
      latest_block_header := (header_of H b)\<lparr>bh_state_root := 0\<rparr>\<rparr>"
    by (auto simp: process_block_header_def Let_def p_def root_def is_proposer_for_def header_of_def
        split: if_splits)
  show "b_slot b = st_slot st" "bh_slot p < b_slot b" "b_parent_root b = root"
    "st_slot st mod word_of_nat (length (validators st)) = b_proposer_index b"
    by (fact s)+
  have lt: "unat (bh_slot p) < unat (b_slot b)" using s(2) by (simp add: word_nat)
  have b1: "unat (b_slot b - 1) = unat (b_slot b) - 1"
    using unat_sub_le[of 1 "b_slot b"] lt by (simp add: word_nat)
  note gap = unat_gap[OF s(2)]
  have hist: "length ?hist = unat (bh_slot p)" using assms(2) by (simp add: wf_state_def wf_chain_def p_def Let_def)
  have hh: "h = ?hist @ root # replicate (unat (b_slot b) - unat (bh_slot p) - 1) 0"
    "length h \<le> historical_roots_limit"
    using push_zeros[OF h] h0 by (auto simp: gap)
  then show lim: "unat (b_slot b) \<le> historical_roots_limit" using hist lt by simp
  have "extend_to_slot (justified_slots st) ?f (b_slot b - 1) =
      Ok (justified_slots st @ replicate (unat (b_slot b - 1) - unat ?f - length (justified_slots st)) False)"
    using assms(2) lim b1
    by (intro extend_to_slot_Ok)
      (auto simp: wf_state_def wf_chain_def historical_roots_limit_def on_chain_def Let_def split: if_splits)
  with js b1 show "st' = st\<lparr>
      historical_block_hashes := historical_block_hashes st @ root #
        replicate (unat (b_slot b) - unat (bh_slot p) - 1) 0,
      justified_slots := justified_slots st @
        replicate (unat (b_slot b) - 1 - unat ?f - length (justified_slots st)) False,
      st_latest_justified := if bh_slot p = 0 then \<lparr>cp_root = root, cp_slot = 0\<rparr> else st_latest_justified st,
      st_latest_finalized := if bh_slot p = 0 then \<lparr>cp_root = root, cp_slot = 0\<rparr> else st_latest_finalized st,
      latest_block_header := (header_of H b)\<lparr>bh_state_root := 0\<rparr>\<rparr>"
    unfolding st' hh(1) by simp
qed


lemma justified_at_append_False [simp]: "justified_at (js @ replicate k False) f = justified_at js f"
  by (simp add: fun_eq_iff justified_at_def window_slots_append_False)

lemma on_chain_append: "on_chain xs c \<Longrightarrow> on_chain (xs @ ys) c"
  by (simp add: on_chain_def nth_append)

lemma process_block_header_wf:
  assumes "wf_state st" and "process_block_header H st b = Ok st'"
  shows "wf_state st'" and "historical_block_hashes st' \<noteq> []" and "st_slot st' = st_slot st"
    and "cp_slot (st_latest_finalized st') = cp_slot (st_latest_finalized st)"
    and "cp_slot (st_latest_justified st') = cp_slot (st_latest_justified st)"
proof -
  let ?p = "bh_slot (latest_block_header st)" and ?hist = "historical_block_hashes st"
  let ?f = "st_latest_finalized st" and ?j = "st_latest_justified st"
  note h = process_block_header_Ok[OF assms(2,1)]
  have lt: "unat ?p < unat (b_slot b)" using h(2) by (simp add: word_nat)
  have len: "length ?hist = unat ?p" and gen: "?hist = [] \<Longrightarrow> cp_slot ?f = 0 \<and> cp_slot ?j = 0"
    and js: "length (justified_slots st) = length ?hist - 1 - unat (cp_slot ?f)"
    using assms(1) by (auto simp: wf_state_def wf_chain_def Let_def)
  have p0: "?p = 0 \<longleftrightarrow> ?hist = []" using len by (auto simp: unat_eq_zero)
  show f: "cp_slot (st_latest_finalized st') = cp_slot ?f" and "cp_slot (st_latest_justified st') = cp_slot ?j"
    using gen p0 by (auto simp: h(5))
  show ne: "historical_block_hashes st' \<noteq> []" "st_slot st' = st_slot st" by (simp_all add: h(5))
  have "wf_votes st'"
    using assms(1) f by (auto simp: wf_state_def wf_votes_def Let_def h(5))
  moreover have "wf_chain st'"
  proof -
    have "length (historical_block_hashes st') = unat (b_slot b)" using lt len by (simp add: h(5))
    moreover have "on_chain (historical_block_hashes st') (st_latest_finalized st') \<and>
        on_chain (historical_block_hashes st') (st_latest_justified st')"
    proof (cases "?p = 0")
      case True
      then show ?thesis using p0 by (simp add: h(5) on_chain_def)
    next
      case False
      then have "on_chain ?hist ?f" "on_chain ?hist ?j"
        using assms(1) p0 by (auto simp: wf_state_def wf_chain_def Let_def)
      with False show ?thesis by (simp add: h(5) on_chain_append)
    qed
    moreover have "justified_at (justified_slots st') (cp_slot ?f) (unat (cp_slot ?j))"
      "cp_slot ?f \<le> cp_slot ?j"
      using assms(1) by (auto simp: wf_state_def wf_chain_def Let_def h(5))
    moreover have "length (justified_slots st') = unat (b_slot b) - 1 - unat (cp_slot ?f)"
      using js len lt by (simp add: h(5))
    moreover have "bh_slot (latest_block_header st') = b_slot b" by (simp add: h(5) header_of_def)
    ultimately show ?thesis
      using h(1,6) ne f \<open>cp_slot (st_latest_justified st') = cp_slot ?j\<close>
      by (simp add: wf_chain_def Let_def)
  qed
  ultimately show "wf_state st'" by (simp add: wf_state_def)
qed

section \<open>The transition\<close>

text \<open>How one accepted block moves a well-formed state.\<close>

definition advances :: "state \<Rightarrow> state \<Rightarrow> bool" where
  "advances st st' \<longleftrightarrow> wf_state st' \<and> st_slot st \<le> st_slot st' \<and>
     cp_slot (st_latest_finalized st) \<le> cp_slot (st_latest_finalized st')"

lemma process_attestations_advances:
  assumes "wf_state st" and "historical_block_hashes st \<noteq> []" and "process_attestations st atts = Ok st'"
  shows "advances st st' \<and> st_slot st' = st_slot st"
proof -
  obtain l where "loop_ok st l" "st' = loop_end st l" by (rule process_attestations_Ok[OF assms])
  moreover have "wf_state (loop_end st l)" using assms(1) \<open>loop_ok st l\<close> assms(2) by (rule loop_end_wf)
  ultimately show ?thesis by (simp add: advances_def loop_end_def loop_ok_def Let_def)
qed

lemma process_block_advances:
  assumes "wf_state st" and "process_block H st b = Ok st'"
  shows "advances st st' \<and> st_slot st' = b_slot b"
proof -
  from assms(2) obtain st1 where 1: "process_block_header H st b = Ok st1"
    and 2: "process_attestations st1 (attestations (b_body b)) = Ok st'"
    by (auto simp: process_block_def split: if_splits)
  note h = process_block_header_wf[OF assms(1) 1]
  from process_attestations_advances[OF h(1,2) 2] h process_block_header_Ok(1)[OF 1 assms(1)]
  show ?thesis by (simp add: advances_def)
qed

lemma process_slots_advances:
  assumes "wf_state st" and "process_slots H st target = Ok st'"
  shows "advances st st' \<and> st_slot st' = target \<and> same_chain st st'"
proof -
  from assms(2) have lt: "st_slot st < target" and st': "st' = process_slots_loop H target st"
    by (auto simp: process_slots_def split: if_splits)
  from process_slots_loop_result[of st target H] lt st'
  have sc: "same_chain st st'" "st_slot st' = target" by simp_all
  have "wf_state st'" by (rule wf_state_same_chain[OF assms(1) sc(1)]) (use lt sc(2) in simp)
  moreover have "st_latest_finalized st' = st_latest_finalized st"
    using sc(1) unfolding same_chain_def by auto
  ultimately show ?thesis using sc lt by (simp add: advances_def)
qed

lemma advances_trans: "advances a b \<Longrightarrow> advances b c \<Longrightarrow> advances a c"
  by (auto simp: advances_def)

lemma state_transition_advances:
  assumes "wf_state st" and "state_transition H st sb valid = Ok st'"
  shows "advances st st' \<and> st_slot st' = b_slot (bwa_block (sb_message sb)) \<and> st_slot st < st_slot st'"
proof -
  let ?b = "bwa_block (sb_message sb)"
  from assms(2) obtain st1 where 1: "process_slots H st (b_slot ?b) = Ok st1"
    and 2: "process_block H st1 ?b = Ok st'"
    by (auto simp: state_transition_def Let_def split: if_splits)
  have "st_slot st < b_slot ?b" using 1 by (auto simp: process_slots_def split: if_splits)
  moreover have s: "advances st st1" "wf_state st1"
    using process_slots_advances[OF assms(1) 1] by (auto simp: advances_def)
  moreover note b = process_block_advances[OF s(2) 2]
  ultimately show ?thesis using advances_trans[OF s(1) conjunct1[OF b]] by simp
qed


section \<open>When block processing can panic\<close>

text \<open>
  The conditions under which the asserts of the attestation loop hold: somebody participates, and
  the source is at most one slot before the finalized slot of the state.
\<close>

definition harmless :: "state \<Rightarrow> aggregated_attestation \<Rightarrow> bool" where
  "harmless st a \<longleftrightarrow> set_bit_indices (aa_bits a) \<noteq> [] \<and>
     unat (cp_slot (st_latest_finalized st)) \<le> unat (cp_slot (ad_source (aa_data a))) + 1"

lemma process_attestations_errors:
  assumes wf: "wf_state st" and ne: "historical_block_hashes st \<noteq> []" and "\<forall>a \<in> set atts. harmless st a"
  shows "errors_in {SlotOutsideTrackedRange, IndexOutOfBounds, ValidatorIndexOutOfRange}
    (process_attestations st atts)"
proof -
  have lim: "length (historical_block_hashes st) \<le> historical_roots_limit"
    using wf by (simp add: wf_state_def wf_chain_def Let_def)
  obtain rts where rts: "roots_indexed (historical_block_hashes st) (cp_slot (st_latest_finalized st)) rts"
    and eq: "process_attestations st atts =
      and_then (for_each (process_attestation st rts) atts (loop_start st))
        (\<lambda>l. map_res (\<lambda>(roots, bits).
          st\<lparr>justifications_roots := roots, justifications_validators := bits,
             justified_slots := al_justified_slots l,
             st_latest_justified := al_latest_justified l,
             st_latest_finalized := al_latest_finalized l\<rparr>)
          (flatten_justifications (al_justifications l)))"
    using process_attestations_loop[OF wf ne] by blast
  let ?E = "{SlotOutsideTrackedRange, IndexOutOfBounds, ValidatorIndexOutOfRange}"
  have step: "errors_in ?E (process_attestation st rts a l) \<and>
      (\<forall>l'. process_attestation st rts a l = Ok l' \<longrightarrow> loop_ok st l')"
    if a: "a \<in> set atts" and ok: "loop_ok st l" for a l
  proof -
    have "harmless st a" using a assms(3) by blast
    then show ?thesis
      by (cases rule: process_attestation_cases[OF lim rts ok, of a]) (auto simp: harmless_def)
  qed
  have loop: "errors_in ?E (for_each (process_attestation st rts) atts (loop_start st))"
    by (rule errors_in_for_each[where P = "loop_ok st"]) (use step loop_start_ok[OF wf ne] in auto)
  have "errors_in ?E (flatten_justifications (al_justifications l))"
    if "for_each (process_attestation st rts) atts (loop_start st) = Ok l" for l
  proof -
    have "loop_ok st l"
      by (rule for_each_invariant[OF that, where P = "loop_ok st"]) (use step loop_start_ok[OF wf ne] in auto)
    then have v: "votes_ok (length (validators st)) (historical_block_hashes st) (al_finalized_slot l)
        (al_justifications l)" by (simp add: loop_ok_def Let_def)
    with flatten_justifications_Ok[OF keys_limit[OF v lim]] show ?thesis by (simp add: votes_ok_def)
  qed
  with loop show ?thesis unfolding eq by (intro errors_in_and_then) simp_all
qed

section \<open>Reachable states\<close>

text \<open>The states a node can hold: a genesis state, and what accepted blocks make of it.\<close>

inductive reachable :: "ssz_root \<Rightarrow> state \<Rightarrow> state \<Rightarrow> bool" for H :: ssz_root and start :: state where
  start: "reachable H start start"
| block: "reachable H start st \<Longrightarrow> state_transition H st sb valid = Ok st' \<Longrightarrow> reachable H start st'"

lemma reachable_advances:
  assumes "reachable H start st" and "wf_state start"
  shows "advances start st"
  using assms
proof (induction rule: reachable.induct)
  case start
  then show ?case by (simp add: advances_def)
next
  case (block st sb valid st')
  then have "wf_state st" by (simp add: advances_def)
  from state_transition_advances[OF this block.hyps(2)] block show ?case
    using advances_trans by blast
qed

lemma push_all:
  assumes "length l + length vs \<le> limit"
  shows "for_each (\<lambda>v l. expect (plist_push limit l v) p) vs l = Ok (l @ vs)"
  using assms by (induction vs arbitrary: l) (auto simp: plist_push_def expect_def)

lemma genesis_wf:
  assumes "generate_genesis_with_validators H time vs = Ok st" and "vs \<noteq> []"
    and "length vs \<le> validator_registry_limit"
  shows "wf_state st"
proof -
  have "st = genesis_with_list H time vs"
    using assms push_all[of "[]" vs validator_registry_limit]
    by (simp add: generate_genesis_with_validators_def push_validators_def map_res_def)
  with assms(2,3) show ?thesis
    by (simp add: wf_state_def wf_chain_def wf_votes_def genesis_with_list_def genesis_header_def
        justified_at_def Let_def)
qed

end
