(* ===== verification/State_Properties.thy ===== *)
theory State_Properties
  imports State_Invariants
begin

text \<open>
  The theorems on the state transition, with a small sample chain that their examples run on:
  four validators, three blocks, the third of which finalizes the first.
\<close>

section \<open>Supermajorities\<close>

definition voters_in :: "bool list \<Rightarrow> nat set" where
  "voters_in v = {i. i < length v \<and> v ! i}"

lemma card_voters_in: "card (voters_in v) = length (filter id v)"
  by (simp add: voters_in_def length_filter_conv_card)

lemma finite_voters_in [simp]: "finite (voters_in v)"
  by (simp add: voters_in_def)

lemma supermajority_iff:
  assumes "length v = n" and "n \<le> validator_registry_limit"
  shows "supermajority n v \<longleftrightarrow> 2 * n \<le> 3 * card (voters_in v)"
proof -
  have c: "card (voters_in v) \<le> n" using assms(1) length_filter_le[of id v] by (simp add: card_voters_in)
  have "unat (3 * vote_count v) = 3 * card (voters_in v)"
    using c assms(2) by (simp add: vote_count_def card_voters_in unat_word_ariths unat_of_nat
        validator_registry_limit_def)
  moreover have "unat (2 * word_of_nat n :: u64) = 2 * n"
    using assms(2) by (simp add: unat_word_ariths unat_of_nat validator_registry_limit_def)
  ultimately show ?thesis by (simp add: supermajority_def word_le_nat_alt)
qed

section \<open>Who justified a slot\<close>

text \<open>
  The validators whose vote for a target root was stored in the state or is carried by one of
  the attestations.
\<close>

definition voters :: "state \<Rightarrow> aggregated_attestation list \<Rightarrow> h256 \<Rightarrow> nat set" where
  "voters st atts root =
     {i. i < length (validators st) \<and>
         ((\<exists>v. hm_get (stored_votes st) root = Some v \<and> i < length v \<and> v ! i) \<or>
          (\<exists>a \<in> set atts. cp_root (ad_target (aa_data a)) = root \<and> i \<in> unat ` set (set_bit_indices (aa_bits a))))}"

definition supported :: "state \<Rightarrow> aggregated_attestation list \<Rightarrow> nat \<Rightarrow> bool" where
  "supported st atts s \<longleftrightarrow>
     (\<exists>t. on_chain (historical_block_hashes st) t \<and> unat (cp_slot t) = s \<and>
        2 * length (validators st) \<le> 3 * card (voters st atts (cp_root t)))"

definition votes_supported :: "state \<Rightarrow> aggregated_attestation list \<Rightarrow> att_loop \<Rightarrow> bool" where
  "votes_supported st atts l \<longleftrightarrow>
     (\<forall>r v. hm_get (al_justifications l) r = Some v \<longrightarrow> voters_in v \<subseteq> voters st atts r) \<and>
     (\<forall>s. unat (al_finalized_slot l) < s \<and> justified_at (al_justified_slots l) (al_finalized_slot l) s \<longrightarrow>
        justified_at (justified_slots st) (cp_slot (st_latest_finalized st)) s \<or> supported st atts s)"

lemma finite_voters [simp]: "finite (voters st atts r)"
  by (simp add: voters_def)

lemma try_finalize_Ok_cases:
  assumes "try_finalize st rts source target l = Ok l'"
  obtains (Same) "l' = l" and "any_justifiable (cp_slot (st_latest_finalized st))
        [unat (cp_slot source + 1)..<unat (cp_slot target)] = Ok True"
    | (Back) "l' = l\<lparr>al_latest_finalized := source, al_finalized_slot := cp_slot source\<rparr>"
      and "\<not> al_finalized_slot l < cp_slot source"
    | (Forward) js p where "al_finalized_slot l < cp_slot source"
      and "shift_window (al_justified_slots l) (cp_slot source - al_finalized_slot l) = Ok js"
      and "l' = l\<lparr>al_latest_finalized := source, al_finalized_slot := cp_slot source,
             al_justified_slots := js, al_justifications := hm_retain p (al_justifications l)\<rparr>"
proof -
  let ?f = "al_finalized_slot l" and ?s = "cp_slot source"
  from assms obtain b where b: "any_justifiable (cp_slot (st_latest_finalized st))
      [unat (cp_slot source + 1)..<unat (cp_slot target)] = Ok b"
    unfolding try_finalize_def by auto
  show ?thesis
  proof (cases b)
    case True
    with b assms show ?thesis by (intro Same) (simp_all add: try_finalize_def)
  next
    case False
    show ?thesis
    proof (cases "?f < ?s")
      case True
      then have "?s - ?f > 0" "?f \<le> ?s" by (auto simp: word_greater_zero_iff)
      with b False assms show ?thesis
        by (auto simp: try_finalize_def Let_def checked_sub_def split: if_splits intro!: Forward[OF True])
    next
      case nf: False
      then have "checked_sub ?s ?f = None \<or> checked_sub ?s ?f = Some 0" by (auto simp: checked_sub_def)
      with b False assms nf show ?thesis
        by (intro Back) (auto simp: try_finalize_def Let_def)
    qed
  qed
qed

lemma try_finalize_shrinks:
  assumes fin: "try_finalize st rts source target l = Ok l'" and "hm_ok (al_justifications l)"
    and "al_finalized_slot l \<le> al_finalized_slot l'"
  shows "hm_get (al_justifications l') r = Some v \<Longrightarrow> hm_get (al_justifications l) r = Some v"
    and "unat (al_finalized_slot l') < s \<Longrightarrow>
      justified_at (al_justified_slots l') (al_finalized_slot l') s \<Longrightarrow>
      justified_at (al_justified_slots l) (al_finalized_slot l) s"
proof -
  let ?f = "al_finalized_slot l" and ?s = "cp_slot source" and ?js = "al_justified_slots l"
  show "hm_get (al_justifications l') r = Some v \<Longrightarrow> hm_get (al_justifications l) r = Some v"
    using fin
    by (cases rule: try_finalize_Ok_cases)
       (auto simp: hm_get_retain[OF assms(2)] split: option.splits if_splits)
  assume s: "unat (al_finalized_slot l') < s"
    and j: "justified_at (al_justified_slots l') (al_finalized_slot l') s"
  from fin show "justified_at ?js ?f s"
  proof (cases rule: try_finalize_Ok_cases)
    case Same
    with j show ?thesis by simp
  next
    case Back
    with assms(3) have "?s = ?f" by simp
    with Back j show ?thesis by simp
  next
    case (Forward js p)
    have d: "unat (?s - ?f) = unat ?s - unat ?f" using Forward(1) by (simp add: unat_sub_le)
    have "?s - ?f \<noteq> 0" using Forward(1) by auto
    with Forward(2) d have "unat ?s - unat ?f \<le> length ?js"
      by (auto simp: shift_window_def)
    from jw.holds_at_shift[OF _ this Forward(2), of s] Forward(1,3) s j show ?thesis
      by (simp add: word_nat)
  qed
qed

lemma process_attestation_Ok_cases:
  assumes "process_attestation st rts a l = Ok l'"
  defines "target \<equiv> ad_target (aa_data a)" and "n \<equiv> length (validators st)"
  obtains (Skip) "l' = l" and "attestation_counts st l a = Ok False"
    | (Votes) m votes where "attestation_counts st l a = Ok True"
      and "record_votes n (cp_root target) (aa_bits a) (al_justifications l) = Ok m"
      and "hm_get m (cp_root target) = Some votes" and "l' = l\<lparr>al_justifications := m\<rparr>"
      and "\<not> supermajority n votes"
    | (Justify) m votes js where "attestation_counts st l a = Ok True"
      and "record_votes n (cp_root target) (aa_bits a) (al_justifications l) = Ok m"
      and "hm_get m (cp_root target) = Some votes" and "supermajority n votes"
      and "with_justified (al_justified_slots l) (al_finalized_slot l) (cp_slot target) True = Ok js"
      and "try_finalize st rts (ad_source (aa_data a)) target
        (l\<lparr>al_latest_justified := target, al_justified_slots := js,
           al_justifications := hm_remove (cp_root target) m\<rparr>) = Ok l'"
proof -
  from assms(1) obtain b where b: "attestation_counts st l a = Ok b"
    by (auto simp: process_attestation_def Let_def)
  show ?thesis
  proof (cases b)
    case False
    with b assms(1) show ?thesis by (intro Skip) (simp_all add: process_attestation_def Let_def)
  next
    case True
    with b have c: "attestation_counts st l a = Ok True" by simp
    with assms obtain m votes where m: "record_votes n (cp_root target) (aa_bits a) (al_justifications l) = Ok m"
      and v: "hm_get m (cp_root target) = Some votes"
      by (auto simp: process_attestation_def Let_def)
    show ?thesis
    proof (cases "supermajority n votes")
      case False
      with assms c m v show ?thesis
        by (intro Votes[OF c m v]) (simp_all add: process_attestation_def Let_def)
    next
      case sm: True
      with assms c m v obtain js where
        "with_justified (al_justified_slots l) (al_finalized_slot l) (cp_slot target) True = Ok js"
        "try_finalize st rts (ad_source (aa_data a)) target
          (l\<lparr>al_latest_justified := target, al_justified_slots := js,
             al_justifications := hm_remove (cp_root target) m\<rparr>) = Ok l'"
        by (auto simp: process_attestation_def Let_def)
      then show ?thesis by (rule Justify[OF c m v sm])
    qed
  qed
qed

lemma record_votes_voters:
  assumes "hm_ok m" and "record_votes (length (validators st)) (cp_root (ad_target (aa_data a))) (aa_bits a) m = Ok m'"
    and "\<And>r v. hm_get m r = Some v \<Longrightarrow> voters_in v \<subseteq> voters st atts r" and "a \<in> set atts"
    and "length (votes_of (length (validators st)) (cp_root (ad_target (aa_data a))) m) = length (validators st)"
    and "hm_get m' r = Some v"
  shows "voters_in v \<subseteq> voters st atts r"
proof (cases "r = cp_root (ad_target (aa_data a))")
  case True
  let ?old = "votes_of (length (validators st)) r m"
  have v: "v = add_votes (set_bit_indices (aa_bits a)) ?old"
    using record_votes_Ok(2)[OF assms(1,2)] assms(6) True by simp
  have "voters_in ?old \<subseteq> voters st atts r"
    using assms(3)[of r] by (auto simp: votes_of_def voters_in_def split: option.splits)
  with True assms(4,5) show ?thesis
    by (auto simp: v voters_in_def nth_add_votes voters_def)
next
  case False
  with record_votes_Ok(2)[OF assms(1,2)] assms(3,6) show ?thesis by simp
qed

lemma supermajority_supported:
  assumes nv: "length (validators st) \<le> validator_registry_limit" and "length votes = length (validators st)"
    and "supermajority (length (validators st)) votes" and "voters_in votes \<subseteq> voters st atts (cp_root t)"
    and "on_chain (historical_block_hashes st) t"
  shows "supported st atts (unat (cp_slot t))"
proof -
  have "2 * length (validators st) \<le> 3 * card (voters_in votes)" using assms(2,3) supermajority_iff nv by simp
  also have "\<dots> \<le> 3 * card (voters st atts (cp_root t))" using assms(4) by (simp add: card_mono)
  finally show ?thesis using assms(5) by (auto simp: supported_def)
qed

lemma votes_supported_step:
  assumes lim: "length (historical_block_hashes st) \<le> historical_roots_limit"
    and nv: "length (validators st) \<le> validator_registry_limit"
    and rts: "roots_indexed (historical_block_hashes st) (cp_slot (st_latest_finalized st)) rts"
    and ok: "loop_ok st l" and sup: "votes_supported st atts l" and "a \<in> set atts"
    and step: "process_attestation st rts a l = Ok l'"
  shows "votes_supported st atts l'"
proof -
  let ?n = "length (validators st)" and ?t = "ad_target (aa_data a)"
  note nw = loop_ok_no_wrap[OF ok lim]
  have votes: "votes_ok ?n (historical_block_hashes st) (al_finalized_slot l) (al_justifications l)"
    using ok by (simp add: loop_ok_def Let_def)
  then have hm: "hm_ok (al_justifications l)" and len: "length (votes_of ?n r (al_justifications l)) = ?n" for r
    by (auto simp: votes_ok_def votes_of_def split: option.splits)
  have old: "hm_get (al_justifications l) r = Some v \<Longrightarrow> voters_in v \<subseteq> voters st atts r" for r v
    using sup by (simp add: votes_supported_def)
  from step show ?thesis
  proof (cases rule: process_attestation_Ok_cases)
    case Skip
    with sup show ?thesis by simp
  next
    case (Votes m votes)
    have "hm_get m r = Some v \<Longrightarrow> voters_in v \<subseteq> voters st atts r" for r v
      using record_votes_voters[OF hm Votes(2) old \<open>a \<in> set atts\<close> len] .
    with sup Votes(4) show ?thesis by (simp add: votes_supported_def)
  next
    case (Justify m votes js)
    have new: "hm_get m r = Some v \<Longrightarrow> voters_in v \<subseteq> voters st atts r" for r v
      using record_votes_voters[OF hm Justify(2) old \<open>a \<in> set atts\<close> len] .
    have hm': "hm_ok m" using record_votes_Ok(1)[OF hm Justify(2)] .
    note c = attestation_counts_True[OF nw Justify(1)]
    have "length votes = ?n" using record_votes_Ok(2)[OF hm Justify(2)] Justify(3) len by auto
    note supt = supermajority_supported[OF nv this Justify(4) new[OF Justify(3)] c(8)]
    have le: "al_finalized_slot l \<le> al_finalized_slot l'"
      by (rule process_attestation_keeps(2)[OF lim rts ok step])
    have lt: "unat (al_finalized_slot l) < unat (cp_slot ?t)" using c(2) by (simp add: word_nat)
    note shr = try_finalize_shrinks[OF Justify(6)]
    have "voters_in v \<subseteq> voters st atts r" if "hm_get (al_justifications l') r = Some v" for r v
      using shr(1)[OF _ _ that] le hm' new by (auto split: if_splits)
    moreover have "justified_at (justified_slots st) (cp_slot (st_latest_finalized st)) s \<or> supported st atts s"
      if "unat (al_finalized_slot l') < s" "justified_at (al_justified_slots l') (al_finalized_slot l') s" for s
    proof -
      have "justified_at js (al_finalized_slot l) s"
        using shr(2)[OF _ _ that] le hm' by simp
      then have "s = unat (cp_slot ?t) \<or> justified_at (al_justified_slots l) (al_finalized_slot l) s"
        using jw.holds_at_mark[OF nw lt Justify(5)] by simp
      moreover have "unat (al_finalized_slot l) < s" using le that(1) by (simp add: word_nat)
      ultimately show ?thesis using supt sup by (auto simp: votes_supported_def)
    qed
    ultimately show ?thesis by (simp add: votes_supported_def)
  qed
qed

lemma votes_supported_start:
  assumes "wf_state st"
  shows "votes_supported st atts (loop_start st)"
proof -
  have "voters_in v \<subseteq> voters st atts r" if "hm_get (stored_votes st) r = Some v" for r v
  proof -
    have "length v = length (validators st)"
      using hm_get_stored_votes(2)[OF that] assms by (simp add: wf_state_def wf_votes_def Let_def)
    with that show ?thesis by (auto simp: voters_in_def voters_def)
  qed
  then show ?thesis by (simp add: votes_supported_def loop_start_def)
qed

lemma process_attestations_supported:
  assumes wf: "wf_state st" and ne: "historical_block_hashes st \<noteq> []"
    and run: "process_attestations st atts = Ok st'"
  obtains l where "loop_ok st l" and "votes_supported st atts l" and "st' = loop_end st l"
proof -
  have lim: "length (historical_block_hashes st) \<le> historical_roots_limit"
    and nv: "length (validators st) \<le> validator_registry_limit"
    using wf by (simp_all add: wf_state_def wf_chain_def wf_votes_def Let_def)
  show ?thesis
    by (rule process_attestations_invariant[OF wf ne run, where P = "votes_supported st atts"])
       (auto intro: votes_supported_start[OF wf] votes_supported_step[OF lim nv] that)
qed

lemma new_justified_supported:
  assumes "wf_state st" and "historical_block_hashes st \<noteq> []" and "process_attestations st atts = Ok st'"
    and "unat (cp_slot (st_latest_finalized st')) < s"
    and "justified_at (justified_slots st') (cp_slot (st_latest_finalized st')) s"
    and "\<not> justified_at (justified_slots st) (cp_slot (st_latest_finalized st)) s"
  shows "supported st atts s"
  by (rule process_attestations_supported[OF assms(1-3)])
     (use assms(4-6) in \<open>auto simp: loop_end_def loop_ok_def votes_supported_def Let_def\<close>)

section \<open>A sample chain\<close>

definition sample_validators :: "validator list" where
  "sample_validators = map (\<lambda>i. \<lparr>pubkey = PublicKey [], v_index = word_of_nat i\<rparr>) [0..<4]"

definition sample_genesis :: state where
  "sample_genesis = genesis_with_list sample_root 0 sample_validators"

definition checkpoint_at :: "h256 \<Rightarrow> slot \<Rightarrow> checkpoint" where
  "checkpoint_at r s = \<lparr>cp_root = r, cp_slot = s\<rparr>"

definition vote_for :: "checkpoint \<Rightarrow> checkpoint \<Rightarrow> bool list \<Rightarrow> aggregated_attestation" where
  "vote_for source target bits =
     \<lparr>aa_bits = bits, aa_data = \<lparr>ad_slot = cp_slot target, ad_head = target, ad_target = target,
        ad_source = source\<rparr>\<rparr>"

definition sealed :: "block \<Rightarrow> signed_block_with_attestation" where
  "sealed b =
     \<lparr>sb_message = \<lparr>bwa_block = b, bwa_proposer_attestation =
        \<lparr>att_validator_id = b_proposer_index b, att_data = data_at (b_slot b)\<rparr>\<rparr>,
      sb_signature = \<lparr>attestation_signatures = [], proposer_signature = signature_default\<rparr>\<rparr>"

definition sample_block_1 :: block where
  "sample_block_1 =
     \<lparr>b_slot = 1, b_proposer_index = 1, b_parent_root = 129127595897592409212583936, b_state_root = 8,
      b_body = \<lparr>attestations = []\<rparr>\<rparr>"

definition sample_root_1 :: h256 where
  "sample_root_1 = root_block sample_root sample_block_1"

definition sample_block_2 :: block where
  "sample_block_2 =
     \<lparr>b_slot = 2, b_proposer_index = 2, b_parent_root = sample_root_1, b_state_root = 9,
      b_body = \<lparr>attestations = [vote_for (checkpoint_at 129127595897592409212583936 0) (checkpoint_at sample_root_1 1)
        [True, True, True, False]]\<rparr>\<rparr>"

definition sample_root_2 :: h256 where
  "sample_root_2 = root_block sample_root sample_block_2"

definition sample_block_3 :: block where
  "sample_block_3 =
     \<lparr>b_slot = 3, b_proposer_index = 3, b_parent_root = sample_root_2, b_state_root = 10,
      b_body = \<lparr>attestations = [vote_for (checkpoint_at sample_root_1 1) (checkpoint_at sample_root_2 2)
        [True, False, True, True]]\<rparr>\<rparr>"

definition sample_state_1 :: state where
  "sample_state_1 = sample_genesis\<lparr>st_slot := 1,
     latest_block_header := \<lparr>bh_slot = 1, bh_proposer_index = 1, bh_parent_root = 129127595897592409212583936,
       bh_state_root = 0, bh_body_root = 0\<rparr>,
     st_latest_justified := checkpoint_at 129127595897592409212583936 0, st_latest_finalized := checkpoint_at 129127595897592409212583936 0,
     historical_block_hashes := [129127595897592409212583936]\<rparr>"

definition sample_state_2 :: state where
  "sample_state_2 = sample_genesis\<lparr>st_slot := 2,
     latest_block_header := \<lparr>bh_slot = 2, bh_proposer_index = 2, bh_parent_root = sample_root_1,
       bh_state_root = 0, bh_body_root = 1\<rparr>,
     st_latest_justified := checkpoint_at sample_root_1 1, st_latest_finalized := checkpoint_at 129127595897592409212583936 0,
     historical_block_hashes := [129127595897592409212583936, sample_root_1], justified_slots := [True]\<rparr>"

definition sample_state_3 :: state where
  "sample_state_3 = sample_genesis\<lparr>st_slot := 3,
     latest_block_header := \<lparr>bh_slot = 3, bh_proposer_index = 3, bh_parent_root = sample_root_2,
       bh_state_root = 0, bh_body_root = 1\<rparr>,
     st_latest_justified := checkpoint_at sample_root_2 2,
     st_latest_finalized := checkpoint_at sample_root_1 1,
     historical_block_hashes := [129127595897592409212583936, sample_root_1, sample_root_2], justified_slots := [True]\<rparr>"

text \<open>A state whose finalized slot is 2, with two blocks after it that are not justified yet.\<close>

definition sample_finalized :: state where
  "sample_finalized = sample_genesis\<lparr>st_slot := 5,
     latest_block_header := \<lparr>bh_slot = 5, bh_proposer_index = 1, bh_parent_root = 5,
       bh_state_root = 0, bh_body_root = 0\<rparr>,
     st_latest_justified := checkpoint_at 3 2, st_latest_finalized := checkpoint_at 3 2,
     historical_block_hashes := [1, 2, 3, 4, 5], justified_slots := [False, False]\<rparr>"

lemmas sample_defs = sample_validators_def sample_genesis_def checkpoint_at_def vote_for_def sealed_def
  sample_block_1_def sample_root_1_def sample_block_2_def sample_root_2_def sample_block_3_def
  sample_state_1_def sample_state_2_def sample_state_3_def sample_finalized_def

lemma sample_step_1: "state_transition sample_root sample_genesis (sealed sample_block_1) True = Ok sample_state_1"
  by (simp add: run_simps sample_defs del: outcome_iffs cong: run_congs)

lemma sample_step_2: "state_transition sample_root sample_state_1 (sealed sample_block_2) True = Ok sample_state_2"
  by (simp add: run_simps sample_defs del: outcome_iffs cong: run_congs)

lemma sample_step_3: "state_transition sample_root sample_state_2 (sealed sample_block_3) True = Ok sample_state_3"
  by (simp add: run_simps sample_defs del: outcome_iffs cong: run_congs)

lemma sample_genesis_generated:
  "generate_genesis_with_validators sample_root 0 sample_validators = Ok sample_genesis"
  by (simp add: generate_genesis_with_validators_def push_validators_def push_all sample_genesis_def
      sample_validators_def validator_registry_limit_def map_res_def)

lemma sample_genesis_wf: "wf_state sample_genesis"
  by (rule genesis_wf[OF sample_genesis_generated])
     (simp_all add: sample_validators_def validator_registry_limit_def)

lemma sample_reachable:
  "reachable sample_root sample_genesis sample_state_1"
  "reachable sample_root sample_genesis sample_state_2"
  "reachable sample_root sample_genesis sample_state_3"
proof -
  show 1: "reachable sample_root sample_genesis sample_state_1"
    by (rule reachable.block[OF reachable.start sample_step_1])
  show 2: "reachable sample_root sample_genesis sample_state_2"
    by (rule reachable.block[OF 1 sample_step_2])
  show "reachable sample_root sample_genesis sample_state_3"
    by (rule reachable.block[OF 2 sample_step_3])
qed

lemma sample_wf: "wf_state sample_state_1" "wf_state sample_state_2" "wf_state sample_state_3"
  using sample_reachable[THEN reachable_advances[OF _ sample_genesis_wf]] by (simp_all add: advances_def)


lemma sample_finalized_wf: "wf_state sample_finalized"
  by (simp add: sample_defs genesis_with_list_def wf_state_def wf_chain_def wf_votes_def
      historical_roots_limit_def validator_registry_limit_def on_chain_def justified_at_def Let_def)

lemma sample_finalized_step:
  "process_attestations sample_finalized
     [vote_for (checkpoint_at 3 2) (checkpoint_at 5 4) [True, True, False, True]] =
   Ok (sample_finalized\<lparr>st_latest_justified := checkpoint_at 5 4, justified_slots := [False, True]\<rparr>)"
  by (simp add: run_simps sample_defs del: outcome_iffs cong: run_congs)

section \<open>Lemmas for the properties\<close>

lemma state_transition_history:
  assumes "wf_state st" and "state_transition H st sb valid = Ok st'"
  defines "b \<equiv> bwa_block (sb_message sb)"
  obtains st1 where "process_slots H st (b_slot b) = Ok st1"
    and "b_parent_root b = root_header H (latest_block_header st1)"
    and "historical_block_hashes st' = historical_block_hashes st @ b_parent_root b #
      replicate (unat (b_slot b) - unat (bh_slot (latest_block_header st)) - 1) 0"
proof -
  from assms(2) obtain st1 st2 where 1: "process_slots H st (b_slot b) = Ok st1"
    and 2: "process_block_header H st1 b = Ok st2"
    and 3: "process_attestations st2 (attestations (b_body b)) = Ok st'"
    by (auto simp: state_transition_def process_block_def Let_def b_def split: if_splits)
  have s: "same_chain st st1" "wf_state st1"
    using process_slots_advances[OF assms(1) 1] by (simp_all add: advances_def)
  note h = process_block_header_Ok[OF 2 s(2)] and w = process_block_header_wf[OF s(2) 2]
  have "historical_block_hashes st' = historical_block_hashes st2"
    by (rule process_attestations_Ok[OF w(1,2) 3]) (simp add: loop_end_def Let_def)
  moreover have "historical_block_hashes st1 = historical_block_hashes st"
    "bh_slot (latest_block_header st1) = bh_slot (latest_block_header st)"
    using s(1) by (auto simp: same_chain_def)
  ultimately show ?thesis using h(3,5) by (intro that[OF 1]) simp_all
qed

lemma process_slots_loop_filled:
  assumes "st_slot st \<le> target" and "bh_state_root (latest_block_header st) \<noteq> 0"
  shows "process_slots_loop H target st = st\<lparr>st_slot := target\<rparr>"
  using assms
proof (induction H target st rule: process_slots_loop.induct)
  case (1 H target st)
  show ?case
  proof (cases "st_slot st < target")
    case True
    then have "st_slot st + 1 \<le> target" using unat_add_one[OF True] by (simp add: word_nat)
    with 1 True show ?thesis by (subst process_slots_loop.simps) (simp add: process_slot_def Let_def)
  next
    case False
    with 1 show ?thesis by (subst process_slots_loop.simps) simp
  qed
qed

lemma push_zeros_total:
  assumes "length h + length xs \<le> limit"
  shows "\<exists>h'. for_each (\<lambda>_ hs. plist_push limit hs 0) xs h = Ok h'"
  using assms by (induction xs arbitrary: h) (auto simp: plist_push_def)

lemma process_block_header_total:
  assumes "wf_state st" and "b_slot b = st_slot st \<and> bh_slot (latest_block_header st) < b_slot b \<and>
      st_slot st mod word_of_nat (length (validators st)) = b_proposer_index b \<and>
      b_parent_root b = root_header H (latest_block_header st) \<and>
      unat (b_slot b) \<le> historical_roots_limit"
  shows "\<exists>st'. process_block_header H st b = Ok st'"
proof -
  let ?p = "bh_slot (latest_block_header st)" and ?hist = "historical_block_hashes st"
  let ?f = "cp_slot (st_latest_finalized st)" and ?root = "root_header H (latest_block_header st)"
  have "?p < b_slot b" and lim: "unat (b_slot b) \<le> historical_roots_limit" using assms(2) by blast+
  then have lt: "unat ?p < unat (b_slot b)" by (simp add: word_nat)
  have len: "length ?hist = unat ?p" and fin: "unat ?f < 2 ^ 63"
    and n: "0 < length (validators st)" "length (validators st) \<le> validator_registry_limit"
    and js: "length (justified_slots st) < 2 ^ 64"
    using assms(1) by (auto simp: wf_state_def wf_chain_def wf_votes_def on_chain_def
        historical_roots_limit_def Let_def split: if_splits)
  note gap = unat_gap[OF \<open>?p < b_slot b\<close>]
  have "plist_push historical_roots_limit ?hist ?root = Ok (?hist @ [?root])"
    using lt len lim by (simp add: plist_push_def)
  moreover obtain h where "for_each (\<lambda>_ hs. plist_push historical_roots_limit hs 0)
      [0..<unat (b_slot b - ?p - 1)] (?hist @ [?root]) = Ok h"
    using push_zeros_total[of "?hist @ [?root]" "[0..<unat (b_slot b - ?p - 1)]" historical_roots_limit]
      lt len lim gap by auto
  moreover have "no_wrap (b_slot b - 1)" "no_wrap ?f"
    using fin lt lim unat_sub_le[of 1 "b_slot b"] by (simp_all add: word_nat historical_roots_limit_def)
  then obtain js where "extend_to_slot (justified_slots st) ?f (b_slot b - 1) = Ok js"
    using extend_to_slot_Ok js by blast
  moreover have "(word_of_nat (length (validators st)) :: u64) \<noteq> 0"
    using n unat_word_of_nat[of "length (validators st)"] by (auto simp: validator_registry_limit_def)
  ultimately show ?thesis
    using assms(2) by (auto simp: process_block_header_def Let_def is_proposer_for_def linorder_not_less)
qed

section \<open>Properties\<close>

text \<open>
  C2: every state that accepted blocks produce from a generated genesis state is well formed: the
  history has one entry per slot before the latest block, the window of justified slots ends there,
  both checkpoints name blocks of the history, the finalized slot is at most the justified one, and
  the vote lists have one bit per validator for distinct sorted roots after the finalized slot.
\<close>

theorem reachable_states_well_formed:
  assumes "generate_genesis_with_validators H time vs = Ok genesis" and "vs \<noteq> []"
    and "length vs \<le> validator_registry_limit" and "reachable H genesis st"
  shows "wf_state st"
  using reachable_advances[OF assms(4) genesis_wf[OF assms(1-3)]] by (simp add: advances_def)

theorem reachable_states_well_formed_witness: "wf_state sample_state_3"
  by (rule reachable_states_well_formed[OF sample_genesis_generated _ _ sample_reachable(3)])
     (simp_all add: sample_validators_def validator_registry_limit_def)

text \<open>
  C21: the states of a chain stay within the limits of their SSZ types.  The registry has at most 4096 validators,
  the history, the window of justified slots and the roots of pending votes at most 262144 entries, and the
  flattened votes at most 4096 times 262144 bits, although the bit lists are built without a check.
\<close>

theorem reachable_states_typed:
  assumes "generate_genesis_with_validators H time vs = Ok genesis" and "vs \<noteq> []"
    and "length vs \<le> validator_registry_limit" and "reachable H genesis st"
  shows "length (validators st) \<le> validator_registry_limit \<and>
    length (historical_block_hashes st) \<le> historical_roots_limit \<and>
    length (justified_slots st) \<le> historical_roots_limit \<and>
    length (justifications_roots st) \<le> historical_roots_limit \<and>
    length (justifications_validators st) \<le> validator_registry_limit * historical_roots_limit"
proof -
  let ?roots = "justifications_roots st" and ?hist = "historical_block_hashes st"
  have wf: "wf_chain st" "wf_votes st"
    using reachable_advances[OF assms(4) genesis_wf[OF assms(1-3)]] by (simp_all add: advances_def wf_state_def)
  have hist: "length ?hist \<le> historical_roots_limit" and js: "length (justified_slots st) \<le> length ?hist"
    using wf(1) by (simp_all add: wf_chain_def Let_def)
  have n: "length (validators st) \<le> validator_registry_limit" and "distinct ?roots" and "set ?roots \<subseteq> set ?hist"
    and bits: "length (justifications_validators st) = length ?roots * length (validators st)"
    using wf(2) by (auto simp: wf_votes_def Let_def dest: in_set_dropD)
  then have "length ?roots \<le> length ?hist"
    by (metis card_length card_mono distinct_card finite_set order_trans)
  with hist js n show ?thesis by (simp add: bits mult.commute mult_le_mono)
qed

theorem reachable_states_typed_witness:
  "length (justifications_validators sample_state_3) \<le> validator_registry_limit * historical_roots_limit"
  using reachable_states_typed[OF sample_genesis_generated _ _ sample_reachable(3)]
  by (simp add: sample_validators_def validator_registry_limit_def)

text \<open>
  C1: finalization is never undone.  An accepted block moves the finalized slot only forwards, the
  checkpoint that was finalized before stays on the history, and so does the new one.
\<close>

theorem finalization_never_undone:
  assumes "wf_state st" and "historical_block_hashes st \<noteq> []"
    and "state_transition H st sb valid = Ok st'"
  shows "cp_slot (st_latest_finalized st) \<le> cp_slot (st_latest_finalized st') \<and>
    on_chain (historical_block_hashes st') (st_latest_finalized st) \<and>
    on_chain (historical_block_hashes st') (st_latest_finalized st')"
proof (intro conjI)
  have adv: "advances st st'" using state_transition_advances[OF assms(1,3)] by simp
  then show "cp_slot (st_latest_finalized st) \<le> cp_slot (st_latest_finalized st')"
    by (simp add: advances_def)
  obtain h where h: "historical_block_hashes st' = historical_block_hashes st @ h"
    using state_transition_history[OF assms(1,3)] by metis
  have "on_chain (historical_block_hashes st) (st_latest_finalized st)"
    using assms(1,2) by (simp add: wf_state_def wf_chain_def Let_def)
  then show "on_chain (historical_block_hashes st') (st_latest_finalized st)"
    unfolding h by (rule on_chain_append)
  show "on_chain (historical_block_hashes st') (st_latest_finalized st')"
    using adv assms(2) h by (auto simp: advances_def wf_state_def wf_chain_def Let_def split: if_splits)
qed

theorem finalization_never_undone_witness:
  "cp_slot (st_latest_finalized sample_state_2) \<le> cp_slot (st_latest_finalized sample_state_3) \<and>
   on_chain (historical_block_hashes sample_state_3) (st_latest_finalized sample_state_2) \<and>
   on_chain (historical_block_hashes sample_state_3) (st_latest_finalized sample_state_3)"
proof -
  have "historical_block_hashes sample_state_2 \<noteq> []" by (simp add: sample_state_2_def)
  then show ?thesis by (rule finalization_never_undone[OF sample_wf(2) _ sample_step_3])
qed

text \<open>
  C3: a slot becomes justified only with the votes of two thirds of the validators.  If processing
  the attestations of a block justifies a slot after the finalized one that was not justified
  before, the history has a block at that slot for which at least two thirds of the validators
  voted, in the stored votes or in these attestations.
\<close>

theorem justification_needs_two_thirds:
  assumes "wf_state st" and "historical_block_hashes st \<noteq> []"
    and "process_attestations st atts = Ok st'"
    and "unat (cp_slot (st_latest_finalized st')) < s"
    and "justified_at (justified_slots st') (cp_slot (st_latest_finalized st')) s"
    and "\<not> justified_at (justified_slots st) (cp_slot (st_latest_finalized st)) s"
  shows "\<exists>t. on_chain (historical_block_hashes st) t \<and> unat (cp_slot t) = s \<and>
    2 * length (validators st) \<le> 3 * card (voters st atts (cp_root t))"
  using new_justified_supported[OF assms] unfolding supported_def .

theorem justification_needs_two_thirds_witness:
  "\<exists>t. on_chain (historical_block_hashes sample_finalized) t \<and> unat (cp_slot t) = 4 \<and>
    2 * length (validators sample_finalized) \<le> 3 * card (voters sample_finalized
      [vote_for (checkpoint_at 3 2) (checkpoint_at 5 4) [True, True, False, True]] (cp_root t))"
  by (rule justification_needs_two_thirds[OF sample_finalized_wf _ sample_finalized_step])
     (simp_all add: sample_finalized_def checkpoint_at_def justified_at_def window_slots_def)

text \<open>
  C13: on a well-formed state \<^verbatim>\<open>process_attestations\<close> neither panics nor loops, and fails only on its
  range checks, provided every attestation has a participant and no source lies more than one slot
  before the finalized slot.  In particular the error for a justification root that is missing
  from the index of roots cannot occur.
\<close>

theorem process_attestations_never_panics:
  assumes "wf_state st" and "historical_block_hashes st \<noteq> []"
    and "\<forall>a \<in> set atts. set_bit_indices (aa_bits a) \<noteq> [] \<and>
      unat (cp_slot (st_latest_finalized st)) \<le> unat (cp_slot (ad_source (aa_data a))) + 1"
  shows "(\<exists>st'. process_attestations st atts = Ok st') \<or>
    (\<exists>e \<in> {SlotOutsideTrackedRange, IndexOutOfBounds, ValidatorIndexOutOfRange}.
      process_attestations st atts = Err e)"
proof -
  have "\<forall>a \<in> set atts. harmless st a" using assms(3) by (simp add: harmless_def)
  from process_attestations_errors[OF assms(1,2) this] show ?thesis
    by (cases rule: errors_in_E) auto
qed

theorem process_attestations_never_panics_witness:
  "(\<exists>st'. process_attestations sample_finalized [vote_for (checkpoint_at 3 2) (checkpoint_at 4 3) [True]] = Ok st') \<or>
    (\<exists>e \<in> {SlotOutsideTrackedRange, IndexOutOfBounds, ValidatorIndexOutOfRange}.
      process_attestations sample_finalized [vote_for (checkpoint_at 3 2) (checkpoint_at 4 3) [True]] = Err e)"
  by (rule process_attestations_never_panics[OF sample_finalized_wf])
     (simp_all add: sample_finalized_def checkpoint_at_def vote_for_def set_bit_indices_def)

text \<open>
  Reading the votes from the two flat lists of the state and writing them back changes nothing:
  a block without attestations leaves a well-formed state as the header processing made it.
\<close>

theorem process_attestations_roundtrip:
  assumes "wf_state st" and "historical_block_hashes st \<noteq> []"
  shows "process_attestations st [] = Ok st"
proof -
  have lim: "length (historical_block_hashes st) \<le> historical_roots_limit"
    using assms(1) by (simp add: wf_state_def wf_chain_def Let_def)
  have "votes_ok (length (validators st)) (historical_block_hashes st)
      (cp_slot (st_latest_finalized st)) (stored_votes st)"
    using loop_start_ok[OF assms] by (simp add: loop_ok_def loop_start_def Let_def)
  from keys_limit[OF this lim] have "length (justifications_roots st) \<le> historical_roots_limit"
    by (metis keys_stored_votes length_map)
  with assms(1) have flat: "flatten_justifications (stored_votes st) =
      Ok (justifications_roots st, justifications_validators st)"
    by (intro flatten_stored_votes) (simp_all add: wf_state_def wf_votes_def Let_def)
  show ?thesis
    by (rule process_attestations_loop[OF assms, of "[]"]) (simp add: flat loop_start_def map_res_def)
qed

theorem process_attestations_roundtrip_witness:
  "process_attestations sample_state_2 [] = Ok sample_state_2"
  by (rule process_attestations_roundtrip[OF sample_wf(2)]) (simp add: sample_state_2_def)

text \<open>
  \<^verbatim>\<open>process_slots\<close> ends exactly at the target slot, and all it writes besides the slot is the
  state root of the latest header: the root of the state it was given, unless the header already
  has one.  A target that is not in the future is rejected.
\<close>

theorem process_slots_result:
  assumes "root_state H st \<noteq> 0 \<or> bh_state_root (latest_block_header st) \<noteq> 0"
  shows "process_slots H st target =
    (if st_slot st < target
     then Ok (st\<lparr>st_slot := target, latest_block_header := (latest_block_header st)\<lparr>bh_state_root :=
       if bh_state_root (latest_block_header st) = 0 then root_state H st
       else bh_state_root (latest_block_header st)\<rparr>\<rparr>)
     else Err TargetSlotNotInFuture)"
proof (cases "st_slot st < target")
  case True
  then have le: "st_slot (process_slot H st) \<le> target"
    using unat_add_one[OF True] by (simp add: word_nat)
  have "bh_state_root (latest_block_header (process_slot H st)) \<noteq> 0"
    using assms by (auto simp: process_slot_def Let_def)
  from process_slots_loop_filled[OF le this, of H]
  have "process_slots_loop H target (process_slot H st) = (process_slot H st)\<lparr>st_slot := target\<rparr>" .
  with True have "process_slots H st target = Ok ((process_slot H st)\<lparr>st_slot := target\<rparr>)"
    by (simp add: process_slots_def process_slots_loop.simps[of H target st])
  with True show ?thesis by (auto simp: process_slot_def Let_def)
qed (simp add: process_slots_def)

theorem process_slots_result_witness:
  "process_slots sample_root sample_genesis 9 =
    (if st_slot sample_genesis < 9
     then Ok (sample_genesis\<lparr>st_slot := 9,
       latest_block_header := (latest_block_header sample_genesis)\<lparr>bh_state_root :=
         if bh_state_root (latest_block_header sample_genesis) = 0 then root_state sample_root sample_genesis
         else bh_state_root (latest_block_header sample_genesis)\<rparr>\<rparr>)
     else Err TargetSlotNotInFuture)"
  by (rule process_slots_result) (simp add: sample_genesis_def genesis_with_list_def sample_root_def)

text \<open>
  C22: when a block header is accepted on a well-formed state.  Exactly if its slot is the current
  slot and later than the latest header, its proposer is the one whose turn it is, its parent root
  is the root of the latest header, and the history stays within its limit; the new history then
  ends with that root and one zero per empty slot.
\<close>

theorem process_block_header_accepts:
  assumes "wf_state st"
  shows "((\<exists>st'. process_block_header H st b = Ok st') \<longleftrightarrow>
      b_slot b = st_slot st \<and> bh_slot (latest_block_header st) < b_slot b \<and>
      st_slot st mod word_of_nat (length (validators st)) = b_proposer_index b \<and>
      b_parent_root b = root_header H (latest_block_header st) \<and>
      unat (b_slot b) \<le> historical_roots_limit) \<and>
    (\<forall>st'. process_block_header H st b = Ok st' \<longrightarrow>
      historical_block_hashes st' = historical_block_hashes st @ b_parent_root b #
        replicate (unat (b_slot b) - unat (bh_slot (latest_block_header st)) - 1) 0)"
proof (intro conjI allI impI)
  fix st' assume ok: "process_block_header H st b = Ok st'"
  show "historical_block_hashes st' = historical_block_hashes st @ b_parent_root b #
        replicate (unat (b_slot b) - unat (bh_slot (latest_block_header st)) - 1) 0"
    using process_block_header_Ok(3)[OF ok assms]
    by (subst process_block_header_Ok(5)[OF ok assms]) simp
next
  show "(\<exists>st'. process_block_header H st b = Ok st') \<longleftrightarrow>
      b_slot b = st_slot st \<and> bh_slot (latest_block_header st) < b_slot b \<and>
      st_slot st mod word_of_nat (length (validators st)) = b_proposer_index b \<and>
      b_parent_root b = root_header H (latest_block_header st) \<and>
      unat (b_slot b) \<le> historical_roots_limit" (is "_ \<longleftrightarrow> ?conds")
  proof
    assume "\<exists>st'. process_block_header H st b = Ok st'"
    then show ?conds using process_block_header_Ok(1-4,6)[OF _ assms] by blast
  qed (use process_block_header_total[OF assms] in blast)
qed


theorem process_block_header_accepts_witness:
  "\<exists>st'. process_block_header sample_root (sample_genesis\<lparr>st_slot := 1,
      latest_block_header := (genesis_header sample_root)\<lparr>bh_state_root := 7\<rparr>\<rparr>) sample_block_1 = Ok st'"
proof -
  let ?st = "sample_genesis\<lparr>st_slot := 1,
      latest_block_header := (genesis_header sample_root)\<lparr>bh_state_root := 7\<rparr>\<rparr>"
  have "wf_state ?st"
    by (simp add: sample_defs genesis_with_list_def genesis_header_def wf_state_def wf_chain_def wf_votes_def
        historical_roots_limit_def validator_registry_limit_def justified_at_def Let_def)
  note conjunct1[OF process_block_header_accepts[OF this, of sample_root sample_block_1]]
  then show ?thesis
    by (simp add: sample_defs run_simps)
qed

end
