(* ===== verification/Xmss.thy ===== *)
theory Xmss
  imports Containers
begin

text \<open>
  The \<^verbatim>\<open>xmss\<close> crate: the wrappers around the leansig and lean-multisig libraries, their textual
  form, and the conversion of a signature in JSON form to its SSZ bytes.

  The libraries are not part of the repository.  They are the fields of \<open>xmss_lib\<close>, an argument of
  the definitions that call them: which byte strings decode, signing and verification on encoded
  keys, aggregation of signatures.  The hex encoding is an argument in the same way.
\<close>

section \<open>The libraries\<close>

type_synonym bytes = "u8 list"

record xmss_lib =
  pk_decodes :: "bytes \<Rightarrow> bool"
  sk_decodes :: "bytes \<Rightarrow> bool"
  sig_decodes :: "bytes \<Rightarrow> bool"
  agg_decodes :: "bytes \<Rightarrow> bool"
  lean_sign :: "bytes \<Rightarrow> u32 \<Rightarrow> h256 \<Rightarrow> bytes option"
  lean_verify :: "bytes \<Rightarrow> u32 \<Rightarrow> h256 \<Rightarrow> bytes \<Rightarrow> bool"
  lean_aggregate :: "bytes list \<Rightarrow> bytes list \<Rightarrow> h256 \<Rightarrow> u32 \<Rightarrow> bytes option"
  lean_verify_aggregate :: "bytes list \<Rightarrow> h256 \<Rightarrow> bytes \<Rightarrow> u32 \<Rightarrow> bool"
  hex_encode :: "bytes \<Rightarrow> string"
  hex_decode :: "string \<Rightarrow> bytes option"

text \<open>\<^verbatim>\<open>slot.0 as u32\<close> keeps the low 32 bits.\<close>

definition slot_epoch :: "slot \<Rightarrow> u32" where
  "slot_epoch s = ucast s"

section \<open>Public keys\<close>

definition public_key_new :: "xmss_lib \<Rightarrow> bytes \<Rightarrow> public_key res" where
  "public_key_new X bs =
     (if \<not> pk_decodes X bs then Err DecodeFailed
      else if length bs \<noteq> 52 then Panic BadEncoding else Ok (PublicKey bs))"

definition public_key_as_lean :: "xmss_lib \<Rightarrow> public_key \<Rightarrow> bytes res" where
  "public_key_as_lean X k =
     (if pk_decodes X (pk_bytes k) then Ok (pk_bytes k) else Panic BadEncoding)"

definition public_key_to_string :: "xmss_lib \<Rightarrow> public_key \<Rightarrow> string" where
  "public_key_to_string X k = ''0x'' @ hex_encode X (pk_bytes k)"

text \<open>\<^verbatim>\<open>s.strip_prefix("0x").unwrap_or(s)\<close>.\<close>

definition strip_0x :: "string \<Rightarrow> string" where
  "strip_0x s = (if take 2 s = ''0x'' then drop 2 s else s)"

definition public_key_from_str :: "xmss_lib \<Rightarrow> string \<Rightarrow> public_key res" where
  "public_key_from_str X s =
     and_then (ok_or (hex_decode X (strip_0x s)) HexDecodeFailed) (public_key_new X)"

section \<open>Signatures\<close>

definition signature_new :: "xmss_lib \<Rightarrow> bytes \<Rightarrow> signature res" where
  "signature_new X bs =
     (if \<not> sig_decodes X bs then Err DecodeFailed
      else if length bs \<noteq> 3112 then Panic BadEncoding else Ok (Signature bs))"

definition signature_as_lean :: "xmss_lib \<Rightarrow> signature \<Rightarrow> bytes res" where
  "signature_as_lean X s =
     (if sig_decodes X (sig_bytes s) then Ok (sig_bytes s) else Panic BadEncoding)"

definition signature_from_lean :: "bytes \<Rightarrow> signature res" where
  "signature_from_lean bs = (if length bs \<noteq> 3112 then Panic BadEncoding else Ok (Signature bs))"

definition signature_verify :: "xmss_lib \<Rightarrow> signature \<Rightarrow> public_key \<Rightarrow> u32 \<Rightarrow> h256 \<Rightarrow> unit res" where
  "signature_verify X s public_key epoch message =
     and_then (public_key_as_lean X public_key) (\<lambda>pk.
     and_then (signature_as_lean X s) (\<lambda>sig.
     if lean_verify X pk epoch message sig then Ok () else Err InvalidSignature))"

definition signature_to_string :: "xmss_lib \<Rightarrow> signature \<Rightarrow> string" where
  "signature_to_string X s = ''0x'' @ hex_encode X (sig_bytes s)"

definition signature_from_str :: "xmss_lib \<Rightarrow> string \<Rightarrow> signature res" where
  "signature_from_str X s =
     and_then (ok_or (hex_decode X (strip_0x s)) HexDecodeFailed) (signature_new X)"

section \<open>Signatures from JSON\<close>

text \<open>
  \<^verbatim>\<open>Signature::deserialize\<close> takes the fields of a signature as lists of 32-bit numbers and lays
  them out as SSZ: an offset, the fixed field rho, a second offset, then the two variable parts.
\<close>

record xmss_signature =
  siblings :: "u32 list list"
  rho :: "u32 list"
  hashes :: "u32 list list"

definition to_le_bytes :: "u32 \<Rightarrow> bytes" where
  "to_le_bytes v = map (\<lambda>i. ucast (drop_bit (8 * i) v)) [0..<4]"

definition words_bytes :: "u32 list \<Rightarrow> bytes" where
  "words_bytes vs = concat (map to_le_bytes vs)"

definition xmss_signature_bytes :: "xmss_signature \<Rightarrow> bytes" where
  "xmss_signature_bytes s =
     (let rho_bytes = words_bytes (rho s);
          path_bytes = to_le_bytes 4 @ concat (map words_bytes (siblings s));
          hashes_bytes = concat (map words_bytes (hashes s));
          fixed_part_size = 4 + length rho_bytes + 4;
          offset_path = (word_of_nat fixed_part_size :: u32);
          offset_hashes = offset_path + word_of_nat (length path_bytes) in
      to_le_bytes offset_path @ rho_bytes @ to_le_bytes offset_hashes @ path_bytes @ hashes_bytes)"

definition signature_deserialize :: "xmss_lib \<Rightarrow> xmss_signature \<Rightarrow> signature res" where
  "signature_deserialize X s = signature_new X (xmss_signature_bytes s)"

section \<open>Secret keys\<close>

definition secret_key_as_lean :: "xmss_lib \<Rightarrow> secret_key \<Rightarrow> bytes res" where
  "secret_key_as_lean X k =
     (if sk_decodes X (sk_bytes k) then Ok (sk_bytes k) else Panic BadEncoding)"

definition secret_key_sign :: "xmss_lib \<Rightarrow> secret_key \<Rightarrow> h256 \<Rightarrow> u32 \<Rightarrow> signature res" where
  "secret_key_sign X k message epoch =
     and_then (secret_key_as_lean X k) (\<lambda>sk.
     and_then (ok_or (lean_sign X sk epoch message) SigningFailed) signature_from_lean)"

definition secret_key_try_from :: "xmss_lib \<Rightarrow> bytes \<Rightarrow> secret_key res" where
  "secret_key_try_from X bs = (if sk_decodes X bs then Ok (SecretKey bs) else Err DecodeFailed)"

section \<open>Aggregated signatures\<close>

definition aggregated_signature_size_limit :: nat where
  "aggregated_signature_size_limit = 1048576"

definition byte_list_try_from :: "bytes \<Rightarrow> bytes res" where
  "byte_list_try_from bs =
     (if length bs \<le> aggregated_signature_size_limit then Ok bs else Err SignatureTooLarge)"

definition aggregated_signature_new :: "xmss_lib \<Rightarrow> bytes \<Rightarrow> aggregated_signature res" where
  "aggregated_signature_new X bs =
     and_then (byte_list_try_from bs) (\<lambda>bs.
     if agg_decodes X bs then Ok (AggregatedSignature bs) else Err DecodeFailed)"

definition aggregated_signature_as_lean :: "xmss_lib \<Rightarrow> aggregated_signature \<Rightarrow> bytes res" where
  "aggregated_signature_as_lean X a =
     (if agg_decodes X (as_bytes a) then Ok (as_bytes a) else Panic BadEncoding)"

definition aggregated_signature_aggregate ::
  "xmss_lib \<Rightarrow> public_key list \<Rightarrow> signature list \<Rightarrow> h256 \<Rightarrow> u32 \<Rightarrow> aggregated_signature res" where
  "aggregated_signature_aggregate X public_keys signatures message epoch =
     and_then (map_collect (public_key_as_lean X) public_keys) (\<lambda>pks.
     and_then (map_collect (signature_as_lean X) signatures) (\<lambda>sigs.
     if length pks \<noteq> length sigs then Err KeySignatureCountMismatch
     else
     and_then (ok_or (lean_aggregate X pks sigs message epoch) AggregationFailed) (\<lambda>bs.
     map_res AggregatedSignature (byte_list_try_from bs))))"

definition aggregated_signature_verify ::
  "xmss_lib \<Rightarrow> aggregated_signature \<Rightarrow> public_key list \<Rightarrow> h256 \<Rightarrow> u32 \<Rightarrow> unit res" where
  "aggregated_signature_verify X a public_keys message epoch =
     and_then (map_collect (public_key_as_lean X) public_keys) (\<lambda>pks.
     and_then (aggregated_signature_as_lean X a) (\<lambda>bs.
     if lean_verify_aggregate X pks message bs epoch then Ok () else Err AggregatedSignatureInvalid))"

definition aggregated_signature_to_string :: "xmss_lib \<Rightarrow> aggregated_signature \<Rightarrow> string" where
  "aggregated_signature_to_string X a = ''0x'' @ hex_encode X (as_bytes a)"

definition aggregated_signature_from_str :: "xmss_lib \<Rightarrow> string \<Rightarrow> aggregated_signature res" where
  "aggregated_signature_from_str X s =
     and_then (ok_or (hex_decode X (strip_0x s)) HexDecodeFailed) (aggregated_signature_new X)"

section \<open>Textual forms as a contract\<close>

text \<open>
  A textual form: printing yields the prefix \<^verbatim>\<open>0x\<close> and the hex digits of the bytes, parsing strips
  the prefix and validates the bytes.  The three key types share it.
\<close>

locale hex_text =
  fixes encode :: "bytes \<Rightarrow> string" and decode :: "string \<Rightarrow> bytes option"
    and raw :: "'k \<Rightarrow> bytes" and make :: "bytes \<Rightarrow> 'k res"
    and show_key :: "'k \<Rightarrow> string" and parse_key :: "string \<Rightarrow> 'k res"
  assumes show_key: "show_key k = ''0x'' @ encode (raw k)"
    and parse_key: "parse_key s = and_then (ok_or (decode (strip_0x s)) HexDecodeFailed) make"
begin

lemma parse_show:
  "decode (encode (raw k)) = Some (raw k) \<Longrightarrow> parse_key (show_key k) = make (raw k)"
  by (simp add: show_key parse_key strip_0x_def)

lemma parse_without_prefix:
  "decode s = Some bs \<Longrightarrow> take 2 s \<noteq> ''0x'' \<Longrightarrow> parse_key s = make bs"
  by (simp add: parse_key strip_0x_def)

end

interpretation pk: hex_text "hex_encode X" "hex_decode X" pk_bytes "public_key_new X"
  "public_key_to_string X" "public_key_from_str X" for X
  by unfold_locales (simp_all add: public_key_to_string_def public_key_from_str_def)

interpretation sg: hex_text "hex_encode X" "hex_decode X" sig_bytes "signature_new X"
  "signature_to_string X" "signature_from_str X" for X
  by unfold_locales (simp_all add: signature_to_string_def signature_from_str_def)

interpretation ag: hex_text "hex_encode X" "hex_decode X" as_bytes "aggregated_signature_new X"
  "aggregated_signature_to_string X" "aggregated_signature_from_str X" for X
  by unfold_locales (simp_all add: aggregated_signature_to_string_def aggregated_signature_from_str_def)

section \<open>Little-endian numbers\<close>

definition from_le_bytes :: "bytes \<Rightarrow> nat" where
  "from_le_bytes bs = foldr (\<lambda>b n. unat b + 256 * n) bs 0"

lemma length_to_le_bytes [simp]: "length (to_le_bytes v) = 4"
  by (simp add: to_le_bytes_def)

lemma base_256_digits:
  "(n :: nat) = a + 256 * p \<Longrightarrow> p = b + 256 * q \<Longrightarrow> q = c + 256 * r \<Longrightarrow> d = r \<Longrightarrow>
    a + 256 * (b + 256 * (c + 256 * d)) = n"
  by simp

lemma from_to_le_bytes: "from_le_bytes (to_le_bytes v) = unat v"
proof -
  have "unat (ucast x :: u8) = unat x mod 256" for x :: u32
    by (simp add: unsigned_ucast_eq take_bit_eq_mod)
  moreover have "unat (drop_bit (8 * i) v) = unat v div 256 ^ i" for i
    unfolding unat_drop_bit_eq by (simp add: drop_bit_eq_div power_mult)
  ultimately have b: "unat (ucast (drop_bit (8 * i) v) :: u8) = unat v div 256 ^ i mod 256" for i
    by simp
  have "unat v < 2 ^ LENGTH(32)" by (rule unsigned_less)
  then have "unat v div 16777216 mod 256 = unat v div 16777216" by simp
  moreover have "unat v = unat v mod 256 + 256 * (unat v div 256)" by simp
  moreover have "unat v div 256 = unat v div 256 mod 256 + 256 * (unat v div 65536)"
    using mult_div_mod_eq[of 256 "unat v div 256"] by (simp flip: div_mult2_eq)
  moreover have "unat v div 65536 = unat v div 65536 mod 256 + 256 * (unat v div 16777216)"
    using mult_div_mod_eq[of 256 "unat v div 65536"] by (simp flip: div_mult2_eq)
  ultimately have "unat v mod 256 + 256 * (unat v div 256 mod 256 + 256 * (unat v div 65536 mod 256 +
      256 * (unat v div 16777216 mod 256))) = unat v"
    using base_256_digits by metis
  then show ?thesis
    using b[of 0] b[of 1] b[of 2] b[of 3] by (simp add: to_le_bytes_def from_le_bytes_def upt_rec)
qed

lemma length_words_bytes [simp]: "length (words_bytes vs) = 4 * length vs"
  by (induction vs) (simp_all add: words_bytes_def)

text \<open>The fields of the layout, read back through its offsets.\<close>

definition read_offset :: "nat \<Rightarrow> bytes \<Rightarrow> nat" where
  "read_offset i bs = from_le_bytes (take 4 (drop i bs))"


definition sample_lib :: xmss_lib where
  "sample_lib =
     \<lparr>pk_decodes = (\<lambda>bs. length bs = 52), sk_decodes = (\<lambda>bs. True),
      sig_decodes = (\<lambda>bs. length bs = 3112), agg_decodes = (\<lambda>bs. True),
      lean_sign = (\<lambda>sk epoch message. Some (replicate 3112 0)),
      lean_verify = (\<lambda>pk epoch message sig. True),
      lean_aggregate = (\<lambda>pks sigs message epoch. Some []),
      lean_verify_aggregate = (\<lambda>pks message bs epoch. True),
      hex_encode = map (\<lambda>b. char_of (unat b)), hex_decode = (\<lambda>s. Some (map (\<lambda>c. word_of_nat (of_char c)) s))\<rparr>"

lemma sample_hex: "hex_decode sample_lib (hex_encode sample_lib bs) = Some bs"
proof -
  have "word_of_nat (of_char (char_of (unat b) :: char)) = b" for b :: u8
  proof -
    have "unat b < 2 ^ LENGTH(8)" by (rule unsigned_less)
    then show ?thesis by simp
  qed
  then show ?thesis by (simp add: sample_lib_def comp_def)
qed

section \<open>Properties\<close>

text \<open>
  Printing a key or signature and parsing the result gives it back, for public keys,
  signatures and aggregated signatures that the library accepts, given that hex decoding inverts
  hex encoding.
\<close>

lemma key_text_roundtrip:
  assumes "\<And>bs. hex_decode X (hex_encode X bs) = Some bs"
    and "pk_decodes X (pk_bytes k)" and "length (pk_bytes k) = 52"
    and "sig_decodes X (sig_bytes s)" and "length (sig_bytes s) = 3112"
    and "agg_decodes X (as_bytes a)" and "length (as_bytes a) \<le> aggregated_signature_size_limit"
  shows "public_key_from_str X (public_key_to_string X k) = Ok k \<and>
    signature_from_str X (signature_to_string X s) = Ok s \<and>
    aggregated_signature_from_str X (aggregated_signature_to_string X a) = Ok a"
  using assms(2-)
  by (simp add: pk.parse_show[OF assms(1)] sg.parse_show[OF assms(1)] ag.parse_show[OF assms(1)]
      public_key_new_def signature_new_def aggregated_signature_new_def byte_list_try_from_def)

text \<open>
  The SSZ bytes that \<^verbatim>\<open>Signature::deserialize\<close> builds from JSON have a sound layout.  The first
  offset points at the path, which starts with the inner offset 4, the second one at the hashes, rho
  follows the first offset, and the parts fill the bytes without a gap.
\<close>

theorem signature_layout:
  assumes "length (xmss_signature_bytes s) < 2 ^ 32"
  defines "bs \<equiv> xmss_signature_bytes s"
  shows "take (4 * length (rho s)) (drop 4 bs) = words_bytes (rho s) \<and>
    drop (read_offset 0 bs) bs =
      to_le_bytes 4 @ concat (map words_bytes (siblings s)) @ concat (map words_bytes (hashes s)) \<and>
    drop (read_offset (4 + 4 * length (rho s)) bs) bs = concat (map words_bytes (hashes s))"
proof (intro conjI)
  let ?path = "to_le_bytes 4 @ concat (map words_bytes (siblings s))"
  let ?fixed = "4 + 4 * length (rho s) + 4"
  define o1 o2 where "o1 = (word_of_nat ?fixed :: u32)" and "o2 = o1 + word_of_nat (length ?path)"
  have bs: "bs = to_le_bytes o1 @ words_bytes (rho s) @ to_le_bytes o2 @ ?path @
      concat (map words_bytes (hashes s))"
    by (simp add: bs_def xmss_signature_bytes_def Let_def o1_def o2_def)
  have len: "?fixed + length ?path < 2 ^ 32" using assms(1) unfolding bs_def[symmetric] bs by simp
  then have 1: "unat o1 = ?fixed" unfolding o1_def unat_of_nat by simp
  have "o2 = word_of_nat (?fixed + length ?path)" by (simp add: o2_def o1_def)
  with len have 2: "unat o2 = ?fixed + length ?path" by (simp only: unat_of_nat) simp
  have r: "read_offset 0 bs = ?fixed" "read_offset (4 + 4 * length (rho s)) bs = ?fixed + length ?path"
    by (simp_all add: read_offset_def bs from_to_le_bytes 1 2)
  show "take (4 * length (rho s)) (drop 4 bs) = words_bytes (rho s)" by (simp add: bs)
  show "drop (read_offset 0 bs) bs =
      to_le_bytes 4 @ concat (map words_bytes (siblings s)) @ concat (map words_bytes (hashes s))"
    unfolding r by (simp add: bs)
  show "drop (read_offset (4 + 4 * length (rho s)) bs) bs = concat (map words_bytes (hashes s))"
    unfolding r by (simp add: bs)
qed


theorem signature_layout_witness:
  "drop (read_offset 0 (xmss_signature_bytes \<lparr>siblings = [[1, 2]], rho = [3], hashes = [[4], [5]]\<rparr>))
     (xmss_signature_bytes \<lparr>siblings = [[1, 2]], rho = [3], hashes = [[4], [5]]\<rparr>) =
   to_le_bytes 4 @ concat (map words_bytes [[1, 2]]) @ concat (map words_bytes [[4], [5]])"
  using signature_layout[of "\<lparr>siblings = [[1, 2]], rho = [3], hashes = [[4], [5]]\<rparr>"]
  by (simp add: xmss_signature_bytes_def Let_def)

end
