(* ===== verification/Block_Building.thy ===== *)
theory Block_Building
  imports State_Properties Xmss
begin

text \<open>
  Signature checks of blocks (\<^verbatim>\<open>containers/src/block.rs\<close>), the proofs of
  \<^verbatim>\<open>AggregatedSignatureProof\<close>, and block production (\<^verbatim>\<open>State::build_block\<close> and
  \<^verbatim>\<open>State::compute_aggregated_signatures\<close>).  A block that \<open>build_block\<close> returns is accepted by
  \<open>state_transition\<close> with the same post-state; when the attesters of some data are known partly from gossip and
  partly from proofs, \<open>build_block\<close> emits that data twice and fails.

  The element that iterating over the \<^verbatim>\<open>HashSet\<close> of uncovered validators yields first is
  unspecified: it is the argument \<open>first_of\<close>.
\<close>

section \<open>Aggregated proofs\<close>

definition proof_aggregate ::
  "xmss_lib \<Rightarrow> aggregation_bits \<Rightarrow> public_key list \<Rightarrow> signature list \<Rightarrow> h256 \<Rightarrow> u32 \<Rightarrow>
   aggregated_signature_proof res" where
  "proof_aggregate X bits public_keys signatures message epoch =
     map_res (\<lambda>data. \<lparr>participants = bits, proof_data = data\<rparr>)
       (aggregated_signature_aggregate X public_keys signatures message epoch)"

definition proof_verify ::
  "xmss_lib \<Rightarrow> aggregated_signature_proof \<Rightarrow> public_key list \<Rightarrow> h256 \<Rightarrow> u32 \<Rightarrow> unit res" where
  "proof_verify X p public_keys message epoch =
     aggregated_signature_verify X (proof_data p) public_keys message epoch"

section \<open>Signatures of a block\<close>

text \<open>\<^verbatim>\<open>context\<close> replaces the error; the cause chain is not modelled.\<close>

definition context_err :: "'a res \<Rightarrow> lean_error \<Rightarrow> 'a res" where
  "context_err r e = (case r of Err _ \<Rightarrow> Err e | _ \<Rightarrow> r)"

definition verify_attestation_proof ::
  "xmss_lib \<Rightarrow> ssz_root \<Rightarrow> validator list \<Rightarrow> aggregated_attestation \<times> aggregated_signature_proof \<Rightarrow>
   unit res" where
  "verify_attestation_proof X H vs = (\<lambda>(a, p).
     and_then (to_validator_indices (aa_bits a)) (\<lambda>validator_ids.
     if \<not> list_all (\<lambda>i. i < word_of_nat (length vs)) validator_ids then Err ValidatorIndexOutOfRange
     else
     and_then (map_collect (\<lambda>i. map_res pubkey (plist_get vs i)) validator_ids) (\<lambda>public_keys.
     context_err
       (proof_verify X p public_keys (root_data H (aa_data a)) (slot_epoch (ad_slot (aa_data a))))
       AggregatedSignatureInvalid)))"

definition verify_signatures ::
  "xmss_lib \<Rightarrow> ssz_root \<Rightarrow> signed_block_with_attestation \<Rightarrow> state \<Rightarrow> unit res" where
  "verify_signatures X H sb parent_state =
     (let atts = attestations (b_body (bwa_block (sb_message sb)));
          sigs = attestation_signatures (sb_signature sb);
          vs = validators parent_state;
          proposer_attestation = bwa_proposer_attestation (sb_message sb);
          proposer_id = att_validator_id proposer_attestation in
      if length atts \<noteq> length sigs then Err AttestationSignatureCountMismatch
      else
      and_then (for_each (\<lambda>ap _. verify_attestation_proof X H vs ap) (zip atts sigs) ()) (\<lambda>_.
      if \<not> proposer_id < word_of_nat (length vs) then Err ProposerIndexOutOfRange
      else
      and_then (context_err (plist_get vs proposer_id) ProposerNotFound) (\<lambda>proposer.
      context_err
        (signature_verify X (proposer_signature (sb_signature sb)) (pubkey proposer)
           (slot_epoch (ad_slot (att_data proposer_attestation)))
           (root_data H (att_data proposer_attestation)))
        ProposerSignatureInvalid)))"

section \<open>Collecting signatures\<close>

type_synonym gossip_map = "(signature_key, signature) hmap"
type_synonym payload_map = "(signature_key, aggregated_signature_proof list) hmap"
type_synonym collected = "(aggregated_attestation \<times> aggregated_signature_proof) list"

text \<open>\<^verbatim>\<open>max_by_key\<close> returns the last of several maximal elements.\<close>

fun max_by_key :: "('a \<Rightarrow> nat) \<Rightarrow> 'a list \<Rightarrow> 'a option" where
  "max_by_key key [] = None"
| "max_by_key key (x # xs) =
     Some (fold (\<lambda>y best. if key best \<le> key y then y else best) xs x)"

text \<open>Phase 1: the validators with a signature from gossip, the keys of these, and the rest.\<close>

fun gossip_collection ::
  "validator list \<Rightarrow> h256 \<Rightarrow> gossip_map \<Rightarrow> u64 list \<Rightarrow>
   (signature list \<times> public_key list \<times> u64 list \<times> u64 set) res" where
  "gossip_collection vs data_root sigs [] = Ok ([], [], [], {})"
| "gossip_collection vs data_root sigs (vid # vids) =
     (case hm_get sigs (signature_key_new vid data_root) of
        Some sig \<Rightarrow>
          and_then (context_err (map_res pubkey (plist_get vs vid)) InvalidValidatorId) (\<lambda>key.
          map_res (\<lambda>(ss, ks, ids, remaining). (sig # ss, key # ks, vid # ids, remaining))
            (gossip_collection vs data_root sigs vids))
      | None \<Rightarrow>
          map_res (\<lambda>(ss, ks, ids, remaining). (ss, ks, ids, insert vid remaining))
            (gossip_collection vs data_root sigs vids))"

text \<open>Phase 2: one proof after the other, each the candidate that covers most of the rest.\<close>

definition coverage ::
  "u64 set \<Rightarrow> aggregated_signature_proof \<Rightarrow> (aggregated_signature_proof \<times> u64 set) res" where
  "coverage remaining p = map_res (\<lambda>ids. (p, remaining \<inter> set ids)) (get_participant_indices p)"

lemma fold_max_in_set: "fold (\<lambda>y best. if (key best :: nat) \<le> key y then y else best) xs x \<in> insert x (set xs)"
  by (induction xs arbitrary: x) auto

lemma max_by_key_in: "max_by_key key xs = Some x \<Longrightarrow> x \<in> set xs"
  using fold_max_in_set by (cases xs) fastforce+

lemma coverage_collect_subset:
  assumes "map_collect (coverage remaining) ps = Ok cs" and "(p, c) \<in> set cs"
  shows "c \<subseteq> remaining" and "p \<in> set ps" and "\<exists>ids. get_participant_indices p = Ok ids"
proof -
  obtain i where i: "i < length cs" "cs ! i = (p, c)" using assms(2) by (auto simp: in_set_conv_nth)
  then have "i < length ps" "coverage remaining (ps ! i) = Ok (p, c)"
    using assms(1) by (auto simp: map_collect_Ok list_all2_conv_all_nth)
  then show "c \<subseteq> remaining" "p \<in> set ps" "\<exists>ids. get_participant_indices p = Ok ids"
    by (auto simp: coverage_def)
qed

lemma cover_decreases:
  fixes remaining :: "u64 set"
  assumes "map_collect (coverage remaining) ps = Ok cs" and "max_by_key key cs = Some best" and "snd best \<noteq> {}"
  shows "card (remaining - snd best) < card remaining"
proof -
  have "snd best \<subseteq> remaining"
    using coverage_collect_subset(1)[OF assms(1), of "fst best" "snd best"] max_by_key_in[OF assms(2)] by simp
  with assms(3) have "remaining - snd best \<subset> remaining" by blast
  then show ?thesis by (simp add: psubset_card_mono)
qed

function greedy_cover ::
  "(u64 set \<Rightarrow> u64) \<Rightarrow> payload_map option \<Rightarrow> attestation_data \<Rightarrow> h256 \<Rightarrow> u64 set \<Rightarrow> collected \<Rightarrow>
   collected res" where
  "greedy_cover first_of payloads data data_root remaining results =
     (case payloads of
        None \<Rightarrow> Ok results
      | Some payloads' \<Rightarrow>
          if remaining = {} then Ok results
          else
          (case hm_get payloads' (signature_key_new (first_of remaining) data_root) of
             None \<Rightarrow> Ok results
           | Some candidates \<Rightarrow>
               if candidates = [] then Ok results
               else
               and_then (map_collect (coverage remaining) candidates) (\<lambda>cs.
               and_then (ok_or (max_by_key (\<lambda>(_, c). card c) cs) CandidatesEmpty) (\<lambda>best.
               if snd best = {} then Ok results
               else
               and_then (get_participant_indices (fst best)) (\<lambda>covered_validators.
               and_then (from_validator_indices covered_validators) (\<lambda>bits.
               greedy_cover first_of payloads data data_root (remaining - snd best)
                 (results @ [(\<lparr>aa_bits = bits, aa_data = data\<rparr>, fst best)])))))))"
  by pat_completeness auto
termination
  by (relation "measure (\<lambda>(first_of, payloads, data, data_root, remaining, results). card remaining)")
     (auto intro: cover_decreases)

declare greedy_cover.simps [simp del]

definition aggregate_group ::
  "(u64 set \<Rightarrow> u64) \<Rightarrow> xmss_lib \<Rightarrow> ssz_root \<Rightarrow> state \<Rightarrow> gossip_map option \<Rightarrow> payload_map option \<Rightarrow>
   aggregated_attestation \<Rightarrow> collected \<Rightarrow> collected res" where
  "aggregate_group first_of X H st gossip_signatures payloads aggregated results =
     (let data = aa_data aggregated; data_root = root_data H data in
      and_then (to_validator_indices (aa_bits aggregated)) (\<lambda>validator_ids.
      and_then (case gossip_signatures of
                  Some sigs \<Rightarrow> gossip_collection (validators st) data_root sigs validator_ids
                | None \<Rightarrow> Ok ([], [], [], set validator_ids))
        (\<lambda>(gossip_sigs, gossip_keys, gossip_ids, remaining).
      and_then (if gossip_ids = [] then Ok results
                else
                  and_then (from_validator_indices gossip_ids) (\<lambda>bits.
                  map_res (\<lambda>p. results @ [(\<lparr>aa_bits = bits, aa_data = data\<rparr>, p)])
                    (proof_aggregate X bits gossip_keys gossip_sigs data_root (slot_epoch (ad_slot data)))))
        (\<lambda>results. greedy_cover first_of payloads data data_root remaining results))))"

definition compute_aggregated_signatures ::
  "(u64 set \<Rightarrow> u64) \<Rightarrow> xmss_lib \<Rightarrow> ssz_root \<Rightarrow> state \<Rightarrow> attestation list \<Rightarrow> gossip_map option \<Rightarrow>
   payload_map option \<Rightarrow> (aggregated_attestation list \<times> aggregated_signature_proof list) res" where
  "compute_aggregated_signatures first_of X H st atts gossip_signatures payloads =
     and_then (aggregate_by_data atts) (\<lambda>groups.
     and_then (for_each (aggregate_group first_of X H st gossip_signatures payloads) groups []) (\<lambda>results.
     Ok (map fst results, map snd results)))"

section \<open>Building a block\<close>

definition candidate_block :: "slot \<Rightarrow> u64 \<Rightarrow> h256 \<Rightarrow> aggregated_attestation list \<Rightarrow> block res" where
  "candidate_block s proposer_index parent_root aggregated =
     map_res (\<lambda>as. \<lparr>b_slot = s, b_proposer_index = proposer_index, b_parent_root = parent_root,
                    b_state_root = 0, b_body = \<lparr>attestations = as\<rparr>\<rparr>)
       (plist_try_from_iter validator_registry_limit aggregated)"

text \<open>The attestations one round of the loop adds.\<close>

definition includable ::
  "ssz_root \<Rightarrow> h256 set \<Rightarrow> gossip_map option \<Rightarrow> payload_map option \<Rightarrow> state \<Rightarrow> attestation list \<Rightarrow>
   attestation \<Rightarrow> bool" where
  "includable H known gossip_signatures payloads post_state atts a =
     (let data = att_data a; sig_key = signature_key_new (att_validator_id a) (root_data H data) in
      cp_root (ad_head data) \<in> known \<and>
      ad_source data = st_latest_justified post_state \<and>
      a \<notin> set atts \<and>
      ((case gossip_signatures of Some sigs \<Rightarrow> hm_contains_key sigs sig_key | None \<Rightarrow> False) \<or>
       (case payloads of Some p \<Rightarrow> hm_contains_key p sig_key | None \<Rightarrow> False)))"

lemma collect_decreases:
  assumes "filter (includable H known g p post atts) available \<noteq> []"
  shows "card (set available - set (atts @ filter (includable H known g p post atts) available))
    < card (set available - set atts)"
proof -
  obtain a where "a \<in> set available" "includable H known g p post atts a"
    using assms by (auto simp: filter_empty_conv)
  then have "set available - set (atts @ filter (includable H known g p post atts) available)
      \<subset> set available - set atts"
    by (auto simp: includable_def Let_def)
  then show ?thesis by (simp add: psubset_card_mono)
qed

function collect_attestations ::
  "ssz_root \<Rightarrow> state \<Rightarrow> slot \<Rightarrow> u64 \<Rightarrow> h256 \<Rightarrow> attestation list option \<Rightarrow> h256 set option \<Rightarrow>
   gossip_map option \<Rightarrow> payload_map option \<Rightarrow> attestation list \<Rightarrow> attestation list res" where
  "collect_attestations H st s proposer_index parent_root available known gossip_signatures payloads atts =
     and_then (aggregate_by_data atts) (\<lambda>aggregated.
     and_then (candidate_block s proposer_index parent_root aggregated) (\<lambda>candidate.
     and_then (process_slots H st s) (\<lambda>st1.
     and_then (process_block H st1 candidate) (\<lambda>post_state.
     case (available, known) of
       (Some available', Some known') \<Rightarrow>
         (let new_attestations =
            filter (includable H known' gossip_signatures payloads post_state atts) available' in
          if new_attestations = [] then Ok atts
          else collect_attestations H st s proposer_index parent_root available known
                 gossip_signatures payloads (atts @ new_attestations))
     | _ \<Rightarrow> Ok atts))))"
  by pat_completeness auto
termination
  by (relation "measure (\<lambda>(H, st, s, i, r, available, known, g, p, atts).
        card (set (case available of None \<Rightarrow> [] | Some as \<Rightarrow> as) - set atts))")
     (auto dest: collect_decreases)

declare collect_attestations.simps [simp del]

definition build_block ::
  "(u64 set \<Rightarrow> u64) \<Rightarrow> xmss_lib \<Rightarrow> ssz_root \<Rightarrow> state \<Rightarrow> slot \<Rightarrow> u64 \<Rightarrow> h256 \<Rightarrow>
   attestation list option \<Rightarrow> attestation list option \<Rightarrow> h256 set option \<Rightarrow> gossip_map option \<Rightarrow>
   payload_map option \<Rightarrow>
   (block \<times> state \<times> aggregated_attestation list \<times> aggregated_signature_proof list) res" where
  "build_block first_of X H st s proposer_index parent_root initial_attestations available_attestations
     known_block_roots gossip_signatures payloads =
     and_then (collect_attestations H st s proposer_index parent_root available_attestations
                 known_block_roots gossip_signatures payloads
                 (case initial_attestations of None \<Rightarrow> [] | Some as \<Rightarrow> as)) (\<lambda>atts.
     and_then (compute_aggregated_signatures first_of X H st atts gossip_signatures payloads)
       (\<lambda>(aggregated, proofs).
     and_then (candidate_block s proposer_index parent_root aggregated) (\<lambda>final_block.
     and_then (process_slots H st s) (\<lambda>st1.
     and_then (process_block H st1 final_block) (\<lambda>post_state.
     Ok (final_block\<lparr>b_state_root := root_state H post_state\<rparr>, post_state, aggregated, proofs))))))"


section \<open>What is collected\<close>

lemma from_validator_indices_inv:
  assumes "from_validator_indices ids = Ok bits"
  shows "ids \<noteq> []" and "set (set_bit_indices bits) = set ids"
proof -
  show ne: "ids \<noteq> []" using assms by (auto simp: from_validator_indices_def)
  then obtain i "is" where ids: "ids = i # is" by (cases ids) auto
  from assms have "fold max is i < word_of_nat validator_registry_limit"
    by (auto simp: ids from_validator_indices_def Let_def split: if_splits)
  then have "\<forall>j \<in> set ids. unat j < 4096"
    using fold_max_ge[of i "is"]
    by (auto simp: ids word_nat validator_registry_limit_def intro: le_less_trans)
  from from_validator_indices_ids[OF ne this] assms show "set (set_bit_indices bits) = set ids" by auto
qed

text \<open>Each collected attestation names the validators of its proof, and at least one.\<close>

definition matches_proof :: "aggregated_attestation \<times> aggregated_signature_proof \<Rightarrow> bool" where
  "matches_proof ap \<longleftrightarrow> set_bit_indices (aa_bits (fst ap)) \<noteq> [] \<and>
     set (set_bit_indices (aa_bits (fst ap))) = set (set_bit_indices (participants (snd ap)))"

text \<open>A round of phase 2 either ends the search or appends the best candidate and goes on.\<close>

lemma greedy_cover_Ok_cases:
  assumes "greedy_cover first_of payloads data data_root remaining results = Ok results'"
  obtains (Stop) "results' = results"
      and "\<And>payloads' candidates. payloads = Some payloads' \<Longrightarrow> remaining \<noteq> {} \<Longrightarrow>
        hm_get payloads' (signature_key_new (first_of remaining) data_root) = Some candidates \<Longrightarrow> candidates \<noteq> [] \<Longrightarrow>
        \<exists>cs best. map_collect (coverage remaining) candidates = Ok cs \<and>
          max_by_key (\<lambda>(_, c). card c) cs = Some best \<and> snd best = {}"
    | (Cover) payloads' candidates cs best ids bits where "payloads = Some payloads'" and "remaining \<noteq> {}"
      and "hm_get payloads' (signature_key_new (first_of remaining) data_root) = Some candidates"
      and "candidates \<noteq> []" and "map_collect (coverage remaining) candidates = Ok cs"
      and "ok_or (max_by_key (\<lambda>(_, c). card c) cs) CandidatesEmpty = Ok best" and "snd best \<noteq> {}"
      and "get_participant_indices (fst best) = Ok ids" and "from_validator_indices ids = Ok bits"
      and "greedy_cover first_of payloads data data_root (remaining - snd best)
        (results @ [(\<lparr>aa_bits = bits, aa_data = data\<rparr>, fst best)]) = Ok results'"
proof (cases "results' = results \<and> (\<forall>payloads' candidates. payloads = Some payloads' \<longrightarrow> remaining \<noteq> {} \<longrightarrow>
    hm_get payloads' (signature_key_new (first_of remaining) data_root) = Some candidates \<longrightarrow> candidates \<noteq> [] \<longrightarrow>
    (\<exists>cs best. map_collect (coverage remaining) candidates = Ok cs \<and>
      max_by_key (\<lambda>(_, c). card c) cs = Some best \<and> snd best = {}))")
  case True
  then show ?thesis by (intro Stop) blast+
next
  case False
  note eq = assms[unfolded greedy_cover.simps[of first_of payloads data data_root remaining results]]
  from eq False obtain payloads' candidates where p: "payloads = Some payloads'" and r: "remaining \<noteq> {}"
    and c: "hm_get payloads' (signature_key_new (first_of remaining) data_root) = Some candidates" "candidates \<noteq> []"
    by (auto split: option.splits if_splits)
  from eq p r c obtain cs best where cs: "map_collect (coverage remaining) candidates = Ok cs"
    and best: "ok_or (max_by_key (\<lambda>(_, c). card c) cs) CandidatesEmpty = Ok best"
    by auto
  with eq False p r c have ne: "snd best \<noteq> {}" by (cases best) auto
  with eq p r c cs best obtain ids bits where "get_participant_indices (fst best) = Ok ids"
    and "from_validator_indices ids = Ok bits"
    and "greedy_cover first_of payloads data data_root (remaining - snd best)
      (results @ [(\<lparr>aa_bits = bits, aa_data = data\<rparr>, fst best)]) = Ok results'"
    by auto
  from Cover[OF p r c cs best ne this] show ?thesis .
qed

lemma greedy_cover_matches:
  assumes "greedy_cover first_of payloads data data_root remaining results = Ok results'"
    and "list_all matches_proof results"
  shows "list_all matches_proof results'"
  using assms
proof (induction first_of payloads data data_root remaining results arbitrary: results' rule: greedy_cover.induct)
  case (1 first_of payloads data data_root remaining results)
  from 1(2) show ?case
  proof (cases rule: greedy_cover_Ok_cases)
    case (Cover payloads' candidates cs best ids bits)
    have "matches_proof (\<lparr>aa_bits = bits, aa_data = data\<rparr>, fst best)"
      using from_validator_indices_inv[OF Cover(9)] Cover(8)
      by (auto simp: matches_proof_def get_participant_indices_def to_validator_indices_def Let_def
          split: if_splits)
    with "1.IH"[OF Cover] 1(3) show ?thesis by simp
  qed (use 1 in simp)
qed

lemma aggregate_group_matches:
  assumes "aggregate_group first_of X H st g payloads a results = Ok results'"
    and "list_all matches_proof results"
  shows "list_all matches_proof results'"
proof -
  from assms(1) obtain ids sigs keys gids remaining mid where
    mid: "(if gids = [] then Ok results
           else and_then (from_validator_indices gids) (\<lambda>bits.
             map_res (\<lambda>p. results @ [(\<lparr>aa_bits = bits, aa_data = aa_data a\<rparr>, p)])
               (proof_aggregate X bits keys sigs (root_data H (aa_data a)) (slot_epoch (ad_slot (aa_data a)))))) =
          Ok mid"
    and rest: "greedy_cover first_of payloads (aa_data a) (root_data H (aa_data a)) remaining mid = Ok results'"
    unfolding aggregate_group_def Let_def and_then_Ok case_prod_unfold by blast
  have "list_all matches_proof mid"
  proof (cases "gids = []")
    case False
    with mid obtain bits d where bits: "from_validator_indices gids = Ok bits"
      and "mid = results @ [(\<lparr>aa_bits = bits, aa_data = aa_data a\<rparr>, \<lparr>participants = bits, proof_data = d\<rparr>)]"
      by (auto simp: proof_aggregate_def)
    with from_validator_indices_inv[OF bits] assms(2) show ?thesis by (auto simp: matches_proof_def)
  qed (use mid assms(2) in simp)
  with greedy_cover_matches[OF rest] show ?thesis by simp
qed

lemma compute_aggregated_signatures_matches:
  assumes "compute_aggregated_signatures first_of X H st atts g payloads = Ok (aggs, proofs)"
  shows "length aggs = length proofs" and "\<forall>ap \<in> set (zip aggs proofs). matches_proof ap"
proof -
  from assms obtain groups results where
    r: "for_each (aggregate_group first_of X H st g payloads) groups [] = Ok results"
    and eq: "aggs = map fst results" "proofs = map snd results"
    by (auto simp: compute_aggregated_signatures_def)
  show "length aggs = length proofs" by (simp add: eq)
  have "list_all matches_proof results"
    by (rule for_each_invariant[OF r, where P = "list_all matches_proof"])
       (auto intro: aggregate_group_matches)
  then show "\<forall>ap \<in> set (zip aggs proofs). matches_proof ap"
    by (simp add: eq zip_map_fst_snd list_all_iff)
qed

text \<open>The state root of a block plays no part in processing it.\<close>

lemma process_block_state_root: "process_block H st (b\<lparr>b_state_root := r\<rparr>) = process_block H st b"
proof -
  have "process_block_header H st (b\<lparr>b_state_root := r\<rparr>) = process_block_header H st b"
    by (simp add: process_block_header_def cong: if_cong)
  then show ?thesis by (simp add: process_block_def cong: if_cong)
qed

lemma map_collect_keys:
  "map_collect (public_key_as_lean X) ks = Ok bs \<longleftrightarrow>
    (\<forall>k \<in> set ks. pk_decodes X (pk_bytes k)) \<and> bs = map pk_bytes ks"
  by (induction ks arbitrary: bs) (auto simp: public_key_as_lean_def)

lemma context_err_Ok [simp]: "context_err r e = Ok a \<longleftrightarrow> r = Ok a"
  by (cases r) (auto simp: context_err_def)


section \<open>The same data twice\<close>

lemma fold_max_key_ge:
  "(key x :: nat) \<le> key (fold (\<lambda>y best. if key best \<le> key y then y else best) ys x) \<and>
   (\<forall>y \<in> set ys. key y \<le> key (fold (\<lambda>y best. if key best \<le> key y then y else best) ys x))"
proof (induction ys arbitrary: x)
  case (Cons y ys)
  from Cons[of "if key x \<le> key y then y else x"] show ?case by (auto split: if_splits)
qed simp

lemma max_by_key_ge: "max_by_key key xs = Some m \<Longrightarrow> x \<in> set xs \<Longrightarrow> key x \<le> key m"
  using fold_max_key_ge[of key] by (cases xs) auto

text \<open>Phase 1 splits the attesters by whether a signature is known from gossip.\<close>

lemma gossip_collection_split:
  assumes "gossip_collection vs r sigs vids = Ok (ss, ks, ids, remaining)"
  shows "set ids = {v \<in> set vids. hm_contains_key sigs (signature_key_new v r)}"
    and "remaining = {v \<in> set vids. \<not> hm_contains_key sigs (signature_key_new v r)}"
  using assms
  by (induction vids arbitrary: ss ks ids remaining)
     (auto simp: hm_contains_key_def split: option.splits)

text \<open>Phase 2 only appends, under the data of the group, and appends something when a candidate covers a validator.\<close>

lemma greedy_cover_appends:
  assumes "greedy_cover first_of payloads data data_root remaining results = Ok results'"
  shows "\<exists>extra. results' = results @ extra \<and> (\<forall>x \<in> set extra. aa_data (fst x) = data)"
  using assms
proof (induction first_of payloads data data_root remaining results arbitrary: results' rule: greedy_cover.induct)
  case (1 first_of payloads data data_root remaining results)
  from 1(2) show ?case
  proof (cases rule: greedy_cover_Ok_cases)
    case Stop
    then show ?thesis by simp
  next
    case (Cover payloads' candidates cs best ids bits)
    from "1.IH"[OF Cover] show ?thesis by fastforce
  qed
qed

lemma greedy_cover_nonempty:
  assumes "greedy_cover first_of (Some payloads) data data_root remaining results = Ok results'"
    and "u = first_of remaining" and "u \<in> remaining"
    and "hm_get payloads (signature_key_new u data_root) = Some ps" and "p \<in> set ps"
    and "u \<in> set (set_bit_indices (participants p))"
  shows "results' \<noteq> results"
  using assms(1)
proof (cases rule: greedy_cover_Ok_cases)
  case Stop
  from assms(3-5) have "remaining \<noteq> {}" "ps \<noteq> []" by auto
  with Stop(2)[OF HOL.refl, of ps] assms(2,4) obtain cs best where cs: "map_collect (coverage remaining) ps = Ok cs"
    and best: "max_by_key (\<lambda>(_, c). card c) cs = Some best" "snd best = {}" by blast
  have "get_participant_indices p = Ok (set_bit_indices (participants p))"
    using assms(6) by (auto simp: get_participant_indices_def to_validator_indices_def Let_def)
  then have "coverage remaining p = Ok (p, remaining \<inter> set (set_bit_indices (participants p)))"
    by (simp add: coverage_def map_res_def)
  then have "(p, remaining \<inter> set (set_bit_indices (participants p))) \<in> set cs"
    using cs assms(5) by (auto simp: map_collect_Ok list_all2_conv_all_nth in_set_conv_nth)
  from max_by_key_ge[OF best(1) this] best(2) have "remaining \<inter> set (set_bit_indices (participants p)) = {}"
    by (simp add: case_prod_beta)
  with assms(3,6) show ?thesis by blast
next
  case (Cover payloads' candidates cs best ids bits)
  from greedy_cover_appends[OF Cover(10)] show ?thesis by auto
qed

text \<open>
  What a group adds: with a signature from gossip for one attester and a proof for every attester without, at
  least two attestations of the group's data.
\<close>

lemma aggregate_group_appends:
  assumes "aggregate_group first_of X H st g payloads a results = Ok results'"
  shows "\<exists>extra. results' = results @ extra \<and> (\<forall>x \<in> set extra. aa_data (fst x) = aa_data a)"
proof -
  from assms obtain ss ks ids remaining mid where
    mid: "(if ids = [] then Ok results
           else and_then (from_validator_indices ids) (\<lambda>bits.
             map_res (\<lambda>p. results @ [(\<lparr>aa_bits = bits, aa_data = aa_data a\<rparr>, p)])
               (proof_aggregate X bits ks ss (root_data H (aa_data a)) (slot_epoch (ad_slot (aa_data a)))))) = Ok mid"
    and rest: "greedy_cover first_of payloads (aa_data a) (root_data H (aa_data a)) remaining mid = Ok results'"
    unfolding aggregate_group_def Let_def and_then_Ok case_prod_unfold by blast
  from mid have "\<exists>extra. mid = results @ extra \<and> (\<forall>x \<in> set extra. aa_data (fst x) = aa_data a)"
    by (auto split: if_splits)
  with greedy_cover_appends[OF rest] show ?thesis by auto
qed

lemma aggregate_group_twice:
  assumes run: "aggregate_group first_of X H st (Some sigs) (Some payloads) a results = Ok results'"
    and first: "\<And>R. R \<noteq> {} \<Longrightarrow> first_of R \<in> R"
    and v: "v \<in> set (set_bit_indices (aa_bits a))" "hm_contains_key sigs (signature_key_new v (root_data H (aa_data a)))"
    and w: "w \<in> set (set_bit_indices (aa_bits a))" "\<not> hm_contains_key sigs (signature_key_new w (root_data H (aa_data a)))"
    and cover: "\<And>u. u \<in> set (set_bit_indices (aa_bits a)) \<Longrightarrow>
      \<not> hm_contains_key sigs (signature_key_new u (root_data H (aa_data a))) \<Longrightarrow>
      \<exists>ps p. hm_get payloads (signature_key_new u (root_data H (aa_data a))) = Some ps \<and> p \<in> set ps \<and>
        u \<in> set (set_bit_indices (participants p))"
  shows "\<exists>x y extra. results' = results @ x # y # extra \<and> aa_data (fst x) = aa_data a \<and> aa_data (fst y) = aa_data a"
proof -
  let ?r = "root_data H (aa_data a)"
  from run obtain ss ks ids remaining mid where
    coll: "gossip_collection (validators st) ?r sigs (set_bit_indices (aa_bits a)) = Ok (ss, ks, ids, remaining)"
    and mid: "(if ids = [] then Ok results
           else and_then (from_validator_indices ids) (\<lambda>bits.
             map_res (\<lambda>p. results @ [(\<lparr>aa_bits = bits, aa_data = aa_data a\<rparr>, p)])
               (proof_aggregate X bits ks ss ?r (slot_epoch (ad_slot (aa_data a)))))) = Ok mid"
    and rest: "greedy_cover first_of (Some payloads) (aa_data a) ?r remaining mid = Ok results'"
    unfolding aggregate_group_def Let_def and_then_Ok case_prod_unfold option.case
    by (auto simp: to_validator_indices_def Let_def split: if_splits)
  note split = gossip_collection_split[OF coll]
  have "ids \<noteq> []" using v split(1) by auto
  with mid obtain x where x: "mid = results @ [x]" "aa_data (fst x) = aa_data a" by auto
  have "remaining \<noteq> {}" using w split(2) by auto
  from first[OF this] have u: "first_of remaining \<in> remaining" .
  with split(2) have "first_of remaining \<in> set (set_bit_indices (aa_bits a))"
    "\<not> hm_contains_key sigs (signature_key_new (first_of remaining) ?r)" by auto
  from cover[OF this] obtain ps p where "hm_get payloads (signature_key_new (first_of remaining) ?r) = Some ps"
    "p \<in> set ps" "first_of remaining \<in> set (set_bit_indices (participants p))" by blast
  from greedy_cover_nonempty[OF rest HOL.refl u this] greedy_cover_appends[OF rest]
  obtain y extra where "results' = mid @ y # extra" "aa_data (fst y) = aa_data a"
    by (metis append_Nil2 list.exhaust list.set_intros(1))
  with x show ?thesis by auto
qed

lemma groups_twice:
  assumes "for_each (aggregate_group first_of X H st g p) groups results = Ok results'" and "a \<in> set groups"
    and "\<And>rs rs'. aggregate_group first_of X H st g p a rs = Ok rs' \<Longrightarrow>
      \<exists>x y extra. rs' = rs @ x # y # extra \<and> aa_data (fst x) = d \<and> aa_data (fst y) = d"
  shows "has_duplicate_data H (map fst results')"
proof -
  obtain bef aft where groups: "groups = bef @ a # aft" using split_list[OF assms(2)] by blast
  with assms(1) obtain r1 r2 where r: "aggregate_group first_of X H st g p a r1 = Ok r2"
    and aft: "for_each (aggregate_group first_of X H st g p) aft r2 = Ok results'"
    by (auto simp: for_each_append)
  from assms(3)[OF r] obtain x y extra where xy: "r2 = r1 @ x # y # extra" "aa_data (fst x) = d" "aa_data (fst y) = d"
    by blast
  have "\<exists>t. results' = r2 @ t"
    by (rule for_each_invariant[OF aft, where P = "\<lambda>r. \<exists>t. r = r2 @ t"])
       (auto dest!: aggregate_group_appends)
  with xy show ?thesis by (auto simp: has_duplicate_data_iff)
qed

lemma aggregate_by_data_group:
  assumes "aggregate_by_data atts = Ok groups" and "\<lparr>att_validator_id = v, att_data = d\<rparr> \<in> set atts"
  obtains a where "a \<in> set groups" and "aa_data a = d"
    and "set (set_bit_indices (aa_bits a)) = {u. \<lparr>att_validator_id = u, att_data = d\<rparr> \<in> set atts}"
proof -
  have "(d, ids_for d atts) \<in> set (fold add_to_group atts [])"
    using assms(2) set_ids_for[of v d atts] by (auto simp: groups_mem)
  with assms(1) obtain a bits where a: "a \<in> set groups" "from_validator_indices (ids_for d atts) = Ok bits"
    "a = \<lparr>aa_bits = bits, aa_data = d\<rparr>"
    unfolding aggregate_by_data_def map_collect_Ok
    by (fastforce simp: list_all2_conv_all_nth in_set_conv_nth)
  moreover have "set (ids_for d atts) = {u. \<lparr>att_validator_id = u, att_data = d\<rparr> \<in> set atts}"
    by (auto simp: set_ids_for)
  ultimately show ?thesis using from_validator_indices_inv(2)[OF a(2)] that[of a] by simp
qed

lemma process_block_header_body:
  assumes "process_block_header H st b = Ok st'" and "b_slot c = b_slot b"
    and "b_proposer_index c = b_proposer_index b" and "b_parent_root c = b_parent_root b"
  shows "\<exists>st''. process_block_header H st c = Ok st''"
  using assms by (auto simp: process_block_header_def Let_def split: if_splits)

lemma collected_twice:
  assumes agg: "compute_aggregated_signatures first_of X H st atts (Some sigs) (Some payloads) = Ok (aggs, proofs)"
    and v: "\<lparr>att_validator_id = v, att_data = d\<rparr> \<in> set atts" "hm_contains_key sigs (signature_key_new v (root_data H d))"
    and w: "\<lparr>att_validator_id = w, att_data = d\<rparr> \<in> set atts" "\<not> hm_contains_key sigs (signature_key_new w (root_data H d))"
    and cover: "\<And>u. \<lparr>att_validator_id = u, att_data = d\<rparr> \<in> set atts \<Longrightarrow>
      \<not> hm_contains_key sigs (signature_key_new u (root_data H d)) \<Longrightarrow>
      \<exists>ps p. hm_get payloads (signature_key_new u (root_data H d)) = Some ps \<and> p \<in> set ps \<and>
        u \<in> set (set_bit_indices (participants p))"
    and first: "\<And>R. R \<noteq> {} \<Longrightarrow> first_of R \<in> R"
  shows "has_duplicate_data H aggs"
proof -
  from agg obtain groups results where groups: "aggregate_by_data atts = Ok groups"
    and run: "for_each (aggregate_group first_of X H st (Some sigs) (Some payloads)) groups [] = Ok results"
    and aggs: "aggs = map fst results"
    by (auto simp: compute_aggregated_signatures_def)
  obtain a where a: "a \<in> set groups" "aa_data a = d"
    "set (set_bit_indices (aa_bits a)) = {u. \<lparr>att_validator_id = u, att_data = d\<rparr> \<in> set atts}"
    by (rule aggregate_by_data_group[OF groups v(1)])
  show ?thesis unfolding aggs
    by (rule groups_twice[OF run a(1)], rule aggregate_group_twice[where a = a, unfolded a(2), OF _ first])
       (use a v w cover in auto)
qed

lemma candidate_block_attestations:
  assumes "candidate_block s i parent aggs = Ok b"
  shows "attestations (b_body b) = aggs" and "b_slot b = s" and "b_proposer_index b = i" and "b_parent_root b = parent"
  using assms by (auto simp: candidate_block_def plist_try_from_iter_def split: if_splits)

lemma collect_attestations_header:
  assumes "collect_attestations H st s i parent available known g p atts = Ok atts'"
    and "candidate_block s i parent aggs = Ok b"
  shows "\<exists>st1 st2. process_slots H st s = Ok st1 \<and> process_block_header H st1 b = Ok st2"
proof -
  from assms(1) obtain groups c st1 st2 where c: "candidate_block s i parent groups = Ok c"
    and run: "process_slots H st s = Ok st1" "process_block_header H st1 c = Ok st2"
    unfolding collect_attestations.simps[of H st s i parent available known g p atts]
    by (auto simp: process_block_def)
  from process_block_header_body[OF run(2)] candidate_block_attestations[OF c]
    candidate_block_attestations[OF assms(2)] run(1)
  show ?thesis by simp
qed

section \<open>Two attesters, one known from gossip, one from a block\<close>

definition lenient_lib :: xmss_lib where
  "lenient_lib = sample_lib\<lparr>pk_decodes := (\<lambda>_. True), sig_decodes := (\<lambda>_. True)\<rparr>"

definition shared_vote :: attestation_data where
  "shared_vote = aa_data (vote_for (checkpoint_at 129127595897592409212583936 0) (checkpoint_at sample_root_1 1) [])"

definition votes_by :: "u64 list \<Rightarrow> attestation list" where
  "votes_by = map (\<lambda>i. \<lparr>att_validator_id = i, att_data = shared_vote\<rparr>)"

definition gossip_from :: "u64 list \<Rightarrow> gossip_map" where
  "gossip_from = map (\<lambda>i. (signature_key_new i (root_data sample_root shared_vote), Signature []))"

definition proof_from_1 :: payload_map where
  "proof_from_1 = [(signature_key_new 1 (root_data sample_root shared_vote),
     [\<lparr>participants = [False, True], proof_data = AggregatedSignature []\<rparr>])]"

lemmas build_run = build_block_def collect_attestations.simps compute_aggregated_signatures_def
  aggregate_group_def greedy_cover.simps gossip_collection.simps coverage_def candidate_block_def
  includable_def aggregate_by_data_def from_validator_indices_def get_participant_indices_def
  proof_aggregate_def aggregated_signature_aggregate_def public_key_as_lean_def signature_as_lean_def
  byte_list_try_from_def aggregated_signature_size_limit_def signature_key_new_def context_err_def
  lenient_lib_def sample_lib_def shared_vote_def votes_by_def gossip_from_def proof_from_1_def

lemma sample_build:
  "\<exists>b post aggs proofs. build_block Min lenient_lib sample_root sample_state_1 2 2 sample_root_1 None
     (Some (votes_by [0, 1])) (Some {sample_root_1}) (Some (gossip_from [0, 1])) (Some proof_from_1) =
       Ok (b, post, aggs, proofs)"
  by (simp add: build_run run_simps sample_defs del: outcome_iffs cong: run_congs)

lemma build_block_transition:
  assumes "build_block first_of X H st s i parent initial available known g p = Ok (b, post, aggs, proofs)"
    and "bwa_block (sb_message sb) = b"
  shows "state_transition H st sb True = Ok post" and "b_parent_root b = parent" and "b_slot b = s"
    and "attestations (b_body b) = aggs"
proof -
  from assms(1) obtain fb st1 where fb: "candidate_block s i parent aggs = Ok fb"
    and run: "process_slots H st s = Ok st1" "process_block H st1 fb = Ok post"
    and b: "b = fb\<lparr>b_state_root := root_state H post\<rparr>"
    by (auto simp: build_block_def)
  from fb show bs: "b_slot b = s" "b_parent_root b = parent" "attestations (b_body b) = aggs"
    by (auto simp: candidate_block_def b)
  have "process_block H st1 b = Ok post" using run(2) by (simp add: b process_block_state_root)
  with run(1) bs(1) show "state_transition H st sb True = Ok post"
    by (simp add: state_transition_def assms(2)) (simp add: b)
qed

section \<open>Properties\<close>

text \<open>
  C7: a block that \<^verbatim>\<open>build_block\<close> returns is valid: the state transition accepts it on the state it
  was built on, with the post-state \<^verbatim>\<open>build_block\<close> reported.  Its body holds the returned
  attestations, one proof for each, every attestation has a participant, and its bits name the
  participants of its proof.
\<close>

theorem build_block_accepted:
  assumes "build_block first_of X H st s i parent initial available known g p = Ok (b, post, aggs, proofs)"
    and "bwa_block (sb_message sb) = b"
  shows "state_transition H st sb True = Ok post \<and> attestations (b_body b) = aggs \<and>
    length aggs = length proofs \<and>
    (\<forall>k < length aggs. set_bit_indices (aa_bits (aggs ! k)) \<noteq> [] \<and>
      set (set_bit_indices (aa_bits (aggs ! k))) = set (set_bit_indices (participants (proofs ! k))))"
proof (intro conjI)
  note built = build_block_transition[OF assms]
  from built(1) show "state_transition H st sb True = Ok post" .
  from built(4) show "attestations (b_body b) = aggs" .
  from assms(1) obtain atts where
    agg: "compute_aggregated_signatures first_of X H st atts g p = Ok (aggs, proofs)"
    by (auto simp: build_block_def)
  note m = compute_aggregated_signatures_matches[OF agg]
  show "length aggs = length proofs" by (fact m(1))
  show "\<forall>k < length aggs. set_bit_indices (aa_bits (aggs ! k)) \<noteq> [] \<and>
      set (set_bit_indices (aa_bits (aggs ! k))) = set (set_bit_indices (participants (proofs ! k)))"
    using m by (auto simp: matches_proof_def set_zip)
qed

theorem build_block_accepted_witness:
  "\<exists>b post. state_transition sample_root sample_state_1 (sealed b) True = Ok post \<and> b_slot b = 2"
proof -
  obtain b post aggs proofs where ok: "build_block Min lenient_lib sample_root sample_state_1 2 2 sample_root_1 None
     (Some (votes_by [0, 1])) (Some {sample_root_1}) (Some (gossip_from [0, 1])) (Some proof_from_1) =
       Ok (b, post, aggs, proofs)"
    using sample_build by blast
  have "bwa_block (sb_message (sealed b)) = b" by (simp add: sealed_def)
  note conjunct1[OF build_block_accepted[OF ok this]]
  moreover from ok have "b_slot b = 2" by (auto simp: build_block_def candidate_block_def)
  ultimately show ?thesis by blast
qed

text \<open>
  C35: block production fails on attestations whose signatures it knows in two ways.  Let the attestations it
  collected hold the votes of two validators for the same data, one with a signature from gossip and one
  without, and let every attester of that data without a signature from gossip be covered by a proof that is
  stored for it (proofs of earlier blocks are stored that way).  Then \<^verbatim>\<open>build_block\<close> returns no block: the
  signatures from gossip and the proofs give separate attestations of the same data, and if aggregation
  succeeds and their number is within the limit of the body, the error is the one for duplicate data.
\<close>

theorem build_block_duplicates:
  assumes "collect_attestations H st s i parent available known (Some sigs) (Some payloads)
      (case initial of None \<Rightarrow> [] | Some as \<Rightarrow> as) = Ok atts"
    and "\<lparr>att_validator_id = v, att_data = d\<rparr> \<in> set atts"
    and "hm_contains_key sigs (signature_key_new v (root_data H d))"
    and "\<lparr>att_validator_id = w, att_data = d\<rparr> \<in> set atts"
    and "\<not> hm_contains_key sigs (signature_key_new w (root_data H d))"
    and "\<forall>u. \<lparr>att_validator_id = u, att_data = d\<rparr> \<in> set atts \<and>
      \<not> hm_contains_key sigs (signature_key_new u (root_data H d)) \<longrightarrow>
      (\<exists>ps p. hm_get payloads (signature_key_new u (root_data H d)) = Some ps \<and> p \<in> set ps \<and>
        u \<in> set (set_bit_indices (participants p)))"
    and "\<forall>R. R \<noteq> {} \<longrightarrow> first_of R \<in> R"
  shows "(\<forall>r. build_block first_of X H st s i parent initial available known (Some sigs) (Some payloads) \<noteq> Ok r) \<and>
    (\<forall>aggs proofs. compute_aggregated_signatures first_of X H st atts (Some sigs) (Some payloads) = Ok (aggs, proofs) \<and>
        length aggs \<le> validator_registry_limit \<longrightarrow>
      build_block first_of X H st s i parent initial available known (Some sigs) (Some payloads) =
        Err DuplicateAttestationData)"
proof -
  let ?agg = "compute_aggregated_signatures first_of X H st atts (Some sigs) (Some payloads)"
  have dup: "has_duplicate_data H aggs" if agg: "?agg = Ok (aggs, proofs)" for aggs proofs
    using collected_twice[OF agg assms(2-5)] assms(6,7) by blast
  have "\<exists>st1 st2. process_slots H st s = Ok st1 \<and> process_block_header H st1 b = Ok st2"
    if "candidate_block s i parent aggs = Ok b" for b aggs
    using collect_attestations_header[OF assms(1) that] .
  then have block: "build_block first_of X H st s i parent initial available known (Some sigs) (Some payloads) =
      and_then (candidate_block s i parent aggs) (\<lambda>_. Err DuplicateAttestationData)"
    if "?agg = Ok (aggs, proofs)" for aggs proofs
    using dup[OF that] that
    by (cases "candidate_block s i parent aggs")
       (force simp: build_block_def assms(1) process_block_def candidate_block_attestations)+
  moreover have "build_block first_of X H st s i parent initial available known (Some sigs) (Some payloads) \<noteq> Ok r" for r
  proof
    assume ok: "build_block first_of X H st s i parent initial available known (Some sigs) (Some payloads) = Ok r"
    then obtain aggs proofs where "?agg = Ok (aggs, proofs)" by (auto simp: build_block_def assms(1))
    from block[OF this] ok show False by (cases "candidate_block s i parent aggs") simp_all
  qed
  ultimately show ?thesis by (auto simp: candidate_block_def plist_try_from_iter_def map_res_def)
qed

theorem build_block_duplicates_witness:
  "build_block Min lenient_lib sample_root sample_state_1 2 2 sample_root_1 None
     (Some (votes_by [0, 1])) (Some {sample_root_1}) (Some (gossip_from [0])) (Some proof_from_1) =
       Err DuplicateAttestationData"
proof -
  let ?in = "gossip_from [0]"
  have coll: "collect_attestations sample_root sample_state_1 2 2 sample_root_1 (Some (votes_by [0, 1]))
      (Some {sample_root_1}) (Some ?in) (Some proof_from_1) (case None of None \<Rightarrow> [] | Some as \<Rightarrow> as) =
      Ok (votes_by [0, 1])"
    by (simp add: build_run run_simps sample_defs del: outcome_iffs cong: run_congs)
  have agg: "\<exists>aggs proofs. compute_aggregated_signatures Min lenient_lib sample_root sample_state_1 (votes_by [0, 1])
      (Some ?in) (Some proof_from_1) = Ok (aggs, proofs) \<and> length aggs \<le> validator_registry_limit"
    by (simp add: build_run run_simps sample_defs validator_registry_limit_def del: outcome_iffs cong: run_congs)
  have keys: "\<lparr>att_validator_id = 0, att_data = shared_vote\<rparr> \<in> set (votes_by [0, 1])"
    "\<lparr>att_validator_id = 1, att_data = shared_vote\<rparr> \<in> set (votes_by [0, 1])"
    "hm_contains_key ?in (signature_key_new 0 (root_data sample_root shared_vote))"
    "\<not> hm_contains_key ?in (signature_key_new 1 (root_data sample_root shared_vote))"
    by (simp_all add: votes_by_def gossip_from_def hm_contains_key_def hm_get_def signature_key_new_def)
  have bit: "1 \<in> set (set_bit_indices [False, True])" by (simp add: set_bit_indices_def)
  have cover: "\<forall>u. \<lparr>att_validator_id = u, att_data = shared_vote\<rparr> \<in> set (votes_by [0, 1]) \<and>
      \<not> hm_contains_key ?in (signature_key_new u (root_data sample_root shared_vote)) \<longrightarrow>
      (\<exists>ps p. hm_get proof_from_1 (signature_key_new u (root_data sample_root shared_vote)) = Some ps \<and> p \<in> set ps \<and>
        u \<in> set (set_bit_indices (participants p)))"
    using keys(3) bit by (auto simp: votes_by_def proof_from_1_def hm_get_def signature_key_new_def)
  have first: "\<forall>R :: u64 set. R \<noteq> {} \<longrightarrow> Min R \<in> R" by simp
  from build_block_duplicates[OF coll keys(1,3,2,4) cover first] agg show ?thesis by blast
qed

text \<open>
  C25: what \<^verbatim>\<open>verify_signatures\<close> accepts.  Exactly the blocks with one proof per attestation, where
  every proof verifies under the keys of the validators its attestation names, all of them in the
  registry, and the proposer signed its own attestation with its registered key.  The verification by the library is
  part of every build: the \<^verbatim>\<open>xmss-verify\<close> feature that the doc comment makes it depend on does not exist.
\<close>

theorem verify_signatures_accepts:
  assumes "length (validators st) \<le> validator_registry_limit"
  defines "vs \<equiv> validators st"
  shows "verify_signatures X H sb st = Ok () \<longleftrightarrow>
    (let atts = attestations (b_body (bwa_block (sb_message sb)));
         sigs = attestation_signatures (sb_signature sb);
         a = bwa_proposer_attestation (sb_message sb);
         key = (\<lambda>i. pk_bytes (pubkey (vs ! unat i))) in
     length atts = length sigs \<and>
     (\<forall>(a, p) \<in> set (zip atts sigs).
        set_bit_indices (aa_bits a) \<noteq> [] \<and>
        (\<forall>i \<in> set (set_bit_indices (aa_bits a)). unat i < length vs \<and> pk_decodes X (key i)) \<and>
        agg_decodes X (as_bytes (proof_data p)) \<and>
        lean_verify_aggregate X (map key (set_bit_indices (aa_bits a))) (root_data H (aa_data a))
          (as_bytes (proof_data p)) (slot_epoch (ad_slot (aa_data a)))) \<and>
     unat (att_validator_id a) < length vs \<and> pk_decodes X (key (att_validator_id a)) \<and>
     sig_decodes X (sig_bytes (proposer_signature (sb_signature sb))) \<and>
     lean_verify X (key (att_validator_id a)) (slot_epoch (ad_slot (att_data a)))
       (root_data H (att_data a)) (sig_bytes (proposer_signature (sb_signature sb))))"
proof -
  have n: "unat (word_of_nat (length vs) :: u64) = length vs"
    using assms by (simp add: unat_word_of_nat validator_registry_limit_def)
  have lt: "i < word_of_nat (length vs) \<longleftrightarrow> unat i < length vs" for i :: u64
    by (simp add: word_less_nat_alt n)
  define key where "key = (\<lambda>i :: u64. pk_bytes (pubkey (vs ! unat i)))"
  have att: "verify_attestation_proof X H vs (a, p) = Ok () \<longleftrightarrow>
      set_bit_indices (aa_bits a) \<noteq> [] \<and>
      (\<forall>i \<in> set (set_bit_indices (aa_bits a)). unat i < length vs \<and> pk_decodes X (key i)) \<and>
      agg_decodes X (as_bytes (proof_data p)) \<and>
      lean_verify_aggregate X (map key (set_bit_indices (aa_bits a))) (root_data H (aa_data a))
        (as_bytes (proof_data p)) (slot_epoch (ad_slot (aa_data a)))" for a p
  proof (cases "\<forall>i \<in> set (set_bit_indices (aa_bits a)). unat i < length vs")
    case True
    let ?ids = "set_bit_indices (aa_bits a)"
    have 1: "map_collect (\<lambda>i. map_res pubkey (plist_get vs i)) ?ids = Ok (map (\<lambda>i. pubkey (vs ! unat i)) ?ids)"
      using True by (intro map_collect_all_Ok) (simp add: plist_get_def map_res_def)
    have 2: "map_collect (public_key_as_lean X) (map (\<lambda>i. pubkey (vs ! unat i)) ?ids) = Ok ks \<longleftrightarrow>
        (\<forall>i \<in> set ?ids. pk_decodes X (key i)) \<and> ks = map key ?ids" for ks
      by (simp add: map_collect_keys key_def comp_def)
    show ?thesis
      using True
      by (auto simp: verify_attestation_proof_def to_validator_indices_def Let_def lt list_all_iff 1 2
          proof_verify_def aggregated_signature_verify_def aggregated_signature_as_lean_def split: if_splits)
  qed (auto simp: verify_attestation_proof_def to_validator_indices_def Let_def lt list_all_iff split: if_splits)
  have loop: "for_each (\<lambda>ap _. verify_attestation_proof X H vs ap) aps () = Ok u \<longleftrightarrow>
      (\<forall>ap \<in> set aps. verify_attestation_proof X H vs ap = Ok ())" for aps u
    by (induction aps) auto
  show ?thesis
    unfolding verify_signatures_def Let_def vs_def[symmetric] and_then_Ok loop key_def[symmetric]
    by (auto simp: att lt loop signature_verify_def public_key_as_lean_def signature_as_lean_def key_def
        split: if_splits)
qed


theorem verify_signatures_accepts_witness:
  "verify_signatures lenient_lib sample_root (sealed sample_block_1) sample_genesis = Ok ()"
proof -
  have "length (validators sample_genesis) \<le> validator_registry_limit"
    by (simp add: sample_genesis_def genesis_with_list_def sample_validators_def validator_registry_limit_def)
  from verify_signatures_accepts[OF this, of lenient_lib sample_root "sealed sample_block_1"]
  show ?thesis
    by (simp add: sealed_def sample_block_1_def lenient_lib_def sample_lib_def sample_genesis_def
        genesis_with_list_def sample_validators_def Let_def)
qed

end
