(* ===== verification/Fork_Choice.thy ===== *)
theory Fork_Choice
  imports Block_Building
begin

text \<open>
  \<^verbatim>\<open>fork_choice/src/store.rs\<close> and \<^verbatim>\<open>on_tick\<close> of \<^verbatim>\<open>handlers.rs\<close>: the store, LMD-GHOST head
  selection, the attestation target, the interval clock, and block production on the store.

  The loops over blocks follow parent pointers and stop by themselves only if the store has no
  cycle.  They carry fuel one larger than the number of blocks: a walk that long has visited some
  block twice and, being deterministic, never ends, so running out of fuel is \<open>Diverge\<close>.  On stores
  that the handlers produce it does not happen.
\<close>

section \<open>The store\<close>

record store =
  fc_time :: u64
  fc_config :: config
  fc_head :: h256
  safe_target :: h256
  fc_latest_justified :: checkpoint
  fc_latest_finalized :: checkpoint
  blocks :: "(h256, block) hmap"
  states :: "(h256, state) hmap"
  latest_known_attestations :: "(u64, attestation_data) hmap"
  latest_new_attestations :: "(u64, attestation_data) hmap"
  blocks_queue :: "(h256, signed_block_with_attestation list) hmap"
  gossip_signatures :: gossip_map
  aggregated_payloads :: payload_map

definition intervals_per_slot :: u64 where
  "intervals_per_slot = 4"

definition seconds_per_slot :: u64 where
  "seconds_per_slot = 4"

definition seconds_per_interval :: u64 where
  "seconds_per_interval = seconds_per_slot div intervals_per_slot"

definition justification_lookback_slots :: nat where
  "justification_lookback_slots = 3"

definition walk_fuel :: "store \<Rightarrow> nat" where
  "walk_fuel s = Suc (length (blocks s))"

section \<open>The attestation target\<close>

definition block_slot :: "store \<Rightarrow> h256 \<Rightarrow> slot res" where
  "block_slot s root = map_res b_slot (hm_index (blocks s) root)"

definition block_parent :: "store \<Rightarrow> h256 \<Rightarrow> h256 res" where
  "block_parent s root = map_res b_parent_root (hm_index (blocks s) root)"

fun walk_to_safe :: "nat \<Rightarrow> store \<Rightarrow> slot \<Rightarrow> h256 \<Rightarrow> h256 res" where
  "walk_to_safe 0 s safe_slot target = Ok target"
| "walk_to_safe (Suc k) s safe_slot target =
     and_then (block_slot s target) (\<lambda>target_slot.
     if target_slot > safe_slot then and_then (block_parent s target) (walk_to_safe k s safe_slot)
     else Ok target)"

fun walk_to_justifiable :: "nat \<Rightarrow> store \<Rightarrow> slot \<Rightarrow> h256 \<Rightarrow> h256 res" where
  "walk_to_justifiable 0 s final_slot target = Diverge"
| "walk_to_justifiable (Suc fuel) s final_slot target =
     and_then (block_slot s target) (\<lambda>target_slot.
     and_then (is_justifiable_after target_slot final_slot) (\<lambda>justifiable.
     if justifiable then Ok target
     else and_then (block_parent s target) (walk_to_justifiable fuel s final_slot)))"

definition get_attestation_target :: "store \<Rightarrow> checkpoint res" where
  "get_attestation_target s =
     and_then (block_slot s (safe_target s)) (\<lambda>safe_slot.
     and_then (walk_to_safe justification_lookback_slots s safe_slot (fc_head s)) (\<lambda>target.
     and_then (walk_to_justifiable (walk_fuel s) s (cp_slot (fc_latest_finalized s)) target) (\<lambda>target.
     map_res (\<lambda>target_slot. \<lparr>cp_root = target, cp_slot = target_slot\<rparr>) (block_slot s target))))"

definition produce_attestation_data :: "store \<Rightarrow> slot \<Rightarrow> attestation_data res" where
  "produce_attestation_data s slot =
     and_then (ok_or (hm_get (blocks s) (fc_head s)) HeadBlockNotKnown) (\<lambda>head_block.
     map_res (\<lambda>target. \<lparr>ad_slot = slot,
                        ad_head = \<lparr>cp_root = fc_head s, cp_slot = b_slot head_block\<rparr>,
                        ad_target = target, ad_source = fc_latest_justified s\<rparr>)
       (get_attestation_target s))"

section \<open>Initialization\<close>

definition get_forkchoice_store ::
  "ssz_root \<Rightarrow> state \<Rightarrow> signed_block_with_attestation \<Rightarrow> config \<Rightarrow> store" where
  "get_forkchoice_store H anchor_state anchor_block conf =
     (let b = bwa_block (sb_message anchor_block);
          root = root_block H b;
          here = \<lparr>cp_root = root, cp_slot = b_slot b\<rparr> in
      \<lparr>fc_time = b_slot b * intervals_per_slot, fc_config = conf, fc_head = root, safe_target = root,
       fc_latest_justified =
         (if cp_root (st_latest_justified anchor_state) = 0 then here else st_latest_justified anchor_state),
       fc_latest_finalized =
         (if cp_root (st_latest_finalized anchor_state) = 0 then here else st_latest_finalized anchor_state),
       blocks = [(root, b)], states = [(root, anchor_state)],
       latest_known_attestations = [], latest_new_attestations = [], blocks_queue = [],
       gossip_signatures = [], aggregated_payloads = []\<rparr>)"

section \<open>LMD-GHOST\<close>

type_synonym weights = "(h256, nat) hmap"

definition weight_of :: "weights \<Rightarrow> h256 \<Rightarrow> nat" where
  "weight_of w root = (case hm_get w root of None \<Rightarrow> 0 | Some n \<Rightarrow> n)"

text \<open>\<^verbatim>\<open>min_by_key\<close> returns the first of several minimal entries.\<close>

fun min_block :: "(h256, block) hmap \<Rightarrow> h256 option" where
  "min_block [] = None"
| "min_block (e # es) =
     Some (fst (fold (\<lambda>e best. if b_slot (snd e) < b_slot (snd best) then e else best) es e))"

text \<open>Stage 1: from the head of one attestation up to the slot of the root.\<close>

fun add_weights :: "nat \<Rightarrow> (h256, block) hmap \<Rightarrow> slot \<Rightarrow> h256 \<Rightarrow> slot \<Rightarrow> weights \<Rightarrow> weights res" where
  "add_weights 0 bs root_slot cur curr_slot w = Diverge"
| "add_weights (Suc fuel) bs root_slot cur curr_slot w =
     (if curr_slot > root_slot then
        let w' = hm_insert cur (weight_of w cur + 1) w in
        (case hm_get bs cur of
           None \<Rightarrow> Ok w'
         | Some parent_block \<Rightarrow>
             let cur' = b_parent_root parent_block in
             if cur' = 0 then Ok w'
             else
               (case hm_get bs cur' of
                  None \<Rightarrow> Ok w'
                | Some next_block \<Rightarrow> add_weights fuel bs root_slot cur' (b_slot next_block) w'))
      else Ok w)"

definition vote_weights ::
  "store \<Rightarrow> slot \<Rightarrow> (u64, attestation_data) hmap \<Rightarrow> weights res" where
  "vote_weights s root_slot latest_attestations =
     for_each (\<lambda>data w.
         case hm_get (blocks s) (cp_root (ad_head data)) of
           None \<Rightarrow> Ok w
         | Some b \<Rightarrow> add_weights (walk_fuel s) (blocks s) root_slot (cp_root (ad_head data)) (b_slot b) w)
       (hm_values latest_attestations) []"

text \<open>Stage 2: the children with enough votes.\<close>

definition child_map :: "(h256, block) hmap \<Rightarrow> weights \<Rightarrow> nat \<Rightarrow> (h256, h256 list) hmap" where
  "child_map bs w min_votes =
     fold (\<lambda>(block_hash, b) m.
         if b_parent_root b \<noteq> 0 \<and> weight_of w block_hash \<ge> min_votes
         then hm_push (b_parent_root b) block_hash m else m)
       bs []"

text \<open>Stage 3: the heaviest child, ties broken by the larger hash.\<close>

definition heavier_or_equal :: "weights \<Rightarrow> h256 \<Rightarrow> h256 \<Rightarrow> bool" where
  "heavier_or_equal w a b \<longleftrightarrow>
     weight_of w a < weight_of w b \<or> weight_of w a = weight_of w b \<and> a \<le> b"

definition best_child :: "weights \<Rightarrow> h256 list \<Rightarrow> h256" where
  "best_child w cs = fold (\<lambda>c best. if heavier_or_equal w best c then c else best) (tl cs) (hd cs)"

fun greedy_walk :: "nat \<Rightarrow> weights \<Rightarrow> (h256, h256 list) hmap \<Rightarrow> h256 \<Rightarrow> h256 res" where
  "greedy_walk 0 w cm cur = Diverge"
| "greedy_walk (Suc fuel) w cm cur =
     (case hm_get cm cur of
        None \<Rightarrow> Ok cur
      | Some cs \<Rightarrow> if cs = [] then Ok cur else greedy_walk fuel w cm (best_child w cs))"

definition get_fork_choice_head ::
  "store \<Rightarrow> h256 \<Rightarrow> (u64, attestation_data) hmap \<Rightarrow> nat \<Rightarrow> h256 res" where
  "get_fork_choice_head s root latest_attestations min_votes =
     and_then (if root = 0 then or_panic (min_block (blocks s)) EmptyBlocks else Ok root) (\<lambda>root.
     and_then (block_slot s root) (\<lambda>root_slot.
     and_then (vote_weights s root_slot latest_attestations) (\<lambda>w.
     greedy_walk (walk_fuel s) w (child_map (blocks s) w min_votes) root)))"

fun last_max_by_slot :: "checkpoint list \<Rightarrow> checkpoint option" where
  "last_max_by_slot [] = None"
| "last_max_by_slot (c # cs) =
     Some (fold (\<lambda>c best. if cp_slot best \<le> cp_slot c then c else best) cs c)"

definition get_latest_justified :: "(h256, state) hmap \<Rightarrow> checkpoint option" where
  "get_latest_justified m = last_max_by_slot (map st_latest_justified (hm_values m))"

section \<open>The clock\<close>

definition update_head :: "store \<Rightarrow> store res" where
  "update_head s =
     map_res (\<lambda>new_head. s\<lparr>fc_head := new_head\<rparr>)
       (get_fork_choice_head s (cp_root (fc_latest_justified s)) (latest_known_attestations s) 0)"

definition update_safe_target :: "store \<Rightarrow> store res" where
  "update_safe_target s =
     (let n_validators = (case hm_get (states s) (fc_head s) of
                            Some st \<Rightarrow> length (validators st) | None \<Rightarrow> 0);
          min_score = (n_validators * 2 + 2) div 3 in
      map_res (\<lambda>new_safe_target. s\<lparr>safe_target := new_safe_target\<rparr>)
        (get_fork_choice_head s (cp_root (fc_latest_justified s)) (latest_new_attestations s) min_score))"

definition accept_new_attestations :: "store \<Rightarrow> store res" where
  "accept_new_attestations s =
     update_head (s\<lparr>latest_known_attestations :=
                      hm_extend (latest_known_attestations s) (latest_new_attestations s),
                    latest_new_attestations := []\<rparr>)"

definition tick_interval :: "store \<Rightarrow> bool \<Rightarrow> store res" where
  "tick_interval s has_proposal =
     (let s' = s\<lparr>fc_time := fc_time s + 1\<rparr>;
          curr_interval = fc_time s' mod intervals_per_slot in
      if curr_interval = 0 \<and> has_proposal then accept_new_attestations s'
      else if curr_interval = 2 then update_safe_target s'
      else if curr_interval = 3 then accept_new_attestations s'
      else Ok s')"

lemma update_head_time: "update_head s = Ok s' \<Longrightarrow> fc_time s' = fc_time s"
  by (auto simp: update_head_def)

lemma update_safe_target_time: "update_safe_target s = Ok s' \<Longrightarrow> fc_time s' = fc_time s"
  by (auto simp: update_safe_target_def Let_def)

lemma accept_new_attestations_time: "accept_new_attestations s = Ok s' \<Longrightarrow> fc_time s' = fc_time s"
  by (auto simp: accept_new_attestations_def dest: update_head_time)

lemma tick_interval_time: "tick_interval s p = Ok s' \<Longrightarrow> fc_time s' = fc_time s + 1"
  by (auto simp: tick_interval_def Let_def split: if_splits
      dest: update_safe_target_time accept_new_attestations_time)

function on_tick_loop :: "u64 \<Rightarrow> bool \<Rightarrow> store \<Rightarrow> store res" where
  "on_tick_loop tick_interval_time has_proposal s =
     (if fc_time s < tick_interval_time then
        and_then (tick_interval s (has_proposal \<and> fc_time s + 1 = tick_interval_time))
          (on_tick_loop tick_interval_time has_proposal)
      else Ok s)"
  by pat_completeness auto
termination
  by (relation "measure (\<lambda>(t, p, s). unat t - unat (fc_time s))")
     (auto dest!: tick_interval_time simp: unat_add_one word_less_nat_alt)

declare on_tick_loop.simps [simp del]

definition on_tick :: "store \<Rightarrow> u64 \<Rightarrow> bool \<Rightarrow> store res" where
  "on_tick s time has_proposal =
     on_tick_loop (saturating_sub time (genesis_time (fc_config s)) div seconds_per_interval) has_proposal s"

section \<open>Producing a block\<close>

definition get_proposal_head :: "store \<Rightarrow> slot \<Rightarrow> store res" where
  "get_proposal_head s slot =
     and_then (on_tick s (genesis_time (fc_config s) + slot * seconds_per_slot) True)
       accept_new_attestations"

text \<open>A step that takes \<^verbatim>\<open>&mut\<close> state and returns nothing.\<close>

definition run_step :: "'s \<Rightarrow> 's res \<Rightarrow> ('s, unit) mut" where
  "run_step s r = (case r of Ok s' \<Rightarrow> (s', Ok ()) | Err e \<Rightarrow> (s, Err e) | Panic p \<Rightarrow> (s, Panic p)
     | Diverge \<Rightarrow> (s, Diverge))"

definition produce_block_with_signatures ::
  "(u64 set \<Rightarrow> u64) \<Rightarrow> xmss_lib \<Rightarrow> ssz_root \<Rightarrow> store \<Rightarrow> slot \<Rightarrow> u64 \<Rightarrow>
   (store, h256 \<times> block \<times> aggregated_signature_proof list) mut" where
  "produce_block_with_signatures first_of X H s slot validator_index =
     and_do (run_step s (get_proposal_head s slot)) (\<lambda>s _.
     let head_root = fc_head s in
     and_do (s, ok_or (hm_get (states s) head_root) HeadStateNotFound) (\<lambda>s head_state.
     and_do (s, is_proposer_for validator_index slot (word_of_nat (length (validators head_state))))
       (\<lambda>s is_proposer.
     if \<not> is_proposer then (s, Err NotTheProposer)
     else
     let available = map (\<lambda>(i, data). \<lparr>att_validator_id = i, att_data = data\<rparr>)
                       (latest_known_attestations s);
         known = set (hm_keys (blocks s)) in
     and_do (s, build_block first_of X H head_state slot validator_index head_root None (Some available)
                  (Some known) (Some (gossip_signatures s)) (Some (aggregated_payloads s)))
       (\<lambda>s (final_block, final_post_state, _, signatures).
     let block_root = root_block H final_block in
     (s\<lparr>blocks := hm_insert block_root final_block (blocks s),
        states := hm_insert block_root final_post_state (states s)\<rparr>,
      Ok (block_root, final_block, signatures))))))"

end
