(* ===== verification/Ghost.thy ===== *)
theory Ghost
  imports Fork_Choice
begin

text \<open>
  What \<^verbatim>\<open>get_fork_choice_head\<close> computes.  The locale \<open>rooted_tree\<close> is the contract of a parent
  function that lowers a rank; it is interpreted on the blocks of a store with their slots.  The
  specification \<open>ghost\<close> says which block LMD-GHOST selects, from the blocks as a map and the votes
  as a multiset; the function of the source implements it, terminates, and does not depend on the
  iteration order of the hash maps.
\<close>

section \<open>Trees given by parents\<close>

inductive descends :: "('r \<Rightarrow> 'r option) \<Rightarrow> 'r \<Rightarrow> 'r \<Rightarrow> bool" for parent :: "'r \<Rightarrow> 'r option" where
  refl: "descends parent r r"
| step: "parent r = Some p \<Longrightarrow> descends parent p q \<Longrightarrow> descends parent r q"

lemma descends_trans: "descends parent a b \<Longrightarrow> descends parent b c \<Longrightarrow> descends parent a c"
  by (induction rule: descends.induct) (auto intro: descends.step)

lemma descends_unfold:
  "descends parent r q \<longleftrightarrow> r = q \<or> (\<exists>p. parent r = Some p \<and> descends parent p q)"
  by (subst descends.simps) auto

locale rooted_tree =
  fixes parent :: "'r \<Rightarrow> 'r option" and rank :: "'r \<Rightarrow> nat"
  assumes older: "parent r = Some p \<Longrightarrow> rank p < rank r"
begin

lemma descends_rank: "descends parent r q \<Longrightarrow> rank q \<le> rank r"
  by (induction rule: descends.induct) (auto dest: older)

lemma parent_not_descends: "parent r = Some p \<Longrightarrow> \<not> descends parent p r"
  using descends_rank older by fastforce

lemma descends_antisym: "descends parent a b \<Longrightarrow> descends parent b a \<Longrightarrow> a = b"
  by (metis descends.cases descends_rank leD older order_trans)

lemma ancestors_comparable:
  "descends parent r a \<Longrightarrow> descends parent r b \<Longrightarrow> descends parent a b \<or> descends parent b a"
proof (induction rule: descends.induct)
  case (step r p q)
  from step.prems show ?case
  proof (cases rule: descends.cases)
    case refl
    then show ?thesis using descends.step[OF step.hyps(1,2)] by blast
  next
    case (step p')
    with \<open>parent r = Some p\<close> show ?thesis using step.IH by simp
  qed
qed simp

text \<open>How many nodes of a finite set lie below a node, and above it.\<close>

definition below :: "'r set \<Rightarrow> 'r \<Rightarrow> nat" where
  "below D r = card {x \<in> D. rank x < rank r}"

definition above :: "'r set \<Rightarrow> 'r \<Rightarrow> nat" where
  "above D r = card {x \<in> D. rank r < rank x}"

lemma below_parent:
  assumes "finite D" and "p \<in> D" and "parent r = Some p"
  shows "below D p < below D r"
  unfolding below_def using assms older[OF assms(3)] by (intro psubset_card_mono) auto

lemma above_child:
  assumes "finite D" and "c \<in> D" and "parent c = Some r"
  shows "above D c < above D r"
  unfolding above_def using assms older[OF assms(3)] by (intro psubset_card_mono) auto

lemma below_le: "finite D \<Longrightarrow> below D r \<le> card D"
  unfolding below_def by (intro card_mono) auto

lemma above_le: "finite D \<Longrightarrow> above D r \<le> card D"
  unfolding above_def by (intro card_mono) auto

end

section \<open>The blocks of a store\<close>

definition parent_of :: "(h256, block) hmap \<Rightarrow> h256 \<Rightarrow> h256 option" where
  "parent_of bs r =
     (case hm_get bs r of
        None \<Rightarrow> None
      | Some b \<Rightarrow>
          (case hm_get bs (b_parent_root b) of
             None \<Rightarrow> None
           | Some p \<Rightarrow> if b_parent_root b \<noteq> 0 \<and> b_slot p < b_slot b then Some (b_parent_root b) else None))"

definition block_rank :: "(h256, block) hmap \<Rightarrow> h256 \<Rightarrow> nat" where
  "block_rank bs r = (case hm_get bs r of None \<Rightarrow> 0 | Some b \<Rightarrow> unat (b_slot b))"

interpretation bt: rooted_tree "parent_of bs" "block_rank bs" for bs
  by unfold_locales
     (auto simp: parent_of_def block_rank_def word_less_nat_alt split: option.splits if_splits)

text \<open>In a store that the handlers produce the parent of a known block is older.\<close>

definition parents_older :: "(h256, block) hmap \<Rightarrow> bool" where
  "parents_older bs \<longleftrightarrow> list_all (\<lambda>(r, b). b_parent_root b \<noteq> 0 \<longrightarrow>
     (case hm_get bs (b_parent_root b) of None \<Rightarrow> True | Some p \<Rightarrow> b_slot p < b_slot b)) bs"

lemma parents_olderD:
  assumes "parents_older bs" and "hm_get bs r = Some b" and "b_parent_root b \<noteq> 0"
    and "hm_get bs (b_parent_root b) = Some p"
  shows "b_slot p < b_slot b"
  using assms hm_get_in[OF assms(2)] by (fastforce simp: parents_older_def list_all_iff)

lemma parent_of_known:
  assumes "parents_older bs" and "hm_get bs r = Some b"
  shows "parent_of bs r = (if b_parent_root b \<noteq> 0 \<and> hm_contains_key bs (b_parent_root b)
    then Some (b_parent_root b) else None)"
  using assms parents_olderD[OF assms]
  by (auto simp: parent_of_def hm_contains_key_def split: option.splits)

lemma card_keys: "hm_ok bs \<Longrightarrow> card (set (hm_keys bs)) = length bs"
  by (metis distinct_card hm_keys_def hm_ok_def length_map)

section \<open>Stage 1\<close>

text \<open>The votes for a block: the attestations whose head is a known block that descends from it.\<close>

definition supports :: "(h256, block) hmap \<Rightarrow> slot \<Rightarrow> h256 \<Rightarrow> attestation_data \<Rightarrow> bool" where
  "supports bs root_slot r data \<longleftrightarrow>
     hm_contains_key bs (cp_root (ad_head data)) \<and> descends (parent_of bs) (cp_root (ad_head data)) r \<and>
     unat root_slot < block_rank bs r"

definition votes_for :: "(h256, block) hmap \<Rightarrow> slot \<Rightarrow> attestation_data list \<Rightarrow> h256 \<Rightarrow> nat" where
  "votes_for bs root_slot datas r = length (filter (supports bs root_slot r) datas)"

lemma weight_of_insert [simp]:
  "weight_of (hm_insert k n w) r = (if r = k then n else weight_of w r)"
  by (simp add: weight_of_def)

lemma add_weights_Ok:
  assumes "parents_older bs" and "hm_get bs cur = Some b" and "bt.below bs (set (hm_keys bs)) cur < fuel"
  shows "\<exists>w'. add_weights fuel bs root_slot cur (b_slot b) w = Ok w' \<and>
    (\<forall>r. weight_of w' r = weight_of w r +
      (if descends (parent_of bs) cur r \<and> unat root_slot < block_rank bs r then 1 else 0))"
  using assms(2,3)
proof (induction fuel arbitrary: cur b w)
  case (Suc fuel)
  have rank: "block_rank bs cur = unat (b_slot b)" using Suc.prems by (simp add: block_rank_def)
  show ?case
  proof (cases "root_slot < b_slot b")
    case False
    then have "\<not> (descends (parent_of bs) cur r \<and> unat root_slot < block_rank bs r)" for r
      using bt.descends_rank[of bs cur r] rank by (auto simp: word_less_nat_alt)
    with False show ?thesis by simp
  next
    case True
    then have lt: "unat root_slot < block_rank bs cur" using rank by (simp add: word_less_nat_alt)
    let ?w = "hm_insert cur (weight_of w cur + 1) w"
    show ?thesis
    proof (cases "parent_of bs cur")
      case None
      then have "b_parent_root b = 0 \<or> hm_get bs (b_parent_root b) = None"
        using parent_of_known[OF assms(1) Suc.prems(1)] by (auto simp: hm_contains_key_def split: if_splits)
      then have "add_weights (Suc fuel) bs root_slot cur (b_slot b) w = Ok ?w"
        using True Suc.prems(1) by (auto simp: Let_def)
      moreover have "descends (parent_of bs) cur r \<longleftrightarrow> r = cur" for r
        using None by (subst descends_unfold) auto
      ultimately show ?thesis using lt by auto
    next
      case (Some p)
      then have p: "p = b_parent_root b" "p \<noteq> 0"
        using parent_of_known[OF assms(1) Suc.prems(1)] by (auto split: if_splits)
      obtain pb where pb: "hm_get bs p = Some pb"
        using Some p parent_of_known[OF assms(1) Suc.prems(1)] by (auto simp: hm_contains_key_def split: if_splits)
      then have "p \<in> set (hm_keys bs)" by (simp add: hm_contains_key_keys[symmetric])
      then have "bt.below bs (set (hm_keys bs)) p < fuel"
        using bt.below_parent[OF _ _ Some] Suc.prems(2) by fastforce
      from Suc.IH[OF pb this, of ?w] obtain w' where
        w': "add_weights fuel bs root_slot p (b_slot pb) ?w = Ok w'"
          "\<forall>r. weight_of w' r = weight_of ?w r +
            (if descends (parent_of bs) p r \<and> unat root_slot < block_rank bs r then 1 else 0)" by blast
      have "add_weights (Suc fuel) bs root_slot cur (b_slot b) w = Ok w'"
        using True Suc.prems(1) p pb w'(1) by (simp add: Let_def)
      moreover have "descends (parent_of bs) cur r \<longleftrightarrow> r = cur \<or> descends (parent_of bs) p r" for r
        using Some by (subst descends_unfold) auto
      moreover have "\<not> descends (parent_of bs) p cur" using bt.parent_not_descends Some by blast
      ultimately show ?thesis using w'(2) lt by auto
    qed
  qed
qed simp

lemma vote_weights_Ok:
  assumes "parents_older (blocks s)" and "hm_ok (blocks s)"
  shows "\<exists>w. vote_weights s root_slot atts = Ok w \<and>
    (\<forall>r. weight_of w r = votes_for (blocks s) root_slot (hm_values atts) r)"
proof -
  let ?bs = "blocks s" and ?f = "\<lambda>data w.
         case hm_get (blocks s) (cp_root (ad_head data)) of
           None \<Rightarrow> Ok w
         | Some b \<Rightarrow> add_weights (walk_fuel s) (blocks s) root_slot (cp_root (ad_head data)) (b_slot b) w"
  have fuel: "bt.below ?bs (set (hm_keys ?bs)) r < walk_fuel s" for r
    using bt.below_le[of "set (hm_keys ?bs)" ?bs r] card_keys[OF assms(2)] by (simp add: walk_fuel_def)
  have "\<exists>w'. for_each ?f datas w = Ok w' \<and> (\<forall>r. weight_of w' r = weight_of w r + votes_for ?bs root_slot datas r)"
    for datas w
  proof (induction datas arbitrary: w)
    case (Cons data datas)
    obtain w1 where w1: "?f data w = Ok w1"
      "\<forall>r. weight_of w1 r = weight_of w r + (if supports ?bs root_slot r data then 1 else 0)"
    proof (cases "hm_get ?bs (cp_root (ad_head data))")
      case None
      then show ?thesis by (intro that[of w]) (simp_all add: supports_def hm_contains_key_def)
    next
      case (Some b)
      with add_weights_Ok[OF assms(1) Some fuel, of root_slot w] that show ?thesis
        by (auto simp: supports_def)
    qed
    with Cons.IH[of w1] show ?case by (auto simp: votes_for_def)
  qed (simp add: votes_for_def)
  from this[of "hm_values atts" "[]"] show ?thesis
    by (simp add: vote_weights_def weight_of_def hm_get_def)
qed


section \<open>Stages 2 and 3\<close>

text \<open>The children that LMD-GHOST considers, and the walk it takes.\<close>

definition eligible :: "(h256, block) hmap \<Rightarrow> (h256 \<Rightarrow> nat) \<Rightarrow> nat \<Rightarrow> h256 \<Rightarrow> h256 set" where
  "eligible bs W min_votes p =
     {c. \<exists>b. hm_get bs c = Some b \<and> b_parent_root b = p \<and> p \<noteq> 0 \<and> min_votes \<le> W c}"

inductive ghost :: "(h256, block) hmap \<Rightarrow> (h256 \<Rightarrow> nat) \<Rightarrow> nat \<Rightarrow> h256 \<Rightarrow> h256 \<Rightarrow> bool"
  for bs :: "(h256, block) hmap" and W :: "h256 \<Rightarrow> nat" and min_votes :: nat where
  leaf: "eligible bs W min_votes p = {} \<Longrightarrow> ghost bs W min_votes p p"
| child: "c \<in> eligible bs W min_votes p \<Longrightarrow>
    (\<forall>d \<in> eligible bs W min_votes p. W d < W c \<or> W d = W c \<and> d \<le> c) \<Longrightarrow>
    ghost bs W min_votes c h \<Longrightarrow> ghost bs W min_votes p h"

inductive_simps ghost_unfold: "ghost bs W min_votes p h"

lemma ghost_unique: "ghost bs W m p h \<Longrightarrow> ghost bs W m p h' \<Longrightarrow> h' = h"
proof (induction arbitrary: h' rule: ghost.induct)
  case (leaf p)
  then show ?case unfolding ghost_unfold[of bs W m p h'] by auto
next
  case (child c p h)
  from child.prems child.hyps(1) obtain c' where c': "c' \<in> eligible bs W m p"
    "\<forall>d \<in> eligible bs W m p. W d < W c' \<or> W d = W c' \<and> d \<le> c'" "ghost bs W m c' h'"
    unfolding ghost_unfold[of bs W m p h'] by auto
  then have "c' = c" using child.hyps(1,2) by (metis antisym less_asym less_irrefl)
  with c' child.IH show ?case by simp
qed

lemma ghost_cong:
  assumes "hm_get bs' = hm_get bs" and "ghost bs W m p h"
  shows "ghost bs' W m p h"
proof -
  have el: "eligible bs' = eligible bs" by (intro ext) (simp add: eligible_def assms(1))
  from assms(2) show ?thesis
  proof (induction rule: ghost.induct)
    case (child c p h)
    show ?case by (rule ghost.child[of c]) (use child in \<open>simp_all add: el\<close>)
  qed (simp add: ghost.leaf el)
qed

definition children_in :: "(h256, h256 list) hmap \<Rightarrow> h256 \<Rightarrow> h256 list" where
  "children_in m p = (case hm_get m p of None \<Rightarrow> [] | Some cs \<Rightarrow> cs)"

lemma children_in_child_map:
  "children_in (child_map bs w m) p =
    map fst (filter (\<lambda>(c, b). b_parent_root b \<noteq> 0 \<and> m \<le> weight_of w c \<and> b_parent_root b = p) bs)"
proof -
  let ?f = "\<lambda>(c, b) cm. if b_parent_root b \<noteq> 0 \<and> weight_of w c \<ge> m then hm_push (b_parent_root b) c cm else cm"
  have "children_in (fold ?f es cm) p = children_in cm p @
      map fst (filter (\<lambda>(c, b). b_parent_root b \<noteq> 0 \<and> m \<le> weight_of w c \<and> b_parent_root b = p) es)" for es cm
  proof (induction es arbitrary: cm)
    case (Cons e es)
    have "children_in (hm_push q c cm) p = children_in cm p @ (if q = p then [c] else [])" for q c
      by (auto simp: children_in_def hm_push_get split: option.splits)
    with Cons show ?case by (cases e) simp
  qed simp
  from this[of bs "[]"] show ?thesis by (simp add: child_map_def children_in_def hm_get_def)
qed

lemma set_children:
  assumes "hm_ok bs"
  shows "set (children_in (child_map bs w m) p) = eligible bs (weight_of w) m p"
  by (auto simp: children_in_child_map eligible_def hm_in_get[OF assms] image_iff)

lemma best_child_max:
  assumes "cs \<noteq> []"
  shows "best_child w cs \<in> set cs" and "\<forall>d \<in> set cs. heavier_or_equal w d (best_child w cs)"
proof -
  have tr: "heavier_or_equal w a c" if "heavier_or_equal w a b" "heavier_or_equal w b c" for a b c
    using that by (auto simp: heavier_or_equal_def)
  have tot: "heavier_or_equal w a b" if "\<not> heavier_or_equal w b a" for a b
    using that by (auto simp: heavier_or_equal_def)
  let ?g = "\<lambda>xs x. fold (\<lambda>c best. if heavier_or_equal w best c then c else best) xs x"
  have "?g xs x \<in> insert x (set xs) \<and> (\<forall>d \<in> insert x (set xs). heavier_or_equal w d (?g xs x))" for xs x
  proof (induction xs arbitrary: x)
    case Nil
    then show ?case by (simp add: heavier_or_equal_def)
  next
    case (Cons y ys)
    show ?case
    proof (cases "heavier_or_equal w x y")
      case True
      then have "?g (y # ys) x = ?g ys y" by simp
      with Cons.IH[of y] tr[OF True] show ?thesis by auto
    next
      case False
      then have "?g (y # ys) x = ?g ys x" by simp
      with Cons.IH[of x] tr[OF tot[OF False]] show ?thesis by auto
    qed
  qed
  from this[of "tl cs" "hd cs"] have
    "best_child w cs \<in> insert (hd cs) (set (tl cs)) \<and>
     (\<forall>d \<in> insert (hd cs) (set (tl cs)). heavier_or_equal w d (best_child w cs))"
    unfolding best_child_def .
  moreover have "insert (hd cs) (set (tl cs)) = set cs" using assms by (cases cs) auto
  ultimately show "best_child w cs \<in> set cs" "\<forall>d \<in> set cs. heavier_or_equal w d (best_child w cs)"
    by simp_all
qed

lemma greedy_walk_children:
  "greedy_walk (Suc fuel) w cm cur = (if children_in cm cur = [] then Ok cur
    else greedy_walk fuel w cm (best_child w (children_in cm cur)))"
  by (simp add: children_in_def split: option.split)

lemma greedy_walk_ghost:
  assumes "parents_older bs" and "hm_ok bs" and "hm_contains_key bs cur"
    and "bt.above bs (set (hm_keys bs)) cur < fuel"
  shows "\<exists>h. greedy_walk fuel w (child_map bs w m) cur = Ok h \<and> ghost bs (weight_of w) m cur h \<and>
    descends (parent_of bs) h cur \<and> hm_contains_key bs h"
  using assms(3,4)
proof (induction fuel arbitrary: cur)
  case (Suc fuel)
  let ?cs = "children_in (child_map bs w m) cur"
  have set: "set ?cs = eligible bs (weight_of w) m cur" by (rule set_children[OF assms(2)])
  show ?case
  proof (cases "?cs = []")
    case True
    then have "greedy_walk (Suc fuel) w (child_map bs w m) cur = Ok cur"
      by (subst greedy_walk_children) simp
    moreover have "ghost bs (weight_of w) m cur cur" using True set by (intro ghost.leaf) simp
    ultimately show ?thesis using Suc.prems(1) descends.refl[of _ cur] by (metis (no_types))
  next
    case False
    let ?c = "best_child w ?cs"
    have c: "?c \<in> eligible bs (weight_of w) m cur" using best_child_max(1)[OF False] set by blast
    then obtain b where b: "hm_get bs ?c = Some b" "b_parent_root b = cur" "cur \<noteq> 0"
      by (auto simp: eligible_def)
    then have par: "parent_of bs ?c = Some cur"
      using parent_of_known[OF assms(1) b(1)] Suc.prems(1) by simp
    have in_keys: "?c \<in> set (hm_keys bs)" "hm_contains_key bs ?c"
      using b(1) by (simp_all add: hm_contains_key_keys[symmetric])
    have "bt.above bs (set (hm_keys bs)) ?c < fuel"
      using bt.above_child[OF _ in_keys(1) par] Suc.prems(2) by fastforce
    from Suc.IH[OF in_keys(2) this] obtain h where h: "greedy_walk fuel w (child_map bs w m) ?c = Ok h"
      "ghost bs (weight_of w) m ?c h" "descends (parent_of bs) h ?c" "hm_contains_key bs h" by blast
    have "greedy_walk (Suc fuel) w (child_map bs w m) cur = Ok h"
      using False h(1) by (subst greedy_walk_children) simp
    moreover have "ghost bs (weight_of w) m cur h"
      using best_child_max(2)[OF False] set h(2) c
      by (intro ghost.child[of ?c bs "weight_of w" m cur h]) (auto simp: heavier_or_equal_def)
    moreover have "descends (parent_of bs) h cur"
      using descends_trans[OF h(3)] descends.step[of "parent_of bs", OF par] descends.refl by metis
    ultimately show ?thesis using h(4) by blast
  qed
qed simp

lemma get_fork_choice_head_ghost:
  assumes "parents_older (blocks s)" and "hm_ok (blocks s)" and "hm_get (blocks s) root = Some b"
    and "root \<noteq> 0"
  shows "\<exists>h. get_fork_choice_head s root atts m = Ok h \<and>
    ghost (blocks s) (votes_for (blocks s) (b_slot b) (hm_values atts)) m root h \<and>
    descends (parent_of (blocks s)) h root \<and> hm_contains_key (blocks s) h"
proof -
  let ?bs = "blocks s"
  obtain w where w: "vote_weights s (b_slot b) atts = Ok w"
    and W: "weight_of w = votes_for ?bs (b_slot b) (hm_values atts)"
    using vote_weights_Ok[OF assms(1,2), of "b_slot b" atts] by (auto simp: fun_eq_iff)
  have "bt.above ?bs (set (hm_keys ?bs)) root < walk_fuel s"
    using bt.above_le[of "set (hm_keys ?bs)" ?bs root] card_keys[OF assms(2)] by (simp add: walk_fuel_def)
  from greedy_walk_ghost[OF assms(1,2) _ this, of w m] assms(3,4) w show ?thesis
    by (simp add: get_fork_choice_head_def block_slot_def map_res_def W)
qed


section \<open>The attestation target\<close>

lemma descends_known:
  assumes "descends (parent_of bs) r q" and "hm_contains_key bs r"
  shows "hm_contains_key bs q"
  using assms
  by (induction rule: descends.induct)
     (auto simp: parent_of_def hm_contains_key_def split: option.splits if_splits)

text \<open>A block above an ancestor of the head has its parent in the store, above that ancestor too.\<close>

lemma parent_above:
  assumes "parents_older bs" and "hm_get bs t = Some b" and "descends (parent_of bs) t f" and "t \<noteq> f"
  shows "parent_of bs t = Some (b_parent_root b)" and "descends (parent_of bs) (b_parent_root b) f"
    and "hm_contains_key bs (b_parent_root b)"
proof -
  obtain p where p: "parent_of bs t = Some p" "descends (parent_of bs) p f"
    using assms(3,4) by (auto simp: descends_unfold[of _ t f])
  with parent_of_known[OF assms(1,2)]
  show "parent_of bs t = Some (b_parent_root b)" "descends (parent_of bs) (b_parent_root b) f"
    "hm_contains_key bs (b_parent_root b)" by (auto split: if_splits)
qed

lemma walk_to_safe_Ok:
  assumes "parents_older (blocks s)" and "hm_get (blocks s) f = Some fb" and "b_slot fb \<le> safe_slot"
    and "hm_contains_key (blocks s) t" and "descends (parent_of (blocks s)) t f"
  shows "\<exists>t'. walk_to_safe k s safe_slot t = Ok t' \<and> descends (parent_of (blocks s)) t t' \<and>
    descends (parent_of (blocks s)) t' f \<and> hm_contains_key (blocks s) t'"
  using assms(4,5)
proof (induction k arbitrary: t)
  case 0
  then show ?case by (auto intro: descends.refl)
next
  case (Suc k)
  let ?bs = "blocks s"
  obtain b where b: "hm_get ?bs t = Some b" using Suc.prems(1) by (auto simp: hm_contains_key_def)
  have slot: "block_slot s t = Ok (b_slot b)" "block_parent s t = Ok (b_parent_root b)"
    using b by (simp_all add: block_slot_def block_parent_def map_res_def)
  show ?case
  proof (cases "b_slot b > safe_slot")
    case False
    with slot Suc.prems descends.refl[of "parent_of ?bs" t] show ?thesis by simp
  next
    case True
    then have "t \<noteq> f" using assms(2,3) b by auto
    note p = parent_above[OF assms(1) b Suc.prems(2) this]
    from Suc.IH[OF p(3,2)] obtain t' where t': "walk_to_safe k s safe_slot (b_parent_root b) = Ok t'"
      "descends (parent_of ?bs) (b_parent_root b) t'" "descends (parent_of ?bs) t' f" "hm_contains_key ?bs t'"
      by blast
    have "descends (parent_of ?bs) t t'" using descends.step[OF p(1) t'(2)] .
    with t' True slot show ?thesis by simp
  qed
qed

lemma walk_to_justifiable_Ok:
  assumes "parents_older (blocks s)" and "hm_get (blocks s) f = Some fb"
    and "hm_contains_key (blocks s) t" and "descends (parent_of (blocks s)) t f"
    and "bt.below (blocks s) (set (hm_keys (blocks s))) t < fuel"
  shows "\<exists>t' b. walk_to_justifiable fuel s (b_slot fb) t = Ok t' \<and> descends (parent_of (blocks s)) t t' \<and>
    descends (parent_of (blocks s)) t' f \<and> hm_get (blocks s) t' = Some b \<and>
    is_justifiable_after (b_slot b) (b_slot fb) = Ok True"
  using assms(3-5)
proof (induction fuel arbitrary: t)
  case (Suc fuel)
  let ?bs = "blocks s"
  obtain b where b: "hm_get ?bs t = Some b" using Suc.prems(1) by (auto simp: hm_contains_key_def)
  have slot: "block_slot s t = Ok (b_slot b)" "block_parent s t = Ok (b_parent_root b)"
    using b by (simp_all add: block_slot_def block_parent_def map_res_def)
  have "b_slot fb \<le> b_slot b"
    using bt.descends_rank[OF Suc.prems(2)] b assms(2) by (simp add: block_rank_def word_le_nat_alt)
  then obtain j where j: "is_justifiable_after (b_slot b) (b_slot fb) = Ok j"
    using is_justifiable_after_total by blast
  show ?case
  proof (cases j)
    case True
    with j slot b Suc.prems(2) descends.refl[of "parent_of ?bs" t] show ?thesis by simp
  next
    case False
    then have "t \<noteq> f" using j assms(2) b by auto
    note p = parent_above[OF assms(1) b Suc.prems(2) this]
    have "bt.below ?bs (set (hm_keys ?bs)) (b_parent_root b) < fuel"
      using bt.below_parent[OF finite_set _ p(1)] p(3) Suc.prems(3)
      by (fastforce simp: hm_contains_key_keys)
    from Suc.IH[OF p(3,2) this] obtain t' b' where t': "walk_to_justifiable fuel s (b_slot fb) (b_parent_root b) = Ok t'"
      "descends (parent_of ?bs) (b_parent_root b) t'" "descends (parent_of ?bs) t' f"
      "hm_get ?bs t' = Some b'" "is_justifiable_after (b_slot b') (b_slot fb) = Ok True"
      by (elim exE conjE)
    have "descends (parent_of ?bs) t t'" using descends.step[OF p(1) t'(2)] .
    moreover have "walk_to_justifiable (Suc fuel) s (b_slot fb) t = Ok t'"
      using t'(1) j False slot by simp
    ultimately show ?thesis using t'(3-5) by (intro exI[of _ t'] exI[of _ b'] conjI)
  qed
qed simp

text \<open>
  The attestation target.  A finalized block that is an ancestor of the head and not newer than the safe target
  bounds both walks; one that is newer than the safe target does not stop the first walk.
\<close>

lemma get_attestation_target_Ok:
  assumes "parents_older (blocks s)" and "hm_ok (blocks s)" and "hm_contains_key (blocks s) (fc_head s)"
    and "hm_get (blocks s) (safe_target s) = Some sb" and "hm_get (blocks s) f = Some fb"
    and "b_slot fb = cp_slot (fc_latest_finalized s)" and "b_slot fb \<le> b_slot sb"
    and "descends (parent_of (blocks s)) (fc_head s) f"
  shows "\<exists>c b. get_attestation_target s = Ok c \<and> hm_get (blocks s) (cp_root c) = Some b \<and>
    cp_slot c = b_slot b \<and> is_justifiable_after (cp_slot c) (cp_slot (fc_latest_finalized s)) = Ok True \<and>
    descends (parent_of (blocks s)) (fc_head s) (cp_root c) \<and> descends (parent_of (blocks s)) (cp_root c) f"
proof -
  let ?bs = "blocks s"
  obtain t where t: "walk_to_safe justification_lookback_slots s (b_slot sb) (fc_head s) = Ok t"
    "descends (parent_of ?bs) (fc_head s) t" "descends (parent_of ?bs) t f" "hm_contains_key ?bs t"
    using walk_to_safe_Ok[OF assms(1,5,7,3,8)] by blast
  have "bt.below ?bs (set (hm_keys ?bs)) t < walk_fuel s"
    using bt.below_le[of "set (hm_keys ?bs)" ?bs t] card_keys[OF assms(2)] by (simp add: walk_fuel_def)
  from walk_to_justifiable_Ok[OF assms(1,5) t(4,3) this] obtain t' b where
    t': "walk_to_justifiable (walk_fuel s) s (b_slot fb) t = Ok t'" "descends (parent_of ?bs) t t'"
      "descends (parent_of ?bs) t' f" "hm_get ?bs t' = Some b" "is_justifiable_after (b_slot b) (b_slot fb) = Ok True"
    by (elim exE conjE)
  have "get_attestation_target s = Ok \<lparr>cp_root = t', cp_slot = b_slot b\<rparr>"
    using t(1) t'(1,4) assms(4,6) by (simp add: get_attestation_target_def block_slot_def map_res_def)
  moreover have "descends (parent_of ?bs) (fc_head s) t'" using descends_trans[OF t(2) t'(2)] .
  ultimately show ?thesis using t'(3-5) assms(6) by simp
qed

lemma walk_to_safe_far:
  assumes "parents_older (blocks s)" and "hm_get (blocks s) f = Some fb" and "b_slot fb = safe_slot"
    and "hm_get (blocks s) t = Some b" and "descends (parent_of (blocks s)) t f"
  shows "\<exists>t' b'. walk_to_safe k s safe_slot t = Ok t' \<and> hm_get (blocks s) t' = Some b' \<and>
    (b_slot b' = safe_slot \<or> unat (b_slot b') + k \<le> unat (b_slot b))"
  using assms(4,5)
proof (induction k arbitrary: t b)
  case (Suc k)
  let ?bs = "blocks s"
  have slot: "block_slot s t = Ok (b_slot b)" "block_parent s t = Ok (b_parent_root b)"
    using Suc.prems(1) by (simp_all add: block_slot_def block_parent_def map_res_def)
  show ?case
  proof (cases "b_slot b > safe_slot")
    case False
    have "safe_slot \<le> b_slot b"
      using bt.descends_rank[OF Suc.prems(2)] Suc.prems(1) assms(2,3) by (simp add: block_rank_def word_le_nat_alt)
    with False slot Suc.prems(1) show ?thesis by simp
  next
    case True
    then have "t \<noteq> f" using assms(2,3) Suc.prems(1) by auto
    note p = parent_above[OF assms(1) Suc.prems this]
    obtain pb where pb: "hm_get ?bs (b_parent_root b) = Some pb" using p(3) by (auto simp: hm_contains_key_def)
    have "unat (b_slot pb) < unat (b_slot b)"
      using bt.older[OF p(1)] pb Suc.prems(1) by (simp add: block_rank_def)
    moreover from Suc.IH[OF pb p(2)] obtain t' b' where "walk_to_safe k s safe_slot (b_parent_root b) = Ok t'"
      "hm_get ?bs t' = Some b'" "b_slot b' = safe_slot \<or> unat (b_slot b') + k \<le> unat (b_slot pb)" by blast
    ultimately show ?thesis using True slot by auto
  qed
qed simp

lemma get_attestation_target_Panic:
  assumes "parents_older (blocks s)" and "hm_get (blocks s) (fc_head s) = Some hb"
    and "hm_get (blocks s) (safe_target s) = Some sb" and "b_slot sb < cp_slot (fc_latest_finalized s)"
    and "descends (parent_of (blocks s)) (fc_head s) (safe_target s)"
    and "unat (b_slot hb) < unat (cp_slot (fc_latest_finalized s)) + justification_lookback_slots"
  shows "get_attestation_target s = Panic CandidateBeforeFinalized"
proof -
  from walk_to_safe_far[OF assms(1,3) HOL.refl assms(2,5), of justification_lookback_slots]
  obtain t b where t: "walk_to_safe justification_lookback_slots s (b_slot sb) (fc_head s) = Ok t"
    "hm_get (blocks s) t = Some b"
    "b_slot b = b_slot sb \<or> unat (b_slot b) + justification_lookback_slots \<le> unat (b_slot hb)" by blast
  have "b_slot b < cp_slot (fc_latest_finalized s)"
    using t(3) assms(4,6) by (auto simp: word_less_nat_alt)
  then have "is_justifiable_after (b_slot b) (cp_slot (fc_latest_finalized s)) = Panic CandidateBeforeFinalized"
    by simp
  with t(1,2) assms(3) show ?thesis
    by (simp add: get_attestation_target_def block_slot_def map_res_def walk_fuel_def)
qed

section \<open>Sample stores\<close>

text \<open>Four blocks: 2 and 3 extend 1, and 4 extends 3; two votes for 4 and one for 2.\<close>

definition bare_block :: "slot \<Rightarrow> h256 \<Rightarrow> block" where
  "bare_block s parent = \<lparr>b_slot = s, b_proposer_index = 0, b_parent_root = parent, b_state_root = 0,
     b_body = \<lparr>attestations = []\<rparr>\<rparr>"

definition head_vote :: "h256 \<Rightarrow> slot \<Rightarrow> attestation_data" where
  "head_vote r s = (data_at s)\<lparr>ad_head := checkpoint_at r s\<rparr>"

definition fork_store :: store where
  "fork_store =
     \<lparr>fc_time = 16, fc_config = \<lparr>genesis_time = 0\<rparr>, fc_head = 4, safe_target = 1,
      fc_latest_justified = checkpoint_at 1 1, fc_latest_finalized = checkpoint_at 1 1,
      blocks = [(1, bare_block 1 0), (2, bare_block 2 1), (3, bare_block 2 1), (4, bare_block 3 3)],
      states = [], latest_known_attestations = [(0, head_vote 4 3), (1, head_vote 2 2), (2, head_vote 4 3)],
      latest_new_attestations = [], blocks_queue = [], gossip_signatures = [], aggregated_payloads = []\<rparr>"

lemma fork_store_ok: "parents_older (blocks fork_store)" "hm_ok (blocks fork_store)"
  by (simp_all add: fork_store_def parents_older_def hm_ok_def hm_get_def bare_block_def)

lemma fork_store_blocks: "hm_get (blocks fork_store) 1 = Some (bare_block 1 0)"
  by (simp add: fork_store_def hm_get_def)

lemma fork_store_descends: "descends (parent_of (blocks fork_store)) 4 1"
proof -
  have "parent_of (blocks fork_store) 4 = Some 3" "parent_of (blocks fork_store) 3 = Some 1"
    by (simp_all add: parent_of_def fork_store_def hm_get_def bare_block_def)
  then show ?thesis using descends.step descends.refl by metis
qed

section \<open>Properties\<close>

text \<open>
  C6: \<^verbatim>\<open>get_fork_choice_head\<close> terminates and selects the LMD-GHOST head.  From a known non-zero root it goes
  to the child with most votes among those with at least \<^verbatim>\<open>min_votes\<close>, ties to the larger hash,
  until there is none; a vote counts for a block if the attested head is known and descends from
  it.  The result is a known block that descends from the root.
\<close>

theorem fork_choice_head_is_ghost:
  assumes "parents_older (blocks s)" and "hm_ok (blocks s)" and "hm_get (blocks s) root = Some b"
    and "root \<noteq> 0"
  shows "\<exists>h. get_fork_choice_head s root atts min_votes = Ok h \<and>
    ghost (blocks s) (votes_for (blocks s) (b_slot b) (hm_values atts)) min_votes root h \<and>
    descends (parent_of (blocks s)) h root \<and> hm_contains_key (blocks s) h"
  using get_fork_choice_head_ghost[OF assms] .

theorem fork_choice_head_is_ghost_witness:
  "\<exists>h. get_fork_choice_head fork_store 1 (latest_known_attestations fork_store) 0 = Ok h \<and>
    ghost (blocks fork_store) (votes_for (blocks fork_store) (b_slot (bare_block 1 0))
      (hm_values (latest_known_attestations fork_store))) 0 1 h \<and>
    descends (parent_of (blocks fork_store)) h 1 \<and> hm_contains_key (blocks fork_store) h"
  by (rule fork_choice_head_is_ghost[OF fork_store_ok fork_store_blocks]) simp

text \<open>
  C17: the head selected from a known non-zero root does not depend on the iteration order of the hash maps: two stores with
  the same blocks and two maps with the same attestations, in any order, give the same head.
\<close>

theorem fork_choice_order_independent:
  assumes "parents_older (blocks s)" and "hm_ok (blocks s)" and "hm_contains_key (blocks s) root"
    and "root \<noteq> 0" and "mset (blocks s) = mset (blocks s')" and "mset atts = mset atts'"
  shows "get_fork_choice_head s' root atts' min_votes = get_fork_choice_head s root atts min_votes"
proof -
  have get: "hm_get (blocks s') = hm_get (blocks s)" using hm_get_perm[OF assms(2,5)] .
  have ok': "hm_ok (blocks s')"
    using assms(2) mset_eq_imp_distinct_iff[of "map fst (blocks s)" "map fst (blocks s')"] assms(5)
    by (simp add: hm_ok_def)
  have older': "parents_older (blocks s')"
  proof -
    have "set (blocks s') = set (blocks s)" using assms(5) by (metis set_mset_mset)
    with assms(1) show ?thesis by (simp add: parents_older_def list_all_iff get)
  qed
  obtain b where b: "hm_get (blocks s) root = Some b" using assms(3) by (auto simp: hm_contains_key_def)
  have par: "parent_of (blocks s') = parent_of (blocks s)" "block_rank (blocks s') = block_rank (blocks s)"
    unfolding parent_of_def block_rank_def get by simp_all
  have "supports (blocks s') (b_slot b) = supports (blocks s) (b_slot b)"
    by (intro ext) (simp add: supports_def par hm_contains_key_def get)
  moreover have "mset (hm_values atts') = mset (hm_values atts)" using assms(6) by (simp add: hm_values_def)
  ultimately have W: "votes_for (blocks s') (b_slot b) (hm_values atts') =
      votes_for (blocks s) (b_slot b) (hm_values atts)"
    unfolding votes_for_def by (intro ext mset_eq_length) simp
  from get_fork_choice_head_ghost[OF assms(1,2) b assms(4), of atts min_votes]
  obtain h where h: "get_fork_choice_head s root atts min_votes = Ok h"
    "ghost (blocks s) (votes_for (blocks s) (b_slot b) (hm_values atts)) min_votes root h" by blast
  from get_fork_choice_head_ghost[OF older' ok' _ assms(4), of b atts' min_votes] b get
  obtain h' where h': "get_fork_choice_head s' root atts' min_votes = Ok h'"
    "ghost (blocks s') (votes_for (blocks s) (b_slot b) (hm_values atts)) min_votes root h'"
    by (auto simp: W)
  from ghost_cong[OF get[symmetric] h'(2)] h(2) have "h' = h" by (rule ghost_unique[rotated])
  with h h' show ?thesis by simp
qed

theorem fork_choice_order_independent_witness:
  "get_fork_choice_head (fork_store\<lparr>blocks := rev (blocks fork_store)\<rparr>) 1
     (rev (latest_known_attestations fork_store)) 0 =
   get_fork_choice_head fork_store 1 (latest_known_attestations fork_store) 0"
  by (rule fork_choice_order_independent[OF fork_store_ok])
     (simp_all add: fork_store_blocks)

end
