(* ===== verification/Handlers.thy ===== *)
theory Handlers
  imports Fork_Choice
begin

text \<open>
  \<^verbatim>\<open>fork_choice/src/handlers.rs\<close>: the handlers that change the store, in the order of the source.
  A handler that returns \<^verbatim>\<open>Result\<close> is a pair of the store it leaves and its outcome.  Metrics and
  log lines are not modelled.
\<close>

section \<open>Attestations\<close>

definition validate_attestation_data :: "store \<Rightarrow> attestation_data \<Rightarrow> unit res" where
  "validate_attestation_data s data =
     (let source = ad_source data; target = ad_target data in
      if \<not> hm_contains_key (blocks s) (cp_root source) then Err UnknownSourceBlock
      else if \<not> hm_contains_key (blocks s) (cp_root target) then Err UnknownTargetBlock
      else if \<not> hm_contains_key (blocks s) (cp_root (ad_head data)) then Err UnknownHeadBlock
      else if \<not> cp_slot source \<le> cp_slot target then Err SourceExceedsTarget
      else
      and_then (block_slot s (cp_root source)) (\<lambda>source_block_slot.
      and_then (block_slot s (cp_root target)) (\<lambda>target_block_slot.
      if source_block_slot \<noteq> cp_slot source then Err SourceSlotMismatch
      else if target_block_slot \<noteq> cp_slot target then Err TargetSlotMismatch
      else if \<not> ad_slot data \<le> fc_time s div intervals_per_slot + 1 then Err AttestationTooFarInFuture
      else Ok ())))"

definition on_attestation_internal :: "store \<Rightarrow> u64 \<Rightarrow> attestation_data \<Rightarrow> bool \<Rightarrow> store" where
  "on_attestation_internal s validator_id data is_from_block =
     (if is_from_block then
        let s1 = (if (case hm_get (latest_known_attestations s) validator_id of
                        None \<Rightarrow> True | Some existing \<Rightarrow> ad_slot existing < ad_slot data)
                  then s\<lparr>latest_known_attestations :=
                           hm_insert validator_id data (latest_known_attestations s)\<rparr>
                  else s) in
        (case hm_get (latest_new_attestations s1) validator_id of
           None \<Rightarrow> s1
         | Some existing_new \<Rightarrow>
             if ad_slot existing_new \<le> ad_slot data
             then s1\<lparr>latest_new_attestations := hm_remove validator_id (latest_new_attestations s1)\<rparr>
             else s1)
      else
        (if (case hm_get (latest_new_attestations s) validator_id of
               None \<Rightarrow> True | Some existing \<Rightarrow> ad_slot existing < ad_slot data)
         then s\<lparr>latest_new_attestations := hm_insert validator_id data (latest_new_attestations s)\<rparr>
         else s))"

definition remember_signature :: "ssz_root \<Rightarrow> u64 \<Rightarrow> attestation_data \<Rightarrow> signature \<Rightarrow> store \<Rightarrow> store" where
  "remember_signature H validator_id data sig s =
     s\<lparr>gossip_signatures :=
         hm_insert (signature_key_new validator_id (root_data H data)) sig (gossip_signatures s)\<rparr>"

definition on_gossip_attestation :: "ssz_root \<Rightarrow> store \<Rightarrow> signed_attestation \<Rightarrow> (store, unit) mut" where
  "on_gossip_attestation H s a =
     and_do (s, validate_attestation_data s (sa_message a)) (\<lambda>s _.
     let s1 = remember_signature H (sa_validator_id a) (sa_message a) (sa_signature a) s in
     (on_attestation_internal s1 (sa_validator_id a) (sa_message a) False, Ok ()))"

definition on_attestation :: "ssz_root \<Rightarrow> store \<Rightarrow> signed_attestation \<Rightarrow> bool \<Rightarrow> (store, unit) mut" where
  "on_attestation H s a is_from_block =
     and_do (s, validate_attestation_data s (sa_message a)) (\<lambda>s _.
     let s1 = (if \<not> is_from_block
               then remember_signature H (sa_validator_id a) (sa_message a) (sa_signature a) s else s) in
     (on_attestation_internal s1 (sa_validator_id a) (sa_message a) is_from_block, Ok ()))"

section \<open>Blocks\<close>

text \<open>The proofs of a block, stored under every validator its attestation names.\<close>

definition store_proofs ::
  "ssz_root \<Rightarrow> aggregated_attestation list \<Rightarrow> aggregated_signature_proof list \<Rightarrow> payload_map \<Rightarrow> payload_map" where
  "store_proofs H atts proofs m =
     fold (\<lambda>(att_idx, a) m.
         case plist_get proofs (word_of_nat att_idx) of
           Ok p \<Rightarrow> fold (\<lambda>validator_id. hm_push (signature_key_new validator_id (root_data H (aa_data a))) p)
                     (set_bit_indices (aa_bits a)) m
         | _ \<Rightarrow> m)
       (List.enumerate 0 atts) m"

definition on_chain_votes :: "aggregated_attestation list \<Rightarrow> store \<Rightarrow> store" where
  "on_chain_votes atts s =
     fold (\<lambda>a s. fold (\<lambda>validator_id s. on_attestation_internal s validator_id (aa_data a) True)
                   (set_bit_indices (aa_bits a)) s)
       atts s"

definition insert_block :: "h256 \<Rightarrow> block \<Rightarrow> state \<Rightarrow> store \<Rightarrow> store" where
  "insert_block block_root b new_state s =
     (let s1 = s\<lparr>blocks := hm_insert block_root b (blocks s),
                states := hm_insert block_root new_state (states s)\<rparr>;
          s2 = (if cp_slot (st_latest_justified new_state) > cp_slot (fc_latest_justified s)
                then s1\<lparr>fc_latest_justified := st_latest_justified new_state\<rparr> else s1) in
      if cp_slot (st_latest_finalized new_state) > cp_slot (fc_latest_finalized s)
      then s2\<lparr>fc_latest_finalized := st_latest_finalized new_state\<rparr> else s2)"

definition process_block_internal ::
  "ssz_root \<Rightarrow> signed_block_with_attestation \<Rightarrow> h256 \<Rightarrow> store \<Rightarrow> (store, unit) mut" where
  "process_block_internal H signed_block block_root s =
     (let b = bwa_block (sb_message signed_block);
          atts = attestations (b_body b);
          proposer = bwa_proposer_attestation (sb_message signed_block) in
      and_do (s, ok_or (hm_get (states s) (b_parent_root b)) NoParentState) (\<lambda>s parent_state.
      and_do (s, state_transition H parent_state signed_block True) (\<lambda>s new_state.
      let s1 = insert_block block_root b new_state s;
          s2 = s1\<lparr>aggregated_payloads :=
                    store_proofs H atts (attestation_signatures (sb_signature signed_block))
                      (aggregated_payloads s1)\<rparr>;
          s3 = on_chain_votes atts s2 in
      and_do (run_step s3 (update_head s3)) (\<lambda>s4 _.
      let s5 = remember_signature H (att_validator_id proposer) (att_data proposer)
                 (proposer_signature (sb_signature signed_block)) s4 in
      (on_attestation_internal s5 (att_validator_id proposer) (att_data proposer) False, Ok ())))))"

section \<open>Blocks that wait for their parent\<close>

text \<open>The blocks of one queue entry, and the roots of those that were accepted.\<close>

fun process_purgatory ::
  "ssz_root \<Rightarrow> signed_block_with_attestation list \<Rightarrow> h256 list \<Rightarrow> store \<Rightarrow> (store \<times> h256 list) res" where
  "process_purgatory H [] roots s = Ok (s, roots)"
| "process_purgatory H (sb # sbs) roots s =
     (let block_root = root_block H (bwa_block (sb_message sb)) in
      case process_block_internal H sb block_root s of
        (s', Ok _) \<Rightarrow> process_purgatory H sbs (roots @ [block_root]) s'
      | (s', Err _) \<Rightarrow> process_purgatory H sbs roots s'
      | (s', Panic p) \<Rightarrow> Panic p
      | (s', Diverge) \<Rightarrow> Diverge)"

definition queued :: "(h256, signed_block_with_attestation list) hmap \<Rightarrow> nat" where
  "queued q = sum_list (map (\<lambda>(_, v). length v) q)"

lemma insert_block_queue [simp]: "blocks_queue (insert_block r b st s) = blocks_queue s"
  by (simp add: insert_block_def Let_def)

lemma on_attestation_internal_queue [simp]:
  "blocks_queue (on_attestation_internal s i d f) = blocks_queue s"
  by (simp add: on_attestation_internal_def Let_def split: option.split)

lemma on_chain_votes_queue [simp]: "blocks_queue (on_chain_votes atts s) = blocks_queue s"
proof -
  have votes: "blocks_queue (fold (\<lambda>i s. on_attestation_internal s i d True) is s) = blocks_queue s" for d "is" s
    by (induction "is" arbitrary: s) auto
  show ?thesis unfolding on_chain_votes_def by (induction atts arbitrary: s) (auto simp: votes)
qed

lemma remember_signature_queue [simp]: "blocks_queue (remember_signature H i d sig s) = blocks_queue s"
  by (simp add: remember_signature_def)

lemma update_head_queue: "update_head s = Ok s' \<Longrightarrow> blocks_queue s' = blocks_queue s"
  by (auto simp: update_head_def)

lemma process_block_internal_queue:
  "blocks_queue (fst (process_block_internal H sb r s)) = blocks_queue s"
  by (auto simp: process_block_internal_def Let_def and_do_fst run_step_def update_head_queue
      split: res.splits)

lemma process_purgatory_queue:
  "process_purgatory H sbs roots s = Ok (s', roots') \<Longrightarrow>
    blocks_queue s' = blocks_queue s \<and> length roots' \<le> length roots + length sbs"
proof (induction H sbs roots s rule: process_purgatory.induct)
  case (2 H sb sbs roots s)
  obtain s1 r where p: "process_block_internal H sb (root_block H (bwa_block (sb_message sb))) s = (s1, r)"
    by fastforce
  have "blocks_queue s1 = blocks_queue s" using process_block_internal_queue p by (metis fst_conv)
  with 2 p show ?case by (cases r) (fastforce simp: Let_def)+
qed simp

lemma queued_remove:
  assumes "hm_get q k = Some v"
  shows "queued (hm_remove k q) + length v \<le> queued q"
  using assms unfolding hm_get_def hm_remove_def queued_def
proof (induction q)
  case (Cons e q)
  have le: "sum_list (map (\<lambda>(_, v). length v) (AList.delete k q)) \<le> sum_list (map (\<lambda>(_, v). length v) q)"
    by (induction q) auto
  from Cons le show ?case by (cases e) (auto split: if_splits)
qed simp

function process_pending_blocks :: "ssz_root \<Rightarrow> h256 list \<Rightarrow> store \<Rightarrow> store res" where
  "process_pending_blocks H roots s =
     (if roots = [] then Ok s
      else
        let parent_root = last roots; rest = butlast roots in
        (case hm_get (blocks_queue s) parent_root of
           None \<Rightarrow> process_pending_blocks H rest s
         | Some purgatory \<Rightarrow>
             and_then (process_purgatory H purgatory rest
                 (s\<lparr>blocks_queue := hm_remove parent_root (blocks_queue s)\<rparr>))
               (\<lambda>r. process_pending_blocks H (snd r) (fst r))))"
  by pat_completeness auto
termination
proof (relation "measure (\<lambda>(H, roots, s). 2 * queued (blocks_queue s) + length roots)", goal_cases)
  case (3 H roots s parent_root rest purgatory r)
  then obtain s' roots' where r: "r = (s', roots')" by fastforce
  from process_purgatory_queue 3 r
  have "blocks_queue s' = hm_remove parent_root (blocks_queue s)" "length roots' \<le> length rest + length purgatory"
    by fastforce+
  moreover have "queued (hm_remove parent_root (blocks_queue s)) + length purgatory \<le> queued (blocks_queue s)"
    using 3 by (intro queued_remove) simp
  moreover have "length rest < length roots" using 3 by simp
  ultimately show ?case using r by simp
qed auto

declare process_pending_blocks.simps [simp del]

definition on_block :: "ssz_root \<Rightarrow> store \<Rightarrow> signed_block_with_attestation \<Rightarrow> (store, unit) mut" where
  "on_block H s signed_block =
     (let b = bwa_block (sb_message signed_block);
          block_root = root_block H b;
          parent_root = b_parent_root b in
      if hm_contains_key (blocks s) block_root then (s, Ok ())
      else if \<not> hm_contains_key (states s) parent_root \<and> parent_root \<noteq> 0
      then (s\<lparr>blocks_queue := hm_push parent_root signed_block (blocks_queue s)\<rparr>, Err BlockQueued)
      else
        and_do (process_block_internal H signed_block block_root s) (\<lambda>s' _.
        run_step s' (process_pending_blocks H [block_root] s')))"

end
