(* ===== verification/Store_Invariants.thy ===== *)
theory Store_Invariants
  imports Ghost Handlers
begin

text \<open>
  The invariant of the fork choice store, \<open>store_ok\<close>: blocks and states have the same keys, every
  block is stored under its root, its parent is known and older, its post-state is well formed,
  and the head, the safe target and the justified root are known.  Every handler keeps it; from it
  follow that the head selection never panics, so the clock always reaches its target, and that
  the justified and finalized checkpoints of the store only move forwards.

  A block that arrives twice while its parent is missing is processed twice.  That the second
  insertion does no harm needs that the root of a block determines its slot, an instance of the
  collision resistance of the hash: the hypothesis \<open>root_determines_slot\<close>.
\<close>

section \<open>The invariant\<close>

definition root_determines_slot :: "ssz_root \<Rightarrow> bool" where
  "root_determines_slot H \<longleftrightarrow> (\<forall>b b'. root_block H b = root_block H b' \<longrightarrow> b_slot b = b_slot b')"

text \<open>A root stands for a known block at a slot; the zero root stands for no block.\<close>

definition at_slot :: "(h256, block) hmap \<Rightarrow> h256 \<Rightarrow> nat \<Rightarrow> bool" where
  "at_slot bs r n \<longleftrightarrow> r = 0 \<or> (\<exists>c. hm_get bs r = Some c \<and> unat (b_slot c) = n)"

definition history_ok :: "(h256, block) hmap \<Rightarrow> h256 list \<Rightarrow> bool" where
  "history_ok bs hist \<longleftrightarrow> (\<forall>i < length hist. at_slot bs (hist ! i) i)"

definition block_ok :: "ssz_root \<Rightarrow> (h256, block) hmap \<Rightarrow> (h256, state) hmap \<Rightarrow> h256 \<Rightarrow> block \<Rightarrow> bool" where
  "block_ok H bs sts r b \<longleftrightarrow>
     r = root_block H b \<and>
     (b_parent_root b \<noteq> 0 \<longrightarrow> (\<exists>p. hm_get bs (b_parent_root b) = Some p \<and> b_slot p < b_slot b)) \<and>
     (\<exists>st. hm_get sts r = Some st \<and> wf_state st \<and> bh_slot (latest_block_header st) = b_slot b \<and>
        history_ok bs (historical_block_hashes st))"

definition tree_ok :: "ssz_root \<Rightarrow> (h256, block) hmap \<Rightarrow> (h256, state) hmap \<Rightarrow> bool" where
  "tree_ok H bs sts \<longleftrightarrow> hm_ok bs \<and> hm_ok sts \<and> bs \<noteq> [] \<and>
     (\<forall>r. hm_contains_key sts r \<longrightarrow> hm_contains_key bs r) \<and>
     (\<forall>r b. hm_get bs r = Some b \<longrightarrow> block_ok H bs sts r b)"

definition store_ok :: "ssz_root \<Rightarrow> store \<Rightarrow> bool" where
  "store_ok H s \<longleftrightarrow> tree_ok H (blocks s) (states s) \<and>
     hm_contains_key (blocks s) (fc_head s) \<and> hm_contains_key (blocks s) (safe_target s) \<and>
     cp_slot (fc_latest_finalized s) \<le> cp_slot (fc_latest_justified s) \<and>
     at_slot (blocks s) (cp_root (fc_latest_justified s)) (unat (cp_slot (fc_latest_justified s))) \<and>
     at_slot (blocks s) (cp_root (fc_latest_finalized s)) (unat (cp_slot (fc_latest_finalized s)))"

lemma at_slot_known: "at_slot bs r n \<Longrightarrow> r = 0 \<or> hm_contains_key bs r"
  by (auto simp: at_slot_def)

lemma at_slot_insert:
  "at_slot bs r n \<Longrightarrow> (\<And>q. hm_get bs k = Some q \<Longrightarrow> b_slot q = b_slot b) \<Longrightarrow> at_slot (hm_insert k b bs) r n"
  by (auto simp: at_slot_def)

text \<open>The fields that the invariant reads.\<close>

lemma store_ok_cong:
  "blocks s' = blocks s \<Longrightarrow> states s' = states s \<Longrightarrow> fc_head s' = fc_head s \<Longrightarrow>
   safe_target s' = safe_target s \<Longrightarrow> fc_latest_justified s' = fc_latest_justified s \<Longrightarrow>
   fc_latest_finalized s' = fc_latest_finalized s \<Longrightarrow>
   store_ok H s' = store_ok H s"
  by (simp add: store_ok_def)

section \<open>Inserting a block\<close>

lemma state_transition_header:
  assumes "wf_state st" and "state_transition H st sb valid = Ok st'"
  defines "b \<equiv> bwa_block (sb_message sb)"
  shows "bh_slot (latest_block_header st') = b_slot b" and "bh_slot (latest_block_header st) < b_slot b"
    and "wf_state st'" and "historical_block_hashes st' \<noteq> []"
    and "\<exists>n. historical_block_hashes st' = historical_block_hashes st @ b_parent_root b # replicate n 0"
proof -
  from assms(2) obtain st1 st2 where 1: "process_slots H st (b_slot b) = Ok st1"
    and 2: "process_block_header H st1 b = Ok st2"
    and 3: "process_attestations st2 (attestations (b_body b)) = Ok st'"
    by (auto simp: state_transition_def process_block_def Let_def b_def split: if_splits)
  have s: "same_chain st st1" "wf_state st1"
    using process_slots_advances[OF assms(1) 1] by (simp_all add: advances_def)
  note h = process_block_header_Ok[OF 2 s(2)] and w = process_block_header_wf[OF s(2) 2]
  have same: "latest_block_header st' = latest_block_header st2"
    by (rule process_attestations_Ok[OF w(1,2) 3]) (simp add: loop_end_def Let_def)
  show "bh_slot (latest_block_header st') = b_slot b"
    unfolding same by (subst h(5)) (simp add: header_of_def)
  show "bh_slot (latest_block_header st) < b_slot b" using h(2) s(1) by (auto simp: same_chain_def)
  show "wf_state st'" using state_transition_advances[OF assms(1,2)] by (simp add: advances_def)
  have hist: "\<exists>n. historical_block_hashes st' =
      historical_block_hashes st @ b_parent_root b # replicate n 0"
    unfolding b_def by (rule state_transition_history[OF assms(1,2)]) blast
  then show "historical_block_hashes st' \<noteq> []"
    "\<exists>n. historical_block_hashes st' = historical_block_hashes st @ b_parent_root b # replicate n 0" by auto
qed

lemma tree_ok_state:
  assumes "tree_ok H bs sts" and "hm_get sts r = Some st"
  obtains b where "hm_get bs r = Some b" and "r = root_block H b" and "wf_state st"
    and "bh_slot (latest_block_header st) = b_slot b"
    and "history_ok bs (historical_block_hashes st)"
proof -
  have "hm_contains_key bs r" using assms by (auto simp: tree_ok_def)
  then obtain b where b: "hm_get bs r = Some b" by (auto simp: hm_contains_key_def)
  then have "block_ok H bs sts r b" using assms(1) by (simp add: tree_ok_def)
  with b assms(2) show ?thesis by (intro that[of b]) (auto simp: block_ok_def)
qed

lemma tree_ok_insert:
  assumes tree: "tree_ok H bs sts" and det: "root_determines_slot H"
    and par: "hm_get sts (b_parent_root b) = Some pst"
    and tr: "state_transition H pst sb valid = Ok st'" and b: "b = bwa_block (sb_message sb)"
    and r: "r = root_block H b"
  shows "tree_ok H (hm_insert r b bs) (hm_insert r st' sts)"
    and "history_ok (hm_insert r b bs) (historical_block_hashes st')"
    and "\<And>q n. at_slot bs q n \<Longrightarrow> at_slot (hm_insert r b bs) q n"
proof -
  let ?bs = "hm_insert r b bs" and ?sts = "hm_insert r st' sts"
  obtain p where p: "hm_get bs (b_parent_root b) = Some p" "wf_state pst"
    "bh_slot (latest_block_header pst) = b_slot p"
    "history_ok bs (historical_block_hashes pst)"
    using tree_ok_state[OF tree par] by metis
  note h = state_transition_header[OF p(2) tr, folded b]
  have same_slot: "b_slot q = b_slot b" if "hm_get bs r = Some q" for q
    using that tree det r by (metis block_ok_def root_determines_slot_def tree_ok_def)
  show keep: "at_slot ?bs q n" if "at_slot bs q n" for q n
    using that same_slot by (rule at_slot_insert)
  show hist: "history_ok ?bs (historical_block_hashes st')"
  proof -
    obtain n where eq: "historical_block_hashes st' = historical_block_hashes pst @ b_parent_root b # replicate n 0"
      using h(5) by blast
    have len: "length (historical_block_hashes pst) = unat (b_slot p)"
      using p(2,3) by (simp add: wf_state_def wf_chain_def Let_def)
    have "at_slot bs (b_parent_root b) (unat (b_slot p))" using p(1) by (simp add: at_slot_def)
    moreover have "at_slot ?bs 0 i" for i by (simp add: at_slot_def)
    ultimately show ?thesis
      using p(4) keep unfolding history_ok_def eq by (auto simp: nth_append nth_Cons' len)
  qed
  have "block_ok H ?bs ?sts q c" if "hm_get ?bs q = Some c" for q c
  proof (cases "q = r")
    case True
    with that have c: "c = b" by simp
    have "b_parent_root b \<noteq> r" using p(1) same_slot h(2) p(3) by fastforce
    with True c r h(1,2,3) p(1,3) hist show ?thesis by (simp add: block_ok_def)
  next
    case False
    with that have "block_ok H bs sts q c" using tree by (simp add: tree_ok_def)
    then show ?thesis using False same_slot keep
      by (cases "b_parent_root c = r") (auto simp: block_ok_def history_ok_def)
  qed
  moreover have "?bs \<noteq> []" using hm_contains_insert[of r b bs r] by (auto simp: hm_contains_key_def hm_get_def)
  ultimately show "tree_ok H ?bs ?sts" using tree by (simp add: tree_ok_def)
qed

section \<open>The head selection is total\<close>

lemma tree_ok_parents_older: "tree_ok H bs sts \<Longrightarrow> parents_older bs"
  unfolding parents_older_def list_all_iff tree_ok_def
  by (fastforce simp: block_ok_def hm_in_get split: option.split)

lemma min_block_known:
  assumes "bs \<noteq> []"
  shows "\<exists>r. min_block bs = Some r \<and> hm_contains_key bs r"
proof -
  obtain e es where bs: "bs = e # es" using assms by (cases bs) auto
  let ?f = "\<lambda>e best. if b_slot (snd e) < b_slot (snd best) then e else (best :: h256 \<times> block)"
  have "fold ?f es x \<in> insert x (set es)" for x
  proof (induction es arbitrary: x)
    case (Cons y ys)
    from Cons.IH[of x] Cons.IH[of y] show ?case by (cases "b_slot (snd y) < b_slot (snd x)") auto
  qed simp
  then have "fold ?f es e \<in> set bs" using bs by (simp only: list.set)
  then have "hm_contains_key bs (fst (fold ?f es e))" by (simp add: hm_contains_key_keys hm_keys_def)
  then show ?thesis using bs by simp
qed

lemma get_fork_choice_head_known:
  assumes "tree_ok H (blocks s) sts" and "root = 0 \<or> hm_contains_key (blocks s) root"
  shows "\<exists>h. get_fork_choice_head s root atts m = Ok h \<and> hm_contains_key (blocks s) h"
proof -
  let ?bs = "blocks s"
  have po: "parents_older ?bs" and ok: "hm_ok ?bs" and ne: "?bs \<noteq> []"
    using assms(1) tree_ok_parents_older by (auto simp: tree_ok_def)
  obtain r where r: "(if root = 0 then or_panic (min_block ?bs) EmptyBlocks else Ok root) = Ok r"
    "hm_contains_key ?bs r"
    using min_block_known[OF ne] assms(2) that by (cases "root = 0") auto
  then obtain b where b: "hm_get ?bs r = Some b" by (auto simp: hm_contains_key_def)
  obtain w where w: "vote_weights s (b_slot b) atts = Ok w" using vote_weights_Ok[OF po ok] by blast
  have "bt.above ?bs (set (hm_keys ?bs)) r < walk_fuel s"
    using bt.above_le[of "set (hm_keys ?bs)" ?bs r] card_keys[OF ok] by (simp add: walk_fuel_def)
  from greedy_walk_ghost[OF po ok r(2) this, of w m] obtain h where
    "greedy_walk (walk_fuel s) w (child_map ?bs w m) r = Ok h" "hm_contains_key ?bs h" by blast
  then show ?thesis
    using r(1) b w by (simp add: get_fork_choice_head_def block_slot_def map_res_def)
qed

section \<open>What a handler keeps\<close>

text \<open>
  \<open>evolves H s s'\<close>: from a store that satisfies the invariant a handler leads to one that does, with
  at least the same blocks, and neither the justified nor the finalized slot moves backwards.
\<close>

definition evolves :: "ssz_root \<Rightarrow> store \<Rightarrow> store \<Rightarrow> bool" where
  "evolves H s s' \<longleftrightarrow> (store_ok H s \<longrightarrow> store_ok H s' \<and>
     (\<forall>r. hm_contains_key (blocks s) r \<longrightarrow> hm_contains_key (blocks s') r) \<and>
     cp_slot (fc_latest_justified s) \<le> cp_slot (fc_latest_justified s') \<and>
     cp_slot (fc_latest_finalized s) \<le> cp_slot (fc_latest_finalized s'))"

lemma evolves_refl [simp]: "evolves H s s"
  by (simp add: evolves_def)

lemma evolves_trans: "evolves H s t \<Longrightarrow> evolves H t u \<Longrightarrow> evolves H s u"
  by (auto simp: evolves_def)

lemma evolves_same:
  "blocks s' = blocks s \<Longrightarrow> states s' = states s \<Longrightarrow> fc_head s' = fc_head s \<Longrightarrow>
   safe_target s' = safe_target s \<Longrightarrow> fc_latest_justified s' = fc_latest_justified s \<Longrightarrow>
   fc_latest_finalized s' = fc_latest_finalized s \<Longrightarrow> evolves H s s'"
  by (simp add: evolves_def store_ok_cong[of s' s])

lemma fold_evolves:
  assumes "\<And>x s. evolves H s (f x s)"
  shows "evolves H s (fold f xs s)"
  by (induction xs arbitrary: s) (auto intro: evolves_trans[OF assms])

lemma update_head_total:
  assumes "store_ok H s"
  shows "\<exists>h. update_head s = Ok (s\<lparr>fc_head := h\<rparr>) \<and> store_ok H (s\<lparr>fc_head := h\<rparr>)"
proof -
  obtain h where "get_fork_choice_head s (cp_root (fc_latest_justified s)) (latest_known_attestations s) 0 = Ok h"
    "hm_contains_key (blocks s) h"
    using assms get_fork_choice_head_known[of H s "states s"] at_slot_known unfolding store_ok_def by metis
  then show ?thesis using assms by (auto simp: update_head_def map_res_def store_ok_def)
qed

lemma update_safe_target_total:
  assumes "store_ok H s"
  shows "\<exists>h. update_safe_target s = Ok (s\<lparr>safe_target := h\<rparr>) \<and> store_ok H (s\<lparr>safe_target := h\<rparr>)"
proof -
  obtain h where "get_fork_choice_head s (cp_root (fc_latest_justified s)) (latest_new_attestations s)
      (((case hm_get (states s) (fc_head s) of Some st \<Rightarrow> length (validators st) | None \<Rightarrow> 0) * 2 + 2) div 3) = Ok h"
    "hm_contains_key (blocks s) h"
    using assms get_fork_choice_head_known[of H s "states s"] at_slot_known unfolding store_ok_def by metis
  then show ?thesis using assms by (auto simp: update_safe_target_def map_res_def store_ok_def Let_def)
qed

text \<open>A total step of the clock.\<close>

definition steps_to :: "ssz_root \<Rightarrow> store \<Rightarrow> store res \<Rightarrow> bool" where
  "steps_to H s r \<longleftrightarrow> (\<exists>s'. r = Ok s' \<and> store_ok H s' \<and> evolves H s s')"

lemma steps_toI:
  "r = Ok s' \<Longrightarrow> store_ok H s' \<Longrightarrow> blocks s' = blocks s \<Longrightarrow> fc_latest_justified s' = fc_latest_justified s \<Longrightarrow>
   fc_latest_finalized s' = fc_latest_finalized s \<Longrightarrow> steps_to H s r"
  by (auto simp: steps_to_def evolves_def)

lemma steps_to_same:
  "steps_to H s r \<Longrightarrow> evolves H t s \<Longrightarrow> steps_to H t r"
  by (auto simp: steps_to_def intro: evolves_trans)

lemma update_head_steps: "store_ok H s \<Longrightarrow> steps_to H s (update_head s)"
  by (drule update_head_total) (auto intro: steps_toI)

lemma update_safe_target_steps: "store_ok H s \<Longrightarrow> steps_to H s (update_safe_target s)"
  by (drule update_safe_target_total) (auto intro: steps_toI)

lemma accept_new_attestations_steps:
  assumes "store_ok H s"
  shows "steps_to H s (accept_new_attestations s)"
proof -
  let ?s = "s\<lparr>latest_known_attestations := hm_extend (latest_known_attestations s) (latest_new_attestations s),
              latest_new_attestations := []\<rparr>"
  have ev: "evolves H s ?s" by (rule evolves_same) simp_all
  then have "steps_to H ?s (update_head ?s)" using assms by (intro update_head_steps) (simp add: evolves_def)
  then show ?thesis unfolding accept_new_attestations_def by (rule steps_to_same[OF _ ev])
qed

lemma tick_interval_steps:
  assumes "store_ok H s"
  shows "steps_to H s (tick_interval s p)"
proof -
  let ?s = "s\<lparr>fc_time := fc_time s + 1\<rparr>"
  have ev: "evolves H s ?s" by (rule evolves_same) simp_all
  then have ok: "store_ok H ?s" using assms by (simp add: evolves_def)
  have "steps_to H ?s (tick_interval s p)"
    using accept_new_attestations_steps[OF ok] update_safe_target_steps[OF ok] ok
    by (simp add: tick_interval_def Let_def steps_to_def)
  then show ?thesis by (rule steps_to_same[OF _ ev])
qed

lemma on_tick_loop_steps:
  "store_ok H s \<Longrightarrow> steps_to H s (on_tick_loop t p s) \<and>
    (\<forall>s'. on_tick_loop t p s = Ok s' \<longrightarrow> fc_time s' = max (fc_time s) t)"
proof (induction t p s rule: on_tick_loop.induct)
  case (1 t p s)
  show ?case
  proof (cases "fc_time s < t")
    case True
    let ?p = "p \<and> fc_time s + 1 = t"
    obtain s1 where s1: "tick_interval s ?p = Ok s1" "store_ok H s1" "evolves H s s1"
      using tick_interval_steps[OF "1.prems"] by (auto simp: steps_to_def)
    note IH = "1.IH"[OF True s1(1,2)]
    have "fc_time s1 = fc_time s + 1" by (rule tick_interval_time[OF s1(1)])
    moreover have "fc_time s + 1 \<le> t" "fc_time s < fc_time s + 1"
      using True by (simp_all add: word_less_nat_alt word_le_nat_alt unat_add_one[of "fc_time s" t])
    moreover have "on_tick_loop t p s = on_tick_loop t p s1" using True s1(1) by (subst on_tick_loop.simps) simp
    ultimately show ?thesis using IH s1(3) steps_to_same by (auto simp: max_def)
  next
    case False
    then show ?thesis using "1.prems" by (subst (1 2) on_tick_loop.simps) (auto simp: steps_to_def max_def)
  qed
qed

section \<open>The handlers\<close>

lemma on_attestation_internal_evolves [simp]: "evolves H s (on_attestation_internal s i d f)"
  by (rule evolves_same) (simp_all add: on_attestation_internal_def Let_def split: option.split)

lemma remember_signature_evolves [simp]: "evolves H s (remember_signature H' i d sig s)"
  by (rule evolves_same) (simp_all add: remember_signature_def)

lemma on_chain_votes_evolves [simp]: "evolves H s (on_chain_votes atts s)"
  unfolding on_chain_votes_def by (intro fold_evolves on_attestation_internal_evolves)

lemma on_gossip_attestation_evolves: "evolves H s (fst (on_gossip_attestation H' s a))"
  by (auto simp: on_gossip_attestation_def and_do_fst Let_def split: res.split
      intro: evolves_trans[OF remember_signature_evolves on_attestation_internal_evolves])

lemma on_attestation_evolves: "evolves H s (fst (on_attestation H' s a f))"
  by (auto simp: on_attestation_def and_do_fst Let_def split: res.split
      intro: evolves_trans[OF remember_signature_evolves on_attestation_internal_evolves])

lemma wf_state_checkpoints:
  assumes "wf_state st" and "historical_block_hashes st \<noteq> []"
  shows "cp_slot (st_latest_finalized st) \<le> cp_slot (st_latest_justified st)"
    and "history_ok bs (historical_block_hashes st) \<Longrightarrow>
      at_slot bs (cp_root (st_latest_justified st)) (unat (cp_slot (st_latest_justified st)))"
    and "history_ok bs (historical_block_hashes st) \<Longrightarrow>
      at_slot bs (cp_root (st_latest_finalized st)) (unat (cp_slot (st_latest_finalized st)))"
  using assms by (auto simp: wf_state_def wf_chain_def on_chain_iff history_ok_def Let_def)

lemma insert_block_evolves:
  assumes det: "root_determines_slot H" and ok: "store_ok H s"
    and par: "hm_get (states s) (b_parent_root b) = Some pst"
    and tr: "state_transition H pst sb valid = Ok st'" and b: "b = bwa_block (sb_message sb)"
  shows "evolves H s (insert_block (root_block H b) b st' s)"
    and "hm_contains_key (blocks (insert_block (root_block H b) b st' s)) (root_block H b)"
proof -
  let ?r = "root_block H b"
  have tree: "tree_ok H (blocks s) (states s)" using ok by (simp add: store_ok_def)
  note ins = tree_ok_insert[OF tree det par tr b HOL.refl]
  obtain p where "wf_state pst" using tree_ok_state[OF tree par] by blast
  note h = state_transition_header[OF this tr]
  note cp = wf_state_checkpoints(1)[OF h(3,4)] wf_state_checkpoints(2,3)[OF h(3,4) ins(2)]
  show "evolves H s (insert_block ?r b st' s)"
    using ok ins(1) ins(3) cp unfolding evolves_def store_ok_def insert_block_def Let_def
    by auto
  show "hm_contains_key (blocks (insert_block ?r b st' s)) ?r"
    by (simp add: insert_block_def Let_def)
qed

lemma insert_block_maps [simp]:
  "blocks (insert_block r b st s) = hm_insert r b (blocks s)"
  "states (insert_block r b st s) = hm_insert r st (states s)"
  by (simp_all add: insert_block_def Let_def)

lemma on_attestation_internal_maps [simp]:
  "blocks (on_attestation_internal s i d f) = blocks s"
  "states (on_attestation_internal s i d f) = states s"
  by (simp_all add: on_attestation_internal_def Let_def split: option.split)

lemma fold_field:
  assumes "\<And>x s. field (f x s) = field s"
  shows "field (fold f xs s) = field s"
  using assms by (induction xs arbitrary: s) auto

lemma on_chain_votes_maps [simp]:
  "blocks (on_chain_votes atts s) = blocks s" "states (on_chain_votes atts s) = states s"
  unfolding on_chain_votes_def by (intro fold_field on_attestation_internal_maps)+

lemma remember_signature_maps [simp]:
  "blocks (remember_signature H i d sig s) = blocks s" "states (remember_signature H i d sig s) = states s"
  by (simp_all add: remember_signature_def)

lemma update_head_maps: "update_head s = Ok s' \<Longrightarrow> blocks s' = blocks s \<and> states s' = states s"
  by (auto simp: update_head_def)

lemma process_block_internal_Ok:
  assumes det: "root_determines_slot H" and ok: "store_ok H s"
    and b: "b = bwa_block (sb_message sb)" and r: "r = root_block H b"
    and par: "hm_get (states s) (b_parent_root b) = Some pst"
    and tr: "state_transition H pst sb True = Ok st'"
  shows "\<exists>s'. process_block_internal H sb r s = (s', Ok ()) \<and> evolves H s s' \<and>
    blocks s' = hm_insert r b (blocks s) \<and> states s' = hm_insert r st' (states s)"
proof -
  let ?p = "bwa_proposer_attestation (sb_message sb)" and ?atts = "attestations (b_body b)"
  let ?s1 = "insert_block r b st' s"
  let ?s2 = "?s1\<lparr>aggregated_payloads := store_proofs H ?atts (attestation_signatures (sb_signature sb))
    (aggregated_payloads ?s1)\<rparr>"
  let ?s3 = "on_chain_votes ?atts ?s2"
  have "evolves H ?s1 ?s2" by (rule evolves_same) simp_all
  then have "evolves H ?s1 ?s3" by (rule evolves_trans[OF _ on_chain_votes_evolves])
  with insert_block_evolves(1)[OF det ok par tr b] have e3: "evolves H s ?s3"
    unfolding r by (rule evolves_trans)
  then obtain s4 where s4: "update_head ?s3 = Ok s4" "evolves H ?s3 s4"
    using ok update_head_steps[of H ?s3] by (auto simp: steps_to_def evolves_def)
  let ?s5 = "remember_signature H (att_validator_id ?p) (att_data ?p) (proposer_signature (sb_signature sb)) s4"
  let ?s6 = "on_attestation_internal ?s5 (att_validator_id ?p) (att_data ?p) False"
  have "process_block_internal H sb r s = (?s6, Ok ())"
    using par tr s4(1) by (simp add: process_block_internal_def Let_def run_step_def b)
  moreover have "evolves H s4 ?s6"
    by (rule evolves_trans[OF remember_signature_evolves on_attestation_internal_evolves])
  then have "evolves H s ?s6" by (rule evolves_trans[OF evolves_trans[OF e3 s4(2)]])
  moreover have "blocks ?s6 = hm_insert r b (blocks s)" "states ?s6 = hm_insert r st' (states s)"
    using update_head_maps[OF s4(1)] by simp_all
  ultimately show ?thesis by blast
qed

text \<open>
  Processing a block: an error leaves the store as it was, acceptance keeps the invariant, and
  there is no panic unless the state transition itself panics.
\<close>

lemma process_block_internal_cases:
  assumes det: "root_determines_slot H" and ok: "store_ok H s"
    and r: "r = root_block H (bwa_block (sb_message sb))"
  shows "(\<exists>s'. process_block_internal H sb r s = (s', Ok ()) \<and> evolves H s s' \<and> hm_contains_key (blocks s') r) \<or>
    (\<exists>x. process_block_internal H sb r s = (s, x) \<and> (\<forall>a. x \<noteq> Ok a))"
proof (cases "hm_get (states s) (b_parent_root (bwa_block (sb_message sb)))")
  case (Some pst)
  show ?thesis
  proof (cases "state_transition H pst sb True")
    case (Ok st')
    from process_block_internal_Ok[OF det ok HOL.refl r Some Ok] show ?thesis by auto
  qed (auto simp: Some process_block_internal_def Let_def)
qed (auto simp: process_block_internal_def Let_def)

lemma process_purgatory_evolves:
  assumes det: "root_determines_slot H"
  shows "store_ok H s \<Longrightarrow> process_purgatory H sbs roots s = Ok (s', roots') \<Longrightarrow>
    evolves H s s' \<and> (\<forall>r \<in> set roots'. r \<in> set roots \<or> hm_contains_key (blocks s') r)"
proof (induction sbs arbitrary: roots s)
  case (Cons sb sbs)
  let ?r = "root_block H (bwa_block (sb_message sb))"
  from process_block_internal_cases[OF det Cons.prems(1) HOL.refl, of sb] show ?case
  proof (elim disjE exE conjE)
    fix s1 assume s1: "process_block_internal H sb ?r s = (s1, Ok ())" "evolves H s s1"
      "hm_contains_key (blocks s1) ?r"
    then have ok: "store_ok H s1" using Cons.prems(1) by (simp add: evolves_def)
    have "process_purgatory H sbs (roots @ [?r]) s1 = Ok (s', roots')" using Cons.prems(2) s1(1) by (simp add: Let_def)
    from Cons.IH[OF ok this] ok s1 show ?thesis by (auto intro: evolves_trans simp: evolves_def)
  next
    fix x assume x: "process_block_internal H sb ?r s = (s, x)" "\<forall>a. x \<noteq> Ok a"
    then have "process_purgatory H sbs roots s = Ok (s', roots')"
      using Cons.prems(2) by (cases x) (simp_all add: Let_def)
    from Cons.IH[OF Cons.prems(1) this] show ?thesis .
  qed
qed simp

lemma process_pending_blocks_evolves:
  assumes det: "root_determines_slot H"
  shows "store_ok H s \<Longrightarrow> process_pending_blocks H roots s = Ok s' \<Longrightarrow> evolves H s s'"
  using det
proof (induction H roots s rule: process_pending_blocks.induct)
  case (1 H roots s)
  let ?p = "last roots" and ?q = "\<lambda>s. s\<lparr>blocks_queue := hm_remove (last roots) (blocks_queue s)\<rparr>"
  show ?case
  proof (cases "roots = []")
    case True
    with "1.prems" show ?thesis by (simp add: process_pending_blocks.simps)
  next
    case False
    show ?thesis
    proof (cases "hm_get (blocks_queue s) ?p")
      case None
      with False "1.prems" "1.IH"(1)[OF False HOL.refl HOL.refl None] show ?thesis
        by (subst (asm) process_pending_blocks.simps) (simp add: Let_def)
    next
      case (Some sbs)
      from False Some "1.prems" obtain s1 roots1 where
        p: "process_purgatory H sbs (butlast roots) (?q s) = Ok (s1, roots1)"
          "process_pending_blocks H roots1 s1 = Ok s'"
        by (subst (asm) process_pending_blocks.simps) (auto simp: Let_def)
      have ev: "evolves H s (?q s)" by (rule evolves_same) simp_all
      then have ok: "store_ok H (?q s)" using "1.prems" by (simp add: evolves_def)
      have ev1: "evolves H (?q s) s1" using process_purgatory_evolves[OF "1.prems"(3) ok p(1)] by simp
      then have "store_ok H s1" using ok by (simp add: evolves_def)
      then have "evolves H s1 s'"
        using "1.IH"(2)[OF False HOL.refl HOL.refl Some p(1)] p(2) "1.prems"(3) by simp
      then show ?thesis by (rule evolves_trans[OF evolves_trans[OF ev ev1]])
    qed
  qed
qed

lemma run_step_evolves:
  "(\<And>s'. r = Ok s' \<Longrightarrow> evolves H s s') \<Longrightarrow> evolves H s (fst (run_step s r))"
  by (simp add: run_step_def split: res.split)

lemma on_block_evolves:
  assumes det: "root_determines_slot H"
  shows "evolves H s (fst (on_block H s sb))"
proof (cases "store_ok H s")
  case True
  let ?b = "bwa_block (sb_message sb)"
  have queue: "evolves H s (s\<lparr>blocks_queue := q\<rparr>)" for q by (rule evolves_same) simp_all
  from process_block_internal_cases[OF det True HOL.refl, of sb] show ?thesis
  proof (elim disjE exE conjE)
    fix s1 assume s1: "process_block_internal H sb (root_block H ?b) s = (s1, Ok ())" "evolves H s s1"
    then have "evolves H s1 (fst (run_step s1 (process_pending_blocks H [root_block H ?b] s1)))"
      using True by (intro run_step_evolves process_pending_blocks_evolves[OF det]) (simp_all add: evolves_def)
    with s1 queue show ?thesis by (auto simp: on_block_def Let_def intro: evolves_trans)
  next
    fix x assume "process_block_internal H sb (root_block H ?b) s = (s, x)" "\<forall>a. x \<noteq> Ok a"
    with queue show ?thesis by (cases x) (auto simp: on_block_def Let_def)
  qed
qed (simp add: evolves_def)

section \<open>Producing a block\<close>

lemma on_tick_steps: "store_ok H s \<Longrightarrow> steps_to H s (on_tick s time p)"
  unfolding on_tick_def using on_tick_loop_steps by blast

lemma get_proposal_head_steps:
  assumes "store_ok H s"
  shows "steps_to H s (get_proposal_head s slot)"
proof -
  obtain s1 where s1: "on_tick s (genesis_time (fc_config s) + slot * seconds_per_slot) True = Ok s1"
    "store_ok H s1" "evolves H s s1"
    using on_tick_steps[OF assms] by (auto simp: steps_to_def)
  then show ?thesis
    using steps_to_same[OF accept_new_attestations_steps[OF s1(2)] s1(3)] by (simp add: get_proposal_head_def)
qed

text \<open>What block production returns, and the store it leaves.\<close>

lemma produce_block_cases:
  assumes det: "root_determines_slot H" and ok: "store_ok H s"
  obtains s1 st b post proofs where "get_proposal_head s slot = Ok s1" and "store_ok H s1" and "evolves H s s1"
    and "hm_get (states s1) (fc_head s1) = Some st" and "b_parent_root b = fc_head s1" and "b_slot b = slot"
    and "\<forall>sb. bwa_block (sb_message sb) = b \<longrightarrow> state_transition H st sb True = Ok post"
    and "produce_block_with_signatures first_of X H s slot i =
      (s1\<lparr>blocks := hm_insert (root_block H b) b (blocks s1),
          states := hm_insert (root_block H b) post (states s1)\<rparr>, Ok (root_block H b, b, proofs))"
  | s1 x where "get_proposal_head s slot = Ok s1" and "store_ok H s1" and "evolves H s s1"
    and "produce_block_with_signatures first_of X H s slot i = (s1, x)" and "\<forall>a. x \<noteq> Ok a"
proof -
  obtain s1 where s1: "get_proposal_head s slot = Ok s1" "store_ok H s1" "evolves H s s1"
    using get_proposal_head_steps[OF ok] by (auto simp: steps_to_def)
  let ?known = "map (\<lambda>(i, data). \<lparr>att_validator_id = i, att_data = data\<rparr>) (latest_known_attestations s1)"
  let ?build = "\<lambda>st. build_block first_of X H st slot i (fc_head s1) None (Some ?known)
    (Some (set (hm_keys (blocks s1)))) (Some (gossip_signatures s1)) (Some (aggregated_payloads s1))"
  let ?run = "and_then (ok_or (hm_get (states s1) (fc_head s1)) HeadStateNotFound) (\<lambda>st.
    and_then (is_proposer_for i slot (word_of_nat (length (validators st)))) (\<lambda>yes.
    if yes then map_res (\<lambda>r. (st, r)) (?build st) else Err NotTheProposer))"
  show ?thesis
  proof (cases ?run)
    case (Ok r)
    then obtain st b post aggs proofs where st: "hm_get (states s1) (fc_head s1) = Some st"
      and "is_proposer_for i slot (word_of_nat (length (validators st))) = Ok True"
      and built: "?build st = Ok (b, post, aggs, proofs)" by (auto split: if_splits)
    then have "produce_block_with_signatures first_of X H s slot i =
      (s1\<lparr>blocks := hm_insert (root_block H b) b (blocks s1),
          states := hm_insert (root_block H b) post (states s1)\<rparr>, Ok (root_block H b, b, proofs))"
      using s1(1) by (simp add: produce_block_with_signatures_def run_step_def Let_def)
    moreover note t = build_block_transition[OF built, of "sealed b"]
    have "b_parent_root b = fc_head s1" "b_slot b = slot" using t(2,3) by (simp_all add: sealed_def)
    ultimately show ?thesis using that(1) s1 st build_block_transition(1)[OF built] by blast
  next
    case (Err e)
    then have "\<exists>e. produce_block_with_signatures first_of X H s slot i = (s1, Err e)"
      using s1(1) by (auto simp: produce_block_with_signatures_def run_step_def Let_def ok_or_def and_then_Err
          map_res_def split: if_splits option.splits)
    then show ?thesis using that(2)[OF s1] by blast
  next
    case (Panic e)
    then have "\<exists>e. produce_block_with_signatures first_of X H s slot i = (s1, Panic e)"
      using s1(1) by (auto simp: produce_block_with_signatures_def run_step_def Let_def ok_or_def and_then_Panic
          map_res_def split: if_splits option.splits)
    then show ?thesis using that(2)[OF s1] by blast
  next
    case Diverge
    then have "produce_block_with_signatures first_of X H s slot i = (s1, Diverge)"
      using s1(1) by (auto simp: produce_block_with_signatures_def run_step_def Let_def ok_or_def and_then_Diverge
          map_res_def split: if_splits option.splits)
    then show ?thesis using that(2)[OF s1] by blast
  qed
qed

lemma produce_block_evolves:
  assumes det: "root_determines_slot H"
  shows "evolves H s (fst (produce_block_with_signatures first_of X H s slot i))"
proof (cases "store_ok H s")
  case True
  show ?thesis
  proof (rule produce_block_cases[OF det True, of slot first_of X i])
    fix s1 st b post proofs
    assume s1: "store_ok H s1" "evolves H s s1" and st: "hm_get (states s1) (fc_head s1) = Some st"
      "b_parent_root b = fc_head s1" and tr: "\<forall>sb. bwa_block (sb_message sb) = b \<longrightarrow> state_transition H st sb True = Ok post"
      and eq: "produce_block_with_signatures first_of X H s slot i =
      (s1\<lparr>blocks := hm_insert (root_block H b) b (blocks s1),
          states := hm_insert (root_block H b) post (states s1)\<rparr>, Ok (root_block H b, b, proofs))"
    have b: "b = bwa_block (sb_message (sealed b))" by (simp add: sealed_def)
    have tree: "tree_ok H (blocks s1) (states s1)" using s1(1) by (simp add: store_ok_def)
    have par: "hm_get (states s1) (b_parent_root b) = Some st" by (simp add: st)
    note ins = tree_ok_insert[OF tree det par tr[rule_format, OF b[symmetric]] b HOL.refl]
    then have "evolves H s1 (fst (produce_block_with_signatures first_of X H s slot i))"
      using s1(1) by (auto simp: eq evolves_def store_ok_def)
    then show ?thesis by (rule evolves_trans[OF s1(2)])
  qed simp
qed (simp add: evolves_def)

section \<open>The initial store\<close>

text \<open>\<^verbatim>\<open>main\<close> starts the store from a block at slot 0 with a zero parent root.\<close>

definition genesis_block :: "ssz_root \<Rightarrow> state \<Rightarrow> block" where
  "genesis_block H genesis_state =
     \<lparr>b_slot = 0, b_proposer_index = 0, b_parent_root = 0, b_state_root = root_state H genesis_state,
      b_body = \<lparr>attestations = []\<rparr>\<rparr>"

definition genesis_signed_block :: "ssz_root \<Rightarrow> state \<Rightarrow> signed_block_with_attestation" where
  "genesis_signed_block H genesis_state =
     \<lparr>sb_message = \<lparr>bwa_block = genesis_block H genesis_state,
        bwa_proposer_attestation = \<lparr>att_validator_id = 0, att_data =
          \<lparr>ad_slot = 0, ad_head = \<lparr>cp_root = 0, cp_slot = 0\<rparr>, ad_target = \<lparr>cp_root = 0, cp_slot = 0\<rparr>,
           ad_source = \<lparr>cp_root = 0, cp_slot = 0\<rparr>\<rparr>\<rparr>\<rparr>,
      sb_signature = \<lparr>attestation_signatures = [], proposer_signature = signature_default\<rparr>\<rparr>"

definition genesis_store :: "ssz_root \<Rightarrow> u64 \<Rightarrow> state \<Rightarrow> store" where
  "genesis_store H time genesis_state =
     get_forkchoice_store H genesis_state (genesis_signed_block H genesis_state) \<lparr>genesis_time = time\<rparr>"

lemma genesis_store_ok:
  assumes gen: "generate_genesis_with_validators H time vs = Ok st" and "vs \<noteq> []"
    and "length vs \<le> validator_registry_limit"
  shows "store_ok H (genesis_store H time st)"
proof -
  have wf: "wf_state st" by (rule genesis_wf[OF assms])
  have st: "st = genesis_with_list H time vs"
    using assms push_all[of "[]" vs validator_registry_limit]
    by (simp add: generate_genesis_with_validators_def push_validators_def map_res_def)
  have "cp_root (st_latest_justified st) = 0" "cp_root (st_latest_finalized st) = 0"
    "historical_block_hashes st = []" "bh_slot (latest_block_header st) = 0"
    by (simp_all add: st genesis_with_list_def genesis_header_def checkpoint_default_def)
  with wf show ?thesis
    by (simp add: store_ok_def tree_ok_def block_ok_def genesis_store_def get_forkchoice_store_def Let_def
        genesis_signed_block_def genesis_block_def hm_ok_def hm_get_def hm_contains_key_def
        history_ok_def at_slot_def)
qed

section \<open>Examples\<close>

definition sample_store :: store where
  "sample_store = genesis_store sample_root 0 sample_genesis"

definition sample_block_0 :: block where
  "sample_block_0 = genesis_block sample_root sample_genesis"

definition sample_root_0 :: h256 where
  "sample_root_0 = 129127595897592409212583936"

lemma sample_store_eq:
  "sample_store = \<lparr>fc_time = 0, fc_config = \<lparr>genesis_time = 0\<rparr>, fc_head = sample_root_0, safe_target = sample_root_0,
     fc_latest_justified = \<lparr>cp_root = sample_root_0, cp_slot = 0\<rparr>,
     fc_latest_finalized = \<lparr>cp_root = sample_root_0, cp_slot = 0\<rparr>,
     blocks = [(sample_root_0, sample_block_0)], states = [(sample_root_0, sample_genesis)],
     latest_known_attestations = [], latest_new_attestations = [], blocks_queue = [],
     gossip_signatures = [], aggregated_payloads = []\<rparr>"
  by (simp add: sample_store_def genesis_store_def get_forkchoice_store_def genesis_signed_block_def
      sample_root_0_def sample_block_0_def genesis_block_def Let_def run_simps sample_defs)

lemma sample_block_0_parent: "sample_root_0 \<noteq> 0" "b_parent_root sample_block_0 = 0"
  by (simp_all add: sample_root_0_def sample_block_0_def genesis_block_def)

lemma single_block_head:
  assumes "blocks s = [(r, b)]" and "b_parent_root b = 0" and "r \<noteq> 0"
  shows "get_fork_choice_head s r [] m = Ok r"
  using assms
  by (simp add: get_fork_choice_head_def block_slot_def vote_weights_def map_res_def hm_get_def child_map_def
      walk_fuel_def hm_values_def)

lemma sample_proposal_head: "get_proposal_head sample_store 1 = Ok (sample_store\<lparr>fc_time := 4\<rparr>)"
  by (simp add: sample_store_eq get_proposal_head_def on_tick_def on_tick_loop.simps seconds_per_interval_def
      seconds_per_slot_def intervals_per_slot_def saturating_sub_def tick_interval_def
      accept_new_attestations_def update_head_def update_safe_target_def single_block_head
      sample_block_0_parent Let_def hm_extend_def map_res_def cong: run_congs)

lemma sample_store_ok: "store_ok sample_root sample_store"
  unfolding sample_store_def
  by (rule genesis_store_ok[OF sample_genesis_generated])
     (simp_all add: sample_validators_def validator_registry_limit_def)

lemma low_bits: "ucast (18446744073709551616 * x + ucast s :: h256) = (s :: u64)"
proof (rule word_uint_eqI)
  let ?K = "18446744073709551616 :: int"
  have "uint s < ?K" using uint_lt2p[of s] by simp
  have "uint (ucast s :: h256) = uint s" using \<open>uint s < ?K\<close> by (simp add: unsigned_ucast_eq take_bit_int_eq_self)
  then have "uint (18446744073709551616 * x + ucast s :: h256) = (?K * uint x + uint s) mod 2 ^ 256"
    by (simp add: uint_word_arith_bintrs take_bit_eq_mod mod_simps)
  moreover have "uint (ucast w :: u64) = uint w mod ?K" for w :: h256
    by (simp add: unsigned_ucast_eq take_bit_eq_mod)
  moreover have "y mod 2 ^ 256 mod ?K = y mod ?K" for y :: int
    by (rule mod_mod_cancel) simp
  ultimately show "uint (ucast (18446744073709551616 * x + ucast s :: h256) :: u64) = uint s"
    using \<open>uint s < ?K\<close> by simp
qed

lemma sample_root_low: "(ucast (root_block sample_root b) :: u64) = b_slot b"
  by (simp add: sample_root_def sample_header_root_def low_bits)

lemma sample_root_slot: "root_determines_slot sample_root"
  unfolding root_determines_slot_def by (metis sample_root_low)

section \<open>Properties\<close>

text \<open>
  C10: the clock cannot get stuck.  On a store that satisfies the invariant \<^verbatim>\<open>on_tick\<close> returns without
  a panic or an endless walk, the interval counter is then at the interval of the given time, or
  where it was if that was later, and the invariant still holds.
\<close>

theorem clock_reaches_target:
  assumes "store_ok H s"
  shows "\<exists>s'. on_tick s time has_proposal = Ok s' \<and> store_ok H s' \<and>
    fc_time s' = max (fc_time s) (saturating_sub time (genesis_time (fc_config s)) div seconds_per_interval)"
  using on_tick_loop_steps[OF assms] unfolding on_tick_def steps_to_def by blast

theorem clock_reaches_target_witness:
  "\<exists>s'. on_tick sample_store 5 True = Ok s' \<and> store_ok sample_root s' \<and> fc_time s' = 5"
proof -
  have "fc_time sample_store = 0" "genesis_time (fc_config sample_store) = 0"
    by (simp_all add: sample_store_def genesis_store_def get_forkchoice_store_def genesis_signed_block_def
        genesis_block_def Let_def)
  with clock_reaches_target[OF sample_store_ok, of 5 True] show ?thesis
    by (simp add: saturating_sub_def seconds_per_interval_def seconds_per_slot_def intervals_per_slot_def)
qed

text \<open>
  C8: what a block can do to the store, accepted or not.  The invariant is kept: every block is stored
  under its root with a known older parent and a well-formed post-state whose history names known
  blocks at their slots.  No block is forgotten, and the justified and the finalized slot do not
  move backwards.
\<close>

theorem on_block_keeps_store:
  assumes "root_determines_slot H" and "store_ok H s"
  shows "store_ok H (fst (on_block H s sb)) \<and>
    (\<forall>r. hm_contains_key (blocks s) r \<longrightarrow> hm_contains_key (blocks (fst (on_block H s sb))) r) \<and>
    cp_slot (fc_latest_justified s) \<le> cp_slot (fc_latest_justified (fst (on_block H s sb))) \<and>
    cp_slot (fc_latest_finalized s) \<le> cp_slot (fc_latest_finalized (fst (on_block H s sb)))"
  using on_block_evolves[OF assms(1), of s sb] assms(2) unfolding evolves_def by blast

theorem on_block_keeps_store_witness:
  "store_ok sample_root (fst (on_block sample_root sample_store (sealed sample_block_1)))"
  using on_block_keeps_store[OF sample_root_slot sample_store_ok] by blast

end
