(* ===== verification/Block_Queue.thy ===== *)
theory Block_Queue
  imports Store_Invariants
begin

text \<open>
  The queue of blocks that wait for their parent.  After a block has been handled no queued block
  waits for a known parent, and a child that arrives before its parent leaves the same store as in
  the natural order.
\<close>

section \<open>The queue is drained\<close>

text \<open>Queued blocks wait for unknown parents, or for parents that are still to be worked off.\<close>

definition waiting :: "store \<Rightarrow> h256 list \<Rightarrow> bool" where
  "waiting s roots \<longleftrightarrow> hm_ok (blocks_queue s) \<and>
     (\<forall>k. hm_contains_key (blocks_queue s) k \<longrightarrow> hm_contains_key (states s) k \<longrightarrow> k \<in> set roots)"

lemma process_block_internal_states:
  "hm_contains_key (states (fst (process_block_internal H sb r s))) q \<Longrightarrow>
    hm_contains_key (states s) q \<or> q = r"
  by (auto simp: process_block_internal_def Let_def and_do_fst run_step_def update_head_maps
      split: res.splits)

lemma waiting_accepted:
  assumes "waiting s roots" and "process_block_internal H sb r s = (s', x)"
  shows "waiting s' (roots @ [r])"
  using assms process_block_internal_states[of H sb r s] process_block_internal_queue[of H sb r s]
  by (auto simp: waiting_def)

lemma process_purgatory_waiting:
  assumes det: "root_determines_slot H"
  shows "store_ok H s \<Longrightarrow> waiting s roots \<Longrightarrow> process_purgatory H sbs roots s = Ok (s', roots') \<Longrightarrow>
    waiting s' roots'"
proof (induction sbs arbitrary: roots s)
  case (Cons sb sbs)
  let ?r = "root_block H (bwa_block (sb_message sb))"
  from process_block_internal_cases[OF det Cons.prems(1) HOL.refl, of sb] show ?case
  proof (elim disjE exE conjE)
    fix s1 assume s1: "process_block_internal H sb ?r s = (s1, Ok ())" "evolves H s s1"
    then have "store_ok H s1" using Cons.prems(1) by (simp add: evolves_def)
    then show ?thesis
      using Cons.IH waiting_accepted[OF Cons.prems(2) s1(1)] Cons.prems(3) s1(1) by (simp add: Let_def)
  next
    fix x assume x: "process_block_internal H sb ?r s = (s, x)" "\<forall>a. x \<noteq> Ok a"
    then have "process_purgatory H sbs roots s = Ok (s', roots')"
      using Cons.prems(3) by (cases x) (simp_all add: Let_def)
    then show ?thesis by (rule Cons.IH[OF Cons.prems(1,2)])
  qed
qed simp

lemma waiting_pop:
  assumes "waiting s roots" and "roots \<noteq> []"
  shows "waiting (s\<lparr>blocks_queue := hm_remove (last roots) (blocks_queue s)\<rparr>) (butlast roots)"
proof -
  have "set roots = insert (last roots) (set (butlast roots))"
    using assms(2) by (metis append_butlast_last_id list.set(2) rotate1.simps(2) set_rotate1)
  with assms show ?thesis by (auto simp: waiting_def hm_contains_key_def hm.get_remove split: if_splits)
qed

lemma waiting_pop_unknown:
  assumes "waiting s roots" and "roots \<noteq> []" and "hm_get (blocks_queue s) (last roots) = None"
  shows "waiting s (butlast roots)"
proof -
  have "set roots = insert (last roots) (set (butlast roots))"
    using assms(2) by (metis append_butlast_last_id list.set(2) rotate1.simps(2) set_rotate1)
  with assms show ?thesis by (auto simp: waiting_def hm_contains_key_def)
qed

lemma process_pending_blocks_waiting:
  assumes "root_determines_slot H"
  shows "store_ok H s \<Longrightarrow> waiting s roots \<Longrightarrow> process_pending_blocks H roots s = Ok s' \<Longrightarrow> waiting s' []"
  using assms
proof (induction H roots s rule: process_pending_blocks.induct)
  case (1 H roots s)
  show ?case
  proof (cases "roots = []")
    case True
    with "1.prems" show ?thesis by (simp add: process_pending_blocks.simps)
  next
    case False
    let ?s = "s\<lparr>blocks_queue := hm_remove (last roots) (blocks_queue s)\<rparr>"
    show ?thesis
    proof (cases "hm_get (blocks_queue s) (last roots)")
      case None
      with False "1.prems" "1.IH"(1)[OF False HOL.refl HOL.refl None] waiting_pop_unknown show ?thesis
        by (subst (asm) process_pending_blocks.simps) (simp add: Let_def)
    next
      case (Some sbs)
      from False Some "1.prems"(3) obtain s1 roots1 where
        p: "process_purgatory H sbs (butlast roots) ?s = Ok (s1, roots1)"
          "process_pending_blocks H roots1 s1 = Ok s'"
        by (subst (asm) process_pending_blocks.simps) (auto simp: Let_def)
      have ok: "store_ok H ?s" using "1.prems"(1) by (simp add: store_ok_def)
      have "store_ok H s1"
        using process_purgatory_evolves[OF "1.prems"(4) ok p(1)] ok by (simp add: evolves_def)
      moreover have "waiting s1 roots1"
        by (rule process_purgatory_waiting[OF "1.prems"(4) ok waiting_pop[OF "1.prems"(2) False] p(1)])
      ultimately show ?thesis
        using "1.IH"(2)[OF False HOL.refl HOL.refl Some p(1)] p(2) "1.prems"(4) by simp
    qed
  qed
qed

lemma process_purgatory_no_error: "process_purgatory H sbs roots s \<noteq> Err e"
  by (induction H sbs roots s rule: process_purgatory.induct)
     (auto simp: Let_def split: prod.splits res.splits)

lemma process_pending_blocks_no_error: "process_pending_blocks H roots s \<noteq> Err e"
proof (induction H roots s rule: process_pending_blocks.induct)
  case (1 H roots s)
  then show ?case
    by (subst process_pending_blocks.simps)
       (auto simp: Let_def and_then_Err process_purgatory_no_error split: option.split)
qed

section \<open>Arrival order\<close>

text \<open>Nothing but the queue handling itself looks at the queue.\<close>

lemma update_head_with_queue:
  "update_head (s\<lparr>blocks_queue := q\<rparr>) = map_res (\<lambda>s. s\<lparr>blocks_queue := q\<rparr>) (update_head s)"
proof -
  have same: "blocks (s\<lparr>blocks_queue := q\<rparr>) = blocks s" by simp
  have "get_fork_choice_head (s\<lparr>blocks_queue := q\<rparr>) = get_fork_choice_head s"
    unfolding get_fork_choice_head_def block_slot_def vote_weights_def walk_fuel_def same ..
  then show ?thesis
    by (cases "get_fork_choice_head s (cp_root (fc_latest_justified s)) (latest_known_attestations s) 0")
       (simp_all add: update_head_def map_res_def)
qed

lemma on_attestation_internal_with_queue:
  "on_attestation_internal (s\<lparr>blocks_queue := q\<rparr>) i d f = (on_attestation_internal s i d f)\<lparr>blocks_queue := q\<rparr>"
  by (simp add: on_attestation_internal_def Let_def split: option.split)

lemma on_chain_votes_with_queue:
  "on_chain_votes atts (s\<lparr>blocks_queue := q\<rparr>) = (on_chain_votes atts s)\<lparr>blocks_queue := q\<rparr>"
proof -
  have votes: "fold (\<lambda>i s. on_attestation_internal s i d True) is (s\<lparr>blocks_queue := q\<rparr>) =
      (fold (\<lambda>i s. on_attestation_internal s i d True) is s)\<lparr>blocks_queue := q\<rparr>" for d "is" s
    by (induction "is" arbitrary: s) (auto simp: on_attestation_internal_with_queue)
  show ?thesis unfolding on_chain_votes_def by (induction atts arbitrary: s) (auto simp: votes)
qed

lemma insert_block_with_queue:
  "insert_block r b st (s\<lparr>blocks_queue := q\<rparr>) = (insert_block r b st s)\<lparr>blocks_queue := q\<rparr>"
  by (simp add: insert_block_def Let_def)

lemma remember_signature_with_queue:
  "remember_signature H i d sig (s\<lparr>blocks_queue := q\<rparr>) = (remember_signature H i d sig s)\<lparr>blocks_queue := q\<rparr>"
  by (simp add: remember_signature_def)

lemmas with_queue = update_head_with_queue on_attestation_internal_with_queue on_chain_votes_with_queue
  insert_block_with_queue remember_signature_with_queue

lemma process_block_internal_with_queue:
  "process_block_internal H sb r (s\<lparr>blocks_queue := q\<rparr>) =
    (case process_block_internal H sb r s of (s', x) \<Rightarrow> (s'\<lparr>blocks_queue := q\<rparr>, x))"
proof -
  let ?b = "bwa_block (sb_message sb)"
  show ?thesis
  proof (cases "hm_get (states s) (b_parent_root ?b)")
    case (Some pst)
    show ?thesis
    proof (cases "state_transition H pst sb True")
      case (Ok st')
      let ?u = "\<lambda>s. s\<lparr>aggregated_payloads := store_proofs H (attestations (b_body ?b))
        (attestation_signatures (sb_signature sb)) (aggregated_payloads s)\<rparr>"
      let ?s3 = "on_chain_votes (attestations (b_body ?b)) (?u (insert_block r ?b st' s))"
      have "?u (insert_block r ?b st' (s\<lparr>blocks_queue := q\<rparr>)) = (?u (insert_block r ?b st' s))\<lparr>blocks_queue := q\<rparr>"
        by (simp add: with_queue)
      then have "on_chain_votes (attestations (b_body ?b)) (?u (insert_block r ?b st' (s\<lparr>blocks_queue := q\<rparr>))) =
          ?s3\<lparr>blocks_queue := q\<rparr>" by (simp only: with_queue)
      with Some Ok show ?thesis
        by (cases "update_head ?s3")
           (simp_all add: process_block_internal_def Let_def run_step_def with_queue map_res_def)
    qed (simp_all add: Some process_block_internal_def Let_def)
  qed (simp add: process_block_internal_def Let_def)
qed

lemma hm_remove_push:
  assumes "hm_get q k = None"
  shows "hm_remove k (hm_push k v q) = q"
proof -
  have "k \<notin> fst ` set q" using assms by (simp add: hm_get_def map_of_eq_None_iff)
  then have "AList.delete k (AList.update k vs q) = q" for vs by (induction q) auto
  then show ?thesis by (simp add: hm_push_def hm_remove_def hm_insert_def)
qed

text \<open>A child that waits for the parent that is now handled.\<close>

lemma on_block_late_parent:
  assumes det: "root_determines_slot H" and ok: "store_ok H s"
    and p: "\<not> hm_contains_key (blocks s) rp" "rp = root_block H (bwa_block (sb_message P))"
      "hm_contains_key (states s) (b_parent_root (bwa_block (sb_message P)))"
      "process_block_internal H P rp s = (s1, Ok ())"
    and c: "b_parent_root (bwa_block (sb_message C)) = rp" "rp \<noteq> 0" "rc = root_block H (bwa_block (sb_message C))"
      "\<not> hm_contains_key (blocks s) rc" "rc \<noteq> rp"
    and q: "hm_get (blocks_queue s) rp = None"
  shows "on_block H s P = (s1, Ok ())"
    and "fst (on_block H s C) = s\<lparr>blocks_queue := hm_push rp C (blocks_queue s)\<rparr>"
    and "on_block H (fst (on_block H s C)) P = (case process_purgatory H [C] [] s1 of
        Ok (s2, roots) \<Rightarrow> run_step (s1\<lparr>blocks_queue := hm_push rp C (blocks_queue s)\<rparr>) (process_pending_blocks H roots s2)
      | Err e \<Rightarrow> (s1\<lparr>blocks_queue := hm_push rp C (blocks_queue s)\<rparr>, Err e)
      | Panic x \<Rightarrow> (s1\<lparr>blocks_queue := hm_push rp C (blocks_queue s)\<rparr>, Panic x)
      | Diverge \<Rightarrow> (s1\<lparr>blocks_queue := hm_push rp C (blocks_queue s)\<rparr>, Diverge))"
proof -
  let ?q = "hm_push rp C (blocks_queue s)"
  have qs1: "blocks_queue s1 = blocks_queue s"
    using process_block_internal_queue[of H P rp s] by (simp add: p(4))
  have no_state: "\<not> hm_contains_key (states s) rp"
    using ok p(1) by (auto simp: store_ok_def tree_ok_def)
  have "process_pending_blocks H [rp] s1 = Ok s1"
    by (simp add: process_pending_blocks.simps q qs1)
  then show "on_block H s P = (s1, Ok ())"
    using p by (simp add: on_block_def Let_def run_step_def)
  show push: "fst (on_block H s C) = s\<lparr>blocks_queue := ?q\<rparr>"
    using c no_state by (simp add: on_block_def Let_def)
  have "s1\<lparr>blocks_queue := blocks_queue s\<rparr> = s1" using qs1 by simp
  moreover have "hm_get ?q rp = Some [C]" by (simp add: hm_push_get q)
  ultimately have "process_pending_blocks H [rp] (s1\<lparr>blocks_queue := ?q\<rparr>) =
      and_then (process_purgatory H [C] [] s1) (\<lambda>r. process_pending_blocks H (snd r) (fst r))"
    by (subst process_pending_blocks.simps) (simp add: hm_remove_push[OF q] del: process_purgatory.simps)
  then show "on_block H (fst (on_block H s C)) P = (case process_purgatory H [C] [] s1 of
        Ok (s2, roots) \<Rightarrow> run_step (s1\<lparr>blocks_queue := ?q\<rparr>) (process_pending_blocks H roots s2)
      | Err e \<Rightarrow> (s1\<lparr>blocks_queue := ?q\<rparr>, Err e) | Panic x \<Rightarrow> (s1\<lparr>blocks_queue := ?q\<rparr>, Panic x)
      | Diverge \<Rightarrow> (s1\<lparr>blocks_queue := ?q\<rparr>, Diverge))"
    unfolding push using p
    by (cases "process_purgatory H [C] [] s1")
       (simp_all add: on_block_def Let_def process_block_internal_with_queue run_step_def
         del: process_purgatory.simps split: prod.split)
qed

lemma process_block_internal_blocks:
  "hm_contains_key (blocks (fst (process_block_internal H sb r s))) q \<Longrightarrow>
    hm_contains_key (blocks s) q \<or> q = r"
  by (auto simp: process_block_internal_def Let_def and_do_fst run_step_def update_head_maps
      split: res.splits)

lemma store_ok_known_state:
  "store_ok H s \<Longrightarrow> hm_contains_key (blocks s) r \<longleftrightarrow> hm_contains_key (states s) r"
  unfolding store_ok_def tree_ok_def block_ok_def hm_contains_key_def by (metis option.distinct(1) option.exhaust)

text \<open>A block that is accepted on its own.\<close>

lemma on_block_accepted:
  assumes "on_block H s P = (s1, Ok ())" and "rp = root_block H (bwa_block (sb_message P))"
    and "\<not> hm_contains_key (blocks s) rp" and "hm_get (blocks_queue s) rp = None"
  shows "process_block_internal H P rp s = (s1, Ok ())"
    and "hm_contains_key (states s) (b_parent_root (bwa_block (sb_message P)))"
proof -
  let ?par = "b_parent_root (bwa_block (sb_message P))"
  from assms(1-3) have "\<not> (\<not> hm_contains_key (states s) ?par \<and> ?par \<noteq> 0)"
    by (auto simp: on_block_def Let_def split: if_splits)
  with assms(1-3) obtain s0 where s0: "process_block_internal H P rp s = (s0, Ok ())"
    "run_step s0 (process_pending_blocks H [rp] s0) = (s1, Ok ())"
    by (auto simp: on_block_def Let_def)
  have "blocks_queue s0 = blocks_queue s"
    using process_block_internal_queue[of H P rp s] s0(1) by simp
  then have "process_pending_blocks H [rp] s0 = Ok s0"
    by (simp add: process_pending_blocks.simps assms(4))
  with s0 show "process_block_internal H P rp s = (s1, Ok ())" by (simp add: run_step_def)
  show "hm_contains_key (states s) ?par"
    using s0(1) by (auto simp: process_block_internal_def Let_def hm_contains_key_def)
qed

section \<open>Examples\<close>

lemma sample_store_accepts:
  obtains s1 s2 where "on_block sample_root sample_store (sealed sample_block_1) = (s1, Ok ())"
    and "store_ok sample_root s1"
    and "process_block_internal sample_root (sealed sample_block_2) sample_root_2 s1 = (s2, Ok ())"
    and "blocks_queue s2 = []" and "blocks_queue sample_store = []"
    and "hm_keys (blocks sample_store) = [129127595897592409212583936]"
proof -
  have root: "sample_root_2 \<noteq> sample_root_1" "sample_root_1 \<noteq> 129127595897592409212583936"
    by (simp_all add: sample_defs run_simps)
  have maps: "blocks_queue sample_store = []" "states sample_store = [(129127595897592409212583936, sample_genesis)]"
    "hm_keys (blocks sample_store) = [129127595897592409212583936]"
    by (simp_all add: sample_store_def genesis_store_def get_forkchoice_store_def genesis_signed_block_def
        genesis_block_def Let_def hm_keys_def run_simps sample_defs)
  have p1: "hm_get (states sample_store) (b_parent_root sample_block_1) = Some sample_genesis"
    by (simp add: maps sample_block_1_def hm_get_def)
  have b: "b = bwa_block (sb_message (sealed b))" for b by (simp add: sealed_def)
  obtain s1 where s1: "process_block_internal sample_root (sealed sample_block_1) sample_root_1 sample_store = (s1, Ok ())"
    "evolves sample_root sample_store s1"
    "states s1 = hm_insert sample_root_1 sample_state_1 (states sample_store)"
    using process_block_internal_Ok[OF sample_root_slot sample_store_ok b sample_root_1_def p1 sample_step_1] by blast
  have ok1: "store_ok sample_root s1" using s1(2) sample_store_ok by (simp add: evolves_def)
  have q1: "blocks_queue s1 = []"
    using process_block_internal_queue[of sample_root "sealed sample_block_1" sample_root_1 sample_store]
    by (simp add: s1(1) maps)
  have p2: "hm_get (states s1) (b_parent_root sample_block_2) = Some sample_state_1"
    by (simp add: s1(3) sample_block_2_def)
  obtain s2 where s2: "process_block_internal sample_root (sealed sample_block_2) sample_root_2 s1 = (s2, Ok ())"
    using process_block_internal_Ok[OF sample_root_slot ok1 b sample_root_2_def p2 sample_step_2] by blast
  have "blocks_queue s2 = []"
    using process_block_internal_queue[of sample_root "sealed sample_block_2" sample_root_2 s1]
    by (simp add: s2 q1)
  have "process_pending_blocks sample_root [sample_root_1] s1 = Ok s1"
    by (simp add: process_pending_blocks.simps q1 hm_get_def)
  then have "on_block sample_root sample_store (sealed sample_block_1) = (s1, Ok ())"
    using s1(1) p1 root maps(3)
    by (simp add: on_block_def Let_def b[symmetric] sample_root_1_def[symmetric] run_step_def
        hm_contains_key_keys[of "blocks sample_store"])
  then show ?thesis using that[OF _ ok1 s2 _ maps(1,3)] \<open>blocks_queue s2 = []\<close> by blast
qed

section \<open>Properties\<close>

text \<open>
  C9: blocks may arrive before their parents.  A child that comes first, when no other child of its parent
  waits, is queued and leaves, once its parent has been accepted, the same store as the child handled after the parent: the same
  blocks, states, votes, checkpoints and head.
\<close>

theorem block_arrival_order:
  assumes "root_determines_slot H" and "store_ok H s"
    and "rp = root_block H (bwa_block (sb_message P))" and "\<not> hm_contains_key (blocks s) rp"
    and "on_block H s P = (s1, Ok ())" and "hm_get (blocks_queue s) rp = None"
    and "b_parent_root (bwa_block (sb_message C)) = rp" and "rp \<noteq> 0"
    and "\<not> hm_contains_key (blocks s) (root_block H (bwa_block (sb_message C)))"
    and "root_block H (bwa_block (sb_message C)) \<noteq> rp"
    and "snd (on_block H (fst (on_block H s C)) P) = Ok ()"
  shows "fst (on_block H (fst (on_block H s C)) P) = fst (on_block H (fst (on_block H s P)) C)"
proof -
  let ?rc = "root_block H (bwa_block (sb_message C))"
  note p = on_block_accepted[OF assms(5,3,4,6)]
  note late = on_block_late_parent(3)[OF assms(1,2,4,3) p(2,1) assms(7,8) HOL.refl assms(9,10,6)]
  have ok1: "store_ok H s1" and known: "hm_contains_key (blocks s1) rp"
    using process_block_internal_cases[OF assms(1,2,3)] p(1) assms(2) by (auto simp: evolves_def)
  have new: "\<not> hm_contains_key (blocks s1) ?rc"
    using process_block_internal_blocks[of H P rp s ?rc] p(1) assms(9,10) by auto
  have state: "hm_contains_key (states s1) rp" using known store_ok_known_state[OF ok1] by simp
  have child: "on_block H s1 C = and_do (process_block_internal H C ?rc s1)
      (\<lambda>s' _. run_step s' (process_pending_blocks H [?rc] s'))"
    using new state assms(7) by (simp add: on_block_def Let_def)
  obtain s2 x where c: "process_block_internal H C ?rc s1 = (s2, x)" by fastforce
  have same: "x \<noteq> Ok () \<Longrightarrow> s2 = s1"
    using process_block_internal_cases[OF assms(1) ok1 HOL.refl, of C] c by auto
  have none: "process_pending_blocks H [] s = Ok s" for s by (simp add: process_pending_blocks.simps)
  show ?thesis
  proof (cases x)
    case (Ok u)
    have l: "process_purgatory H [C] [] s1 = Ok (s2, [?rc])" using c Ok by (simp add: Let_def)
    with late assms(11) obtain s3 where "process_pending_blocks H [?rc] s2 = Ok s3"
      by (cases "process_pending_blocks H [?rc] s2") (simp_all add: run_step_def)
    then show ?thesis unfolding late l assms(5) fst_conv child by (simp add: run_step_def c Ok)
  next
    case (Err e)
    have l: "process_purgatory H [C] [] s1 = Ok (s1, [])" using c Err same by (simp add: Let_def)
    show ?thesis unfolding late l assms(5) fst_conv child using same Err by (simp add: run_step_def c none)
  next
    case (Panic e)
    have l: "process_purgatory H [C] [] s1 = Panic e" using c Panic by (simp add: Let_def)
    with late assms(11) show ?thesis by simp
  next
    case Diverge
    have l: "process_purgatory H [C] [] s1 = Diverge" using c Diverge by (simp add: Let_def)
    with late assms(11) show ?thesis by simp
  qed
qed

theorem block_arrival_order_witness:
  "fst (on_block sample_root (fst (on_block sample_root sample_store (sealed sample_block_2))) (sealed sample_block_1)) =
   fst (on_block sample_root (fst (on_block sample_root sample_store (sealed sample_block_1))) (sealed sample_block_2))"
proof -
  obtain s1 s2 where s: "on_block sample_root sample_store (sealed sample_block_1) = (s1, Ok ())"
    "process_block_internal sample_root (sealed sample_block_2) sample_root_2 s1 = (s2, Ok ())"
    "blocks_queue s2 = []" "blocks_queue sample_store = []"
    "hm_keys (blocks sample_store) = [129127595897592409212583936]"
    by (rule sample_store_accepts) blast
  have b: "bwa_block (sb_message (sealed b)) = b" for b by (simp add: sealed_def)
  have r1: "sample_root_1 = root_block sample_root (bwa_block (sb_message (sealed sample_block_1)))"
    by (simp add: b sample_root_1_def)
  have r2: "sample_root_2 = root_block sample_root (bwa_block (sb_message (sealed sample_block_2)))"
    by (simp add: b sample_root_2_def)
  have roots: "sample_root_1 \<noteq> 129127595897592409212583936" "sample_root_2 \<noteq> 129127595897592409212583936"
    "sample_root_2 \<noteq> sample_root_1" "sample_root_1 \<noteq> 0"
    by (simp_all add: sample_defs run_simps)
  have par: "b_parent_root (bwa_block (sb_message (sealed sample_block_2))) = sample_root_1"
    by (simp add: b sample_block_2_def)
  have new: "\<not> hm_contains_key (blocks sample_store) sample_root_1"
    "\<not> hm_contains_key (blocks sample_store) sample_root_2"
    using roots s(5) by (simp_all add: hm_contains_key_keys)
  have q: "hm_get (blocks_queue sample_store) sample_root_1 = None" by (simp add: s(4) hm_get_def)
  note p = on_block_accepted[OF s(1) r1 new(1) q]
  have "process_purgatory sample_root [sealed sample_block_2] [] s1 = Ok (s2, [sample_root_2])"
    using s(2) by (simp add: Let_def r2[symmetric])
  moreover have "process_pending_blocks sample_root [sample_root_2] s2 = Ok s2"
    by (simp add: process_pending_blocks.simps s(3) hm_get_def)
  ultimately have "snd (on_block sample_root (fst (on_block sample_root sample_store (sealed sample_block_2)))
      (sealed sample_block_1)) = Ok ()"
    using on_block_late_parent(3)[OF sample_root_slot sample_store_ok new(1) r1 p(2,1) par roots(4) r2 new(2) roots(3) q]
    by (simp add: run_step_def)
  from block_arrival_order[OF sample_root_slot sample_store_ok r1 new(1) s(1) q par roots(4) _ _ this] new(2) roots(3)
  show ?thesis by (simp add: r2[symmetric])
qed

text \<open>
  A queued block does not wait for a parent that is known.  If this holds before a block arrives
  it holds after it, whatever becomes of the block, unless the handler panics.
\<close>

theorem queue_waits_for_unknown_parents:
  assumes det: "root_determines_slot H" and ok: "store_ok H s" and w: "waiting s []"
    and run: "on_block H s sb = (s', x)" and "\<forall>p. x \<noteq> Panic p" and "x \<noteq> Diverge"
  shows "waiting s' []"
proof -
  let ?b = "bwa_block (sb_message sb)" and ?r = "root_block H (bwa_block (sb_message sb))"
  consider "hm_contains_key (blocks s) ?r"
    | "\<not> hm_contains_key (blocks s) ?r" "\<not> hm_contains_key (states s) (b_parent_root ?b) \<and> b_parent_root ?b \<noteq> 0"
    | "\<not> hm_contains_key (blocks s) ?r" "\<not> (\<not> hm_contains_key (states s) (b_parent_root ?b) \<and> b_parent_root ?b \<noteq> 0)"
    by blast
  then show ?thesis
  proof cases
    case 1
    with run w show ?thesis by (simp add: on_block_def Let_def)
  next
    case 2
    with run w show ?thesis
      by (auto simp: on_block_def Let_def waiting_def hm_push_def)
  next
    case 3
    from process_block_internal_cases[OF det ok HOL.refl, of sb] show ?thesis
    proof (elim disjE exE conjE)
      fix s1 assume s1: "process_block_internal H sb ?r s = (s1, Ok ())" "evolves H s s1"
      with 3 run have r: "run_step s1 (process_pending_blocks H [?r] s1) = (s', x)"
        by (simp only: on_block_def Let_def if_False and_do.simps)
      have "store_ok H s1" using s1(2) ok by (simp add: evolves_def)
      moreover have "waiting s1 [?r]" using waiting_accepted[OF w s1(1)] by simp
      ultimately have "waiting t []" if "process_pending_blocks H [?r] s1 = Ok t" for t
        using process_pending_blocks_waiting[OF det] that by blast
      with r assms(5,6) \<open>waiting s1 [?r]\<close> process_pending_blocks_no_error show ?thesis
        by (cases "process_pending_blocks H [?r] s1") (auto simp: run_step_def)
    next
      fix y assume "process_block_internal H sb ?r s = (s, y)" "\<forall>a. y \<noteq> Ok a"
      with 3 run w show ?thesis by (cases y) (auto simp: on_block_def Let_def)
    qed
  qed
qed

theorem queue_waits_for_unknown_parents_witness:
  "waiting (fst (on_block sample_root sample_store (sealed sample_block_1))) []"
proof -
  obtain s1 where s: "on_block sample_root sample_store (sealed sample_block_1) = (s1, Ok ())"
    "blocks_queue sample_store = []"
    by (rule sample_store_accepts) blast
  have "waiting sample_store []" by (simp add: waiting_def s(2) hm_ok_def hm_contains_key_def hm_get_def)
  from queue_waits_for_unknown_parents[OF sample_root_slot sample_store_ok this s(1)] s(1) show ?thesis by simp
qed

text \<open>
  C24: a rejected block leaves no trace.  If \<^verbatim>\<open>on_block\<close> returns an error the store is unchanged, except
  that a block with an unknown parent is appended to the queue of that parent.
\<close>

theorem rejected_block_leaves_store:
  assumes "root_determines_slot H" and "store_ok H s" and "on_block H s sb = (s', Err e)"
  shows "s' = s \<or> e = BlockQueued \<and> \<not> hm_contains_key (states s) (b_parent_root (bwa_block (sb_message sb))) \<and>
    s' = s\<lparr>blocks_queue := hm_push (b_parent_root (bwa_block (sb_message sb))) sb (blocks_queue s)\<rparr>"
proof -
  let ?r = "root_block H (bwa_block (sb_message sb))"
  from process_block_internal_cases[OF assms(1,2) HOL.refl, of sb] show ?thesis
  proof (elim disjE exE conjE)
    fix s1 assume "process_block_internal H sb ?r s = (s1, Ok ())"
    with assms(3) show ?thesis
      by (auto simp: on_block_def Let_def run_step_def process_pending_blocks_no_error
          split: if_splits res.splits)
  next
    fix x assume "process_block_internal H sb ?r s = (s, x)" "\<forall>a. x \<noteq> Ok a"
    with assms(3) show ?thesis
      by (cases x) (auto simp: on_block_def Let_def split: if_splits)
  qed
qed

theorem rejected_block_leaves_store_witness:
  "\<exists>s'. on_block sample_root sample_store (sealed sample_block_2) = (s', Err BlockQueued) \<and>
    (s' = sample_store \<or> \<not> hm_contains_key (states sample_store) sample_root_1 \<and>
     s' = sample_store\<lparr>blocks_queue := hm_push sample_root_1 (sealed sample_block_2) (blocks_queue sample_store)\<rparr>)"
proof -
  have keys: "hm_keys (blocks sample_store) = [129127595897592409212583936]"
    by (rule sample_store_accepts) blast
  have roots: "sample_root_1 \<noteq> 129127595897592409212583936" "sample_root_2 \<noteq> 129127595897592409212583936"
    "sample_root_1 \<noteq> 0"
    by (simp_all add: sample_defs run_simps)
  have b: "bwa_block (sb_message (sealed b)) = b" for b by (simp add: sealed_def)
  have par: "b_parent_root sample_block_2 = sample_root_1" by (simp add: sample_block_2_def)
  have "\<not> hm_contains_key (blocks sample_store) sample_root_2" "\<not> hm_contains_key (blocks sample_store) sample_root_1"
    using roots by (simp_all add: hm_contains_key_keys keys)
  then have "\<exists>s'. on_block sample_root sample_store (sealed sample_block_2) = (s', Err BlockQueued)"
    using roots(3) store_ok_known_state[OF sample_store_ok, of sample_root_1]
    by (simp add: on_block_def Let_def b par sample_root_2_def[symmetric])
  then obtain s' where s': "on_block sample_root sample_store (sealed sample_block_2) = (s', Err BlockQueued)" by blast
  from rejected_block_leaves_store[OF sample_root_slot sample_store_ok s'] s' show ?thesis by (auto simp: b par)
qed

end
