(* ===== verification/Votes.thy ===== *)
theory Votes
  imports Ghost Handlers
begin

text \<open>
  The votes the store keeps: one attestation per validator among those already counted
  (\<^verbatim>\<open>latest_known_attestations\<close>) and one among those that wait to be counted
  (\<^verbatim>\<open>latest_new_attestations\<close>).  Handling a vote is the client \<open>insert_newer\<close> of the map contract.
\<close>

section \<open>Latest messages\<close>

definition ad_rank :: "attestation_data \<Rightarrow> nat" where
  "ad_rank d = unat (ad_slot d)"

text \<open>The slot of the newest vote of a validator in either map.\<close>

definition vote_slot :: "(u64, attestation_data) hmap \<Rightarrow> u64 \<Rightarrow> nat" where
  "vote_slot m i = (case hm_get m i of None \<Rightarrow> 0 | Some d \<Rightarrow> ad_rank d)"

definition latest_vote_slot :: "store \<Rightarrow> u64 \<Rightarrow> nat" where
  "latest_vote_slot s i = max (vote_slot (latest_known_attestations s) i) (vote_slot (latest_new_attestations s) i)"

lemma on_attestation_internal_known:
  "latest_known_attestations (on_attestation_internal s i d f) =
     (if f then hm.insert_newer ad_rank i d (latest_known_attestations s) else latest_known_attestations s)"
  by (auto simp: on_attestation_internal_def hm.insert_newer_def hm.newer_than_def ad_rank_def Let_def
      word_less_nat_alt split: option.split)

lemma on_attestation_internal_new:
  "latest_new_attestations (on_attestation_internal s i d f) =
     (if \<not> f then hm.insert_newer ad_rank i d (latest_new_attestations s)
      else case hm_get (latest_new_attestations s) i of
        Some e \<Rightarrow> if ad_rank e \<le> ad_rank d then hm_remove i (latest_new_attestations s)
                  else latest_new_attestations s
      | None \<Rightarrow> latest_new_attestations s)"
  by (auto simp: on_attestation_internal_def hm.insert_newer_def hm.newer_than_def ad_rank_def Let_def
      word_less_nat_alt word_le_nat_alt split: option.split)

lemma vote_slot_insert_newer:
  "vote_slot (hm.insert_newer ad_rank i d m) j = (if j = i then max (vote_slot m i) (ad_rank d) else vote_slot m j)"
  by (auto simp: vote_slot_def hm.get_insert_newer hm.newer_than_def split: option.splits)

lemma vote_slot_remove:
  "hm_ok m \<Longrightarrow> vote_slot (hm_remove i m) j = (if j = i then 0 else vote_slot m j)"
  by (simp add: vote_slot_def hm.get_remove)

definition vote_maps_ok :: "store \<Rightarrow> bool" where
  "vote_maps_ok s \<longleftrightarrow> hm_ok (latest_known_attestations s) \<and> hm_ok (latest_new_attestations s)"

lemma on_attestation_internal_latest:
  assumes "vote_maps_ok s"
  shows "latest_vote_slot (on_attestation_internal s i d f) j =
    (if j = i then max (latest_vote_slot s i) (ad_rank d) else latest_vote_slot s j)"
proof (cases f)
  case True
  show ?thesis
  proof (cases "hm_get (latest_new_attestations s) i")
    case None
    then have "vote_slot (latest_new_attestations s) i = 0" by (simp add: vote_slot_def)
    with None True show ?thesis
      by (simp add: latest_vote_slot_def on_attestation_internal_known on_attestation_internal_new
          vote_slot_insert_newer)
  next
    case (Some e)
    then have "vote_slot (latest_new_attestations s) i = ad_rank e" by (simp add: vote_slot_def)
    with Some True assms show ?thesis
      by (auto simp: latest_vote_slot_def on_attestation_internal_known on_attestation_internal_new
          vote_slot_insert_newer vote_slot_remove vote_maps_ok_def)
  qed
next
  case False
  then show ?thesis
    by (auto simp: latest_vote_slot_def on_attestation_internal_known on_attestation_internal_new
        vote_slot_insert_newer)
qed

lemma on_attestation_internal_maps_ok: "vote_maps_ok s \<Longrightarrow> vote_maps_ok (on_attestation_internal s i d f)"
  by (auto simp: vote_maps_ok_def on_attestation_internal_known on_attestation_internal_new hm.ok_insert_newer
      split: option.split)

lemma hm_get_extend_map:
  assumes "hm_ok es"
  shows "hm_get (hm_extend m es) k = (case hm_get es k of None \<Rightarrow> hm_get m k | Some v \<Rightarrow> Some v)"
proof -
  have "hm_get (rev es) = hm_get es" by (rule hm_get_perm[OF assms]) simp
  then have "map_of (rev es) k = hm_get es k" by (simp add: hm_get_def fun_eq_iff)
  then show ?thesis unfolding hm_get_extend by simp
qed

lemma accept_new_attestations_votes:
  assumes "accept_new_attestations s = Ok s'" and "hm_ok (latest_new_attestations s)"
  shows "latest_new_attestations s' = []"
    and "hm_get (latest_known_attestations s') i = (case hm_get (latest_new_attestations s) i of
      None \<Rightarrow> hm_get (latest_known_attestations s) i | Some d \<Rightarrow> Some d)"
  using assms by (auto simp: accept_new_attestations_def update_head_def hm_get_extend_map)

section \<open>Accepted attestations\<close>

lemma validate_attestation_data_Ok:
  "validate_attestation_data s d = Ok () \<longleftrightarrow>
     (\<exists>src tgt. hm_get (blocks s) (cp_root (ad_source d)) = Some src \<and>
        hm_get (blocks s) (cp_root (ad_target d)) = Some tgt \<and>
        hm_contains_key (blocks s) (cp_root (ad_head d)) \<and>
        cp_slot (ad_source d) \<le> cp_slot (ad_target d) \<and>
        b_slot src = cp_slot (ad_source d) \<and> b_slot tgt = cp_slot (ad_target d) \<and>
        ad_slot d \<le> fc_time s div 4 + 1)"
  by (auto simp: validate_attestation_data_def block_slot_def map_res_def Let_def hm_contains_key_def
      hm_index_def intervals_per_slot_def)

lemma on_attestation_Ok:
  "snd (on_attestation H s a from_block) = Ok () \<longleftrightarrow> validate_attestation_data s (sa_message a) = Ok ()"
  by (cases "validate_attestation_data s (sa_message a)") (simp_all add: on_attestation_def Let_def)

section \<open>Properties\<close>

text \<open>
  C14: a vote never makes the store forget a newer one.  After \<^verbatim>\<open>on_attestation_internal\<close> the newest vote
  kept for the validator has the larger of the two slots, those of the other validators are
  unchanged, and the votes already counted only get newer.
\<close>

theorem latest_vote_kept:
  assumes "vote_maps_ok s"
  shows "vote_maps_ok (on_attestation_internal s i d from_block) \<and>
    (\<forall>j. latest_vote_slot (on_attestation_internal s i d from_block) j =
      (if j = i then max (latest_vote_slot s i) (unat (ad_slot d)) else latest_vote_slot s j)) \<and>
    (\<forall>j. vote_slot (latest_known_attestations s) j \<le>
      vote_slot (latest_known_attestations (on_attestation_internal s i d from_block)) j)"
proof (intro conjI allI)
  show "vote_maps_ok (on_attestation_internal s i d from_block)"
    by (rule on_attestation_internal_maps_ok[OF assms])
  show "latest_vote_slot (on_attestation_internal s i d from_block) j =
      (if j = i then max (latest_vote_slot s i) (unat (ad_slot d)) else latest_vote_slot s j)" for j
    using on_attestation_internal_latest[OF assms] by (simp add: ad_rank_def)
  show "vote_slot (latest_known_attestations s) j \<le>
      vote_slot (latest_known_attestations (on_attestation_internal s i d from_block)) j" for j
    by (simp add: on_attestation_internal_known vote_slot_insert_newer)
qed

theorem latest_vote_kept_witness:
  "latest_vote_slot (on_attestation_internal fork_store 0 (head_vote 2 2) False) 0 = 3"
proof -
  have "vote_maps_ok fork_store" by (simp add: vote_maps_ok_def hm_ok_def fork_store_def)
  from latest_vote_kept[OF this, of 0 "head_vote 2 2" False] show ?thesis
    by (simp add: latest_vote_slot_def vote_slot_def fork_store_def hm_get_def head_vote_def data_at_def ad_rank_def)
qed

text \<open>
  C23: which attestations are accepted.  Source, target and head are known blocks, the source is
  not newer than the target, both checkpoints carry the slots of their blocks and the vote is at
  most one slot ahead of the clock.  A rejected attestation leaves the store as it was.  The slot
  of the head checkpoint is not compared with its block.
\<close>

theorem attestation_accepted_iff:
  "(snd (on_attestation H s a from_block) = Ok () \<longleftrightarrow>
     (\<exists>src tgt. hm_get (blocks s) (cp_root (ad_source (sa_message a))) = Some src \<and>
        hm_get (blocks s) (cp_root (ad_target (sa_message a))) = Some tgt \<and>
        hm_contains_key (blocks s) (cp_root (ad_head (sa_message a))) \<and>
        cp_slot (ad_source (sa_message a)) \<le> cp_slot (ad_target (sa_message a)) \<and>
        b_slot src = cp_slot (ad_source (sa_message a)) \<and> b_slot tgt = cp_slot (ad_target (sa_message a)) \<and>
        ad_slot (sa_message a) \<le> fc_time s div 4 + 1)) \<and>
   (snd (on_attestation H s a from_block) = Ok () \<or>
     fst (on_attestation H s a from_block) = s \<and>
       snd (on_attestation H s a from_block) \<in> Err ` {UnknownSourceBlock, UnknownTargetBlock, UnknownHeadBlock,
         SourceExceedsTarget, SourceSlotMismatch, TargetSlotMismatch, AttestationTooFarInFuture})"
proof -
  let ?d = "sa_message a"
  have errs: "errors_in {UnknownSourceBlock, UnknownTargetBlock, UnknownHeadBlock, SourceExceedsTarget,
      SourceSlotMismatch, TargetSlotMismatch, AttestationTooFarInFuture} (validate_attestation_data s ?d)"
    by (auto simp: validate_attestation_data_def block_slot_def map_res_def Let_def hm_contains_key_def hm_index_def)
  have "snd (on_attestation H s a from_block) = Ok () \<or> fst (on_attestation H s a from_block) = s \<and>
      snd (on_attestation H s a from_block) \<in> Err ` {UnknownSourceBlock, UnknownTargetBlock, UnknownHeadBlock,
         SourceExceedsTarget, SourceSlotMismatch, TargetSlotMismatch, AttestationTooFarInFuture}"
    using errs by (cases "validate_attestation_data s ?d") (simp_all add: on_attestation_def Let_def)
  then show ?thesis unfolding on_attestation_Ok validate_attestation_data_Ok by blast
qed

end
