(* ===== verification/Store_Runs.thy ===== *)
theory Store_Runs
  imports Block_Queue Votes
begin

text \<open>
  Runs of the store: what the handlers for blocks, attestations and the clock make of it, in any order.  The
  properties here are about what such runs reach: the target of an attestation when the finalized block has
  overtaken the safe target, and a counted vote that an older one replaces.
\<close>

section \<open>Runs\<close>

inductive store_run :: "ssz_root \<Rightarrow> store \<Rightarrow> store \<Rightarrow> bool" for H :: ssz_root and s :: store where
  start: "store_run H s s"
| block: "store_run H s t \<Longrightarrow> store_run H s (fst (on_block H t sb))"
| attestation: "store_run H s t \<Longrightarrow> store_run H s (fst (on_attestation H t a from_block))"
| tick: "store_run H s t \<Longrightarrow> on_tick t time has_proposal = Ok u \<Longrightarrow> store_run H s u"

lemma store_run_evolves:
  assumes "root_determines_slot H" and "store_run H s t"
  shows "evolves H s t"
  using assms(2)
proof (induction rule: store_run.induct)
  case (block t sb)
  then show ?case using evolves_trans on_block_evolves[OF assms(1)] by blast
next
  case (attestation t a from_block)
  then show ?case using evolves_trans on_attestation_evolves by blast
next
  case (tick t time has_proposal u)
  then show ?case using on_tick_steps[of H t time has_proposal] by (auto simp: evolves_def steps_to_def)
qed simp

section \<open>Accepted blocks\<close>

text \<open>What processing a block changes besides the maps of blocks and states.\<close>

lemma on_attestation_internal_fields [simp]:
  "safe_target (on_attestation_internal s i d f) = safe_target s" "fc_time (on_attestation_internal s i d f) = fc_time s"
  "fc_latest_finalized (on_attestation_internal s i d f) = fc_latest_finalized s"
  "fc_latest_justified (on_attestation_internal s i d f) = fc_latest_justified s"
  "fc_head (on_attestation_internal s i d f) = fc_head s"
  by (simp_all add: on_attestation_internal_def Let_def split: option.split)

lemma on_chain_votes_fields [simp]:
  "safe_target (on_chain_votes atts s) = safe_target s" "fc_time (on_chain_votes atts s) = fc_time s"
  "fc_latest_finalized (on_chain_votes atts s) = fc_latest_finalized s"
  "fc_latest_justified (on_chain_votes atts s) = fc_latest_justified s"
  unfolding on_chain_votes_def by (auto intro!: fold_field)

lemma on_chain_votes_cong:
  assumes "latest_known_attestations s = latest_known_attestations t"
    and "latest_new_attestations s = latest_new_attestations t"
  shows "latest_known_attestations (on_chain_votes atts s) = latest_known_attestations (on_chain_votes atts t) \<and>
    latest_new_attestations (on_chain_votes atts s) = latest_new_attestations (on_chain_votes atts t)"
proof -
  let ?same = "\<lambda>s t. latest_known_attestations s = latest_known_attestations t \<and>
    latest_new_attestations s = latest_new_attestations t"
  have votes: "?same (fold (\<lambda>i s. on_attestation_internal s i d True) is s)
      (fold (\<lambda>i s. on_attestation_internal s i d True) is t)" if "?same s t" for d "is" s t
    using that
  proof (induction "is" arbitrary: s t)
    case (Cons i "is")
    have "?same (on_attestation_internal s i d True) (on_attestation_internal t i d True)"
      using Cons.prems by (simp add: on_attestation_internal_known on_attestation_internal_new split: option.split)
    from Cons.IH[OF this] show ?case by simp
  qed simp
  have "?same (on_chain_votes atts s) (on_chain_votes atts t)" if "?same s t" for s t
    unfolding on_chain_votes_def using that
  proof (induction atts arbitrary: s t)
    case (Cons a atts)
    from Cons.IH[OF votes[OF Cons.prems]] show ?case by simp
  qed simp
  with assms show ?thesis by blast
qed

lemma on_chain_votes_invariant:
  assumes "P s" and "\<And>s i d. P s \<Longrightarrow> P (on_attestation_internal s i d True)"
  shows "P (on_chain_votes atts s)"
proof -
  have "P (fold (\<lambda>i s. on_attestation_internal s i d True) is s)" if "P s" for d "is" s
    using that assms(2) by (induction "is" arbitrary: s) auto
  then show ?thesis unfolding on_chain_votes_def using assms(1) by (induction atts arbitrary: s) auto
qed

lemma on_chain_votes_maps_ok: "vote_maps_ok s \<Longrightarrow> vote_maps_ok (on_chain_votes atts s)"
  by (rule on_chain_votes_invariant[where P = vote_maps_ok]) (simp_all add: on_attestation_internal_maps_ok)

text \<open>The votes of a block never add a pending vote.\<close>

lemma on_chain_votes_pending:
  assumes "hm_ok (latest_new_attestations s)" and "hm_get (latest_new_attestations s) i = None"
  shows "hm_get (latest_new_attestations (on_chain_votes atts s)) i = None"
proof -
  have "hm_ok (latest_new_attestations (on_chain_votes atts s)) \<and>
      hm_get (latest_new_attestations (on_chain_votes atts s)) i = None"
    by (rule on_chain_votes_invariant) (use assms in \<open>auto simp: on_attestation_internal_new hm.get_remove hm.ok_remove
        split: option.splits\<close>)
  then show ?thesis by simp
qed

lemma get_fork_choice_head_blocks:
  assumes "blocks s = blocks t"
  shows "get_fork_choice_head s = get_fork_choice_head t"
  unfolding get_fork_choice_head_def block_slot_def vote_weights_def walk_fuel_def assms ..

lemma update_head_fields:
  assumes "update_head s = Ok s'"
  shows "get_fork_choice_head s (cp_root (fc_latest_justified s)) (latest_known_attestations s) 0 = Ok (fc_head s')"
    and "s' = s\<lparr>fc_head := fc_head s'\<rparr>"
  using assms by (auto simp: update_head_def)

text \<open>The store that accepting a block with post-state \<open>st'\<close> leaves when no block waits.\<close>

definition accepted_as ::
  "ssz_root \<Rightarrow> store \<Rightarrow> signed_block_with_attestation \<Rightarrow> h256 \<Rightarrow> state \<Rightarrow> store \<Rightarrow> bool" where
  "accepted_as H s sb r st' s' \<longleftrightarrow>
     (let b = bwa_block (sb_message sb); p = bwa_proposer_attestation (sb_message sb);
          voted = on_chain_votes (attestations (b_body b)) s in
      on_block H s sb = (s', Ok ()) \<and> store_ok H s' \<and> blocks_queue s' = [] \<and>
      blocks s' = hm_insert r b (blocks s) \<and> states s' = hm_insert r st' (states s) \<and>
      safe_target s' = safe_target s \<and> fc_time s' = fc_time s \<and>
      fc_latest_finalized s' = fc_latest_finalized (insert_block r b st' s) \<and>
      fc_latest_justified s' = fc_latest_justified (insert_block r b st' s) \<and>
      latest_known_attestations s' = latest_known_attestations voted \<and>
      latest_new_attestations s' =
        hm.insert_newer ad_rank (att_validator_id p) (att_data p) (latest_new_attestations voted) \<and>
      get_fork_choice_head s' (cp_root (fc_latest_justified s')) (latest_known_attestations s') 0 = Ok (fc_head s'))"

lemma accepted_as_D:
  assumes "accepted_as H s sb r st' s'"
  shows "on_block H s sb = (s', Ok ())" and "store_ok H s'" and "safe_target s' = safe_target s"
    and "fc_time s' = fc_time s" and "blocks s' = hm_insert r (bwa_block (sb_message sb)) (blocks s)"
    and "fc_latest_finalized s' = fc_latest_finalized (insert_block r (bwa_block (sb_message sb)) st' s)"
    and "fc_latest_justified s' = fc_latest_justified (insert_block r (bwa_block (sb_message sb)) st' s)"
    and "latest_known_attestations s' =
      latest_known_attestations (on_chain_votes (attestations (b_body (bwa_block (sb_message sb)))) s)"
    and "latest_new_attestations s' = hm.insert_newer ad_rank
      (att_validator_id (bwa_proposer_attestation (sb_message sb))) (att_data (bwa_proposer_attestation (sb_message sb)))
      (latest_new_attestations (on_chain_votes (attestations (b_body (bwa_block (sb_message sb)))) s))"
    and "get_fork_choice_head s' (cp_root (fc_latest_justified s')) (latest_known_attestations s') 0 = Ok (fc_head s')"
  using assms unfolding accepted_as_def Let_def by blast+

lemma accepted_as_votes_ok:
  assumes "accepted_as H s sb r st' s'" and "vote_maps_ok s"
  shows "vote_maps_ok s'"
  using on_chain_votes_maps_ok[OF assms(2)] accepted_as_D(8,9)[OF assms(1)] by (simp add: vote_maps_ok_def hm.ok_insert_newer)

lemma on_block_accepts:
  assumes det: "root_determines_slot H" and ok: "store_ok H s"
    and b: "b = bwa_block (sb_message sb)" and r: "r = root_block H b" and new: "\<not> hm_contains_key (blocks s) r"
    and par: "hm_get (states s) (b_parent_root b) = Some pst"
    and tr: "state_transition H pst sb True = Ok st'" and q: "blocks_queue s = []"
  shows "\<exists>s'. accepted_as H s sb r st' s'"
proof -
  let ?p = "bwa_proposer_attestation (sb_message sb)" and ?atts = "attestations (b_body b)"
  let ?s1 = "insert_block r b st' s"
  let ?s2 = "?s1\<lparr>aggregated_payloads := store_proofs H ?atts (attestation_signatures (sb_signature sb))
    (aggregated_payloads ?s1)\<rparr>"
  let ?s3 = "on_chain_votes ?atts ?s2"
  obtain s' where s': "process_block_internal H sb r s = (s', Ok ())" "evolves H s s'"
    "blocks s' = hm_insert r b (blocks s)" "states s' = hm_insert r st' (states s)"
    using process_block_internal_Ok[OF det ok b r par tr] by blast
  then obtain s4 where s4: "update_head ?s3 = Ok s4"
    and eq: "s' = on_attestation_internal (remember_signature H (att_validator_id ?p) (att_data ?p)
        (proposer_signature (sb_signature sb)) s4) (att_validator_id ?p) (att_data ?p) False"
    using par tr by (auto simp: process_block_internal_def Let_def run_step_def b split: res.splits)
  have votes: "latest_known_attestations ?s3 = latest_known_attestations (on_chain_votes ?atts s) \<and>
      latest_new_attestations ?s3 = latest_new_attestations (on_chain_votes ?atts s)"
    by (rule on_chain_votes_cong) (simp_all add: insert_block_def Let_def)
  note h = update_head_fields[OF s4]
  obtain hd where s4h: "s4 = ?s3\<lparr>fc_head := hd\<rparr>" using h(2) by blast
  have fields: "safe_target s' = safe_target s" "fc_time s' = fc_time s"
    "fc_latest_finalized s' = fc_latest_finalized ?s1" "fc_latest_justified s' = fc_latest_justified ?s1"
    "latest_known_attestations s' = latest_known_attestations (on_chain_votes ?atts s)"
    "latest_new_attestations s' = hm.insert_newer ad_rank (att_validator_id ?p) (att_data ?p)
      (latest_new_attestations (on_chain_votes ?atts s))"
    using votes
    by (simp_all add: eq s4h remember_signature_def on_attestation_internal_known on_attestation_internal_new)
       (simp_all add: insert_block_def Let_def)
  have q': "blocks_queue s' = []" using process_block_internal_queue[of H sb r s] by (simp add: s'(1) q)
  have "blocks s' = blocks ?s3" using s'(3) by simp
  from get_fork_choice_head_blocks[OF this] h(1)
  have head: "get_fork_choice_head s' (cp_root (fc_latest_justified s')) (latest_known_attestations s') 0 = Ok (fc_head s')"
    using votes fields by (simp add: eq remember_signature_def)
  have "hm_contains_key (states s) (b_parent_root b)" using par by (simp add: hm_contains_key_def)
  moreover have "process_pending_blocks H [r] s' = Ok s'" by (simp add: process_pending_blocks.simps q' hm_get_def)
  ultimately have "on_block H s sb = (s', Ok ())"
    using new s'(1) by (simp add: on_block_def Let_def run_step_def b r)
  moreover have "store_ok H s'" using s'(2) ok by (simp add: evolves_def)
  ultimately have "accepted_as H s sb r st' s'"
    unfolding accepted_as_def Let_def b[symmetric] using q' s'(3,4) fields head by blast
  then show ?thesis by blast
qed

section \<open>A node that catches up\<close>

text \<open>Three blocks arrive one after the other at the store of the genesis block.\<close>

definition sample_root_3 :: h256 where
  "sample_root_3 = root_block sample_root sample_block_3"

definition store_after :: "signed_block_with_attestation list \<Rightarrow> store" where
  "store_after sbs = fold (\<lambda>sb s. fst (on_block sample_root s sb)) sbs sample_store"

definition caught_up :: store where
  "caught_up = store_after [sealed sample_block_1, sealed sample_block_2, sealed sample_block_3]"

lemma sample_roots:
  "sample_root_0 \<noteq> 0" "sample_root_1 \<noteq> 0" "sample_root_2 \<noteq> 0" "sample_root_3 \<noteq> 0"
  "sample_root_1 \<noteq> sample_root_0" "sample_root_2 \<noteq> sample_root_0" "sample_root_3 \<noteq> sample_root_0"
  "sample_root_2 \<noteq> sample_root_1" "sample_root_3 \<noteq> sample_root_1" "sample_root_3 \<noteq> sample_root_2"
  by (simp_all add: sample_root_3_def sample_root_0_def sample_defs run_simps)

lemma sealed_simps [simp]:
  "bwa_block (sb_message (sealed b)) = b" "bwa_proposer_attestation (sb_message (sealed b)) =
    \<lparr>att_validator_id = b_proposer_index b, att_data = data_at (b_slot b)\<rparr>"
  by (simp_all add: sealed_def)

lemma on_chain_votes_one:
  "on_chain_votes [a] s = fold (\<lambda>i s. on_attestation_internal s i (aa_data a) True) (set_bit_indices (aa_bits a)) s"
  by (simp add: on_chain_votes_def)

lemma caught_up_run:
  obtains s1 s2 s3 where "accepted_as sample_root sample_store (sealed sample_block_1) sample_root_1 sample_state_1 s1"
    and "accepted_as sample_root s1 (sealed sample_block_2) sample_root_2 sample_state_2 s2"
    and "accepted_as sample_root s2 (sealed sample_block_3) sample_root_3 sample_state_3 s3"
    and "caught_up = s3"
proof -
  note acc = on_block_accepts[OF sample_root_slot _ sealed_simps(1)[symmetric]]
  have "\<not> hm_contains_key (blocks sample_store) sample_root_1"
    using sample_roots by (simp add: sample_store_eq hm_contains_key_def hm_get_def)
  moreover have "hm_get (states sample_store) (b_parent_root sample_block_1) = Some sample_genesis"
    "blocks_queue sample_store = []"
    by (simp_all add: sample_store_eq hm_get_def sample_root_0_def sample_block_1_def)
  ultimately obtain s1 where
    s1: "accepted_as sample_root sample_store (sealed sample_block_1) sample_root_1 sample_state_1 s1"
    using acc[OF sample_store_ok sample_root_1_def _ _ sample_step_1] by blast
  then have ok1: "store_ok sample_root s1" "blocks_queue s1 = []" "\<not> hm_contains_key (blocks s1) sample_root_2"
    "hm_get (states s1) (b_parent_root sample_block_2) = Some sample_state_1"
    using sample_roots
    by (simp_all add: accepted_as_def Let_def sample_store_eq hm_contains_key_def sample_block_2_def hm_get_def hm_insert_def)
  then obtain s2 where s2: "accepted_as sample_root s1 (sealed sample_block_2) sample_root_2 sample_state_2 s2"
    using acc[OF ok1(1) sample_root_2_def ok1(3,4) sample_step_2] by blast
  then have ok2: "store_ok sample_root s2" "blocks_queue s2 = []" "\<not> hm_contains_key (blocks s2) sample_root_3"
    "hm_get (states s2) (b_parent_root sample_block_3) = Some sample_state_2"
    using sample_roots s1
    by (simp_all add: accepted_as_def Let_def sample_store_eq hm_contains_key_def sample_block_3_def hm_get_def hm_insert_def)
  then obtain s3 where s3: "accepted_as sample_root s2 (sealed sample_block_3) sample_root_3 sample_state_3 s3"
    using acc[OF ok2(1) sample_root_3_def ok2(3,4) sample_step_3] by blast
  have "caught_up = s3" using s1 s2 s3 by (simp add: caught_up_def store_after_def accepted_as_def Let_def)
  from that[OF s1 s2 s3 this] show ?thesis .
qed

lemma caught_up_fields:
  "store_ok sample_root caught_up" "store_run sample_root sample_store caught_up"
  "blocks caught_up = [(sample_root_0, sample_block_0), (sample_root_1, sample_block_1), (sample_root_2, sample_block_2),
     (sample_root_3, sample_block_3)]"
  "safe_target caught_up = sample_root_0" "fc_time caught_up = 0"
  "fc_latest_finalized caught_up = checkpoint_at sample_root_1 1"
  "fc_latest_justified caught_up = checkpoint_at sample_root_2 2"
  "vote_maps_ok caught_up" "hm_get (latest_new_attestations caught_up) 0 = None"
  "hm_get (latest_known_attestations caught_up) 0 =
     Some (aa_data (vote_for (checkpoint_at sample_root_1 1) (checkpoint_at sample_root_2 2) []))"
  "get_fork_choice_head caught_up sample_root_2 (latest_known_attestations caught_up) 0 = Ok (fc_head caught_up)"
proof -
  obtain s1 s2 s3 where run: "accepted_as sample_root sample_store (sealed sample_block_1) sample_root_1 sample_state_1 s1"
    "accepted_as sample_root s1 (sealed sample_block_2) sample_root_2 sample_state_2 s2"
    "accepted_as sample_root s2 (sealed sample_block_3) sample_root_3 sample_state_3 s3" and up: "caught_up = s3"
    by (rule caught_up_run)
  note steps = run[unfolded accepted_as_def Let_def sealed_simps]
  show "store_ok sample_root caught_up" using steps up by simp
  have "store_run sample_root sample_store (fst (on_block sample_root (fst (on_block sample_root
      (fst (on_block sample_root sample_store (sealed sample_block_1))) (sealed sample_block_2))) (sealed sample_block_3)))"
    by (intro store_run.block store_run.start)
  then show "store_run sample_root sample_store caught_up" by (simp add: caught_up_def store_after_def)
  show "blocks caught_up = [(sample_root_0, sample_block_0), (sample_root_1, sample_block_1), (sample_root_2, sample_block_2),
     (sample_root_3, sample_block_3)]" "safe_target caught_up = sample_root_0" "fc_time caught_up = 0"
    using steps up sample_roots by (simp_all add: sample_store_eq hm_insert_def)
  have cps: "fc_latest_finalized s1 = checkpoint_at sample_root_0 0" "fc_latest_justified s1 = checkpoint_at sample_root_0 0"
    "fc_latest_finalized s2 = checkpoint_at sample_root_0 0" "fc_latest_justified s2 = checkpoint_at sample_root_1 1"
    using steps
    by (simp_all add: insert_block_def Let_def sample_store_eq sample_state_1_def sample_state_2_def checkpoint_at_def)
  then show fin: "fc_latest_finalized caught_up = checkpoint_at sample_root_1 1"
    "fc_latest_justified caught_up = checkpoint_at sample_root_2 2"
    using steps up by (simp_all add: insert_block_def Let_def sample_state_3_def checkpoint_at_def)
  show "get_fork_choice_head caught_up sample_root_2 (latest_known_attestations caught_up) 0 = Ok (fc_head caught_up)"
    using accepted_as_D(10)[OF run(3)] fin(2) unfolding up by (simp add: checkpoint_at_def)
  have bits: "set_bit_indices [True, True, True, False] = [0, 1, 2]" "set_bit_indices [True, False, True, True] = [0, 2, 3]"
    by (simp_all add: set_bit_indices_def)
  have known: "latest_known_attestations s1 = []" "latest_new_attestations s1 = [(1, data_at 1)]"
    using accepted_as_D(8,9)[OF run(1)]
    by (simp_all add: on_chain_votes_def sample_block_1_def sample_store_eq hm.insert_newer_def
            hm.newer_than_def hm_get_def hm_insert_def)
  have ok: "vote_maps_ok s1" "vote_maps_ok s2" "vote_maps_ok s3"
    using known(1) known(2) accepted_as_votes_ok[OF run(2)] accepted_as_votes_ok[OF run(3)]
    by (simp_all add: vote_maps_ok_def hm_ok_def)
  then show "vote_maps_ok caught_up" by (simp add: up)
  have "hm_get (latest_new_attestations s1) 0 = None" by (simp add: known hm_get_def)
  then have "hm_get (latest_new_attestations s2) 0 = None"
    using ok(1) by (simp add: accepted_as_D(9)[OF run(2)] hm.get_insert_newer on_chain_votes_pending vote_maps_ok_def
        sample_block_2_def)
  then show "hm_get (latest_new_attestations caught_up) 0 = None"
    using ok(2) by (simp add: up accepted_as_D(9)[OF run(3)] hm.get_insert_newer on_chain_votes_pending vote_maps_ok_def
        sample_block_3_def)
  have nil: "hm_get ([] :: (u64, attestation_data) hmap) i = None" for i by (simp add: hm_get_def)
  have "hm_get (latest_known_attestations s2) 0 =
      Some (aa_data (vote_for (checkpoint_at 129127595897592409212583936 0) (checkpoint_at sample_root_1 1) []))"
    by (simp add: accepted_as_D(8)[OF run(2)] sample_block_2_def on_chain_votes_one vote_for_def bits known
        on_attestation_internal_known hm.get_insert_newer hm.newer_than_def nil)
  then show "hm_get (latest_known_attestations caught_up) 0 =
      Some (aa_data (vote_for (checkpoint_at sample_root_1 1) (checkpoint_at sample_root_2 2) []))"
    by (simp add: up accepted_as_D(8)[OF run(3)] sample_block_3_def on_chain_votes_one vote_for_def bits
        on_attestation_internal_known hm.get_insert_newer hm.newer_than_def ad_rank_def checkpoint_at_def)
qed

lemma caught_up_chain:
  "hm_get (blocks caught_up) sample_root_0 = Some sample_block_0" "hm_get (blocks caught_up) sample_root_1 = Some sample_block_1"
  "hm_get (blocks caught_up) sample_root_2 = Some sample_block_2" "hm_get (blocks caught_up) sample_root_3 = Some sample_block_3"
  "b_parent_root sample_block_1 = sample_root_0" "b_parent_root sample_block_2 = sample_root_1"
  "b_parent_root sample_block_3 = sample_root_2"
  "b_slot sample_block_0 = 0" "b_slot sample_block_1 = 1" "b_slot sample_block_2 = 2" "b_slot sample_block_3 = 3"
  using sample_roots
  by (simp_all add: caught_up_fields hm_get_def sample_block_0_def genesis_block_def sample_root_0_def sample_block_1_def
      sample_block_2_def sample_block_3_def)

lemma caught_up_head: "fc_head caught_up = sample_root_3"
proof -
  have tree: "tree_ok sample_root (blocks caught_up) (states caught_up)"
    using caught_up_fields(1) by (simp add: store_ok_def)
  then have ok: "hm_ok (blocks caught_up)" by (simp add: tree_ok_def)
  have el: "eligible (blocks caught_up) W 0 sample_root_2 = {sample_root_3}" "eligible (blocks caught_up) W 0 sample_root_3 = {}" for W
    using sample_roots sample_block_0_parent caught_up_chain(5-7)
    by (auto simp: eligible_def caught_up_fields hm_get_def split: if_splits)
  from get_fork_choice_head_ghost[OF tree_ok_parents_older[OF tree] ok caught_up_chain(3) sample_roots(3)]
  obtain W where "ghost (blocks caught_up) W 0 sample_root_2 (fc_head caught_up)"
    using caught_up_fields(11) by (metis res.inject(1))
  moreover have "ghost (blocks caught_up) W 0 sample_root_2 sample_root_3"
    by (rule ghost.child[of sample_root_3]) (simp_all add: el ghost.leaf)
  ultimately show ?thesis by (metis ghost_unique)
qed

lemma caught_up_descends: "descends (parent_of (blocks caught_up)) sample_root_3 sample_root_1"
  "descends (parent_of (blocks caught_up)) sample_root_3 sample_root_0"
proof -
  have "parent_of (blocks caught_up) sample_root_3 = Some sample_root_2" "parent_of (blocks caught_up) sample_root_2 = Some sample_root_1"
    "parent_of (blocks caught_up) sample_root_1 = Some sample_root_0"
    using sample_roots by (simp_all add: parent_of_def caught_up_chain)
  then show "descends (parent_of (blocks caught_up)) sample_root_3 sample_root_1"
    "descends (parent_of (blocks caught_up)) sample_root_3 sample_root_0"
    by (metis descends.step descends.refl)+
qed

section \<open>Properties\<close>

text \<open>
  C18: the target of an attestation.  Let the finalized block be a known ancestor of the head.  If it is not newer
  than the safe target, \<^verbatim>\<open>get_attestation_target\<close> returns, without a panic and without running for ever, a known block
  between the two, with its slot, and that slot is justifiable after the finalized one.  If it is newer than the safe
  target, which is an ancestor of the head too, and the head is less than \<^verbatim>\<open>JUSTIFICATION_LOOKBACK_SLOTS\<close> slots ahead
  of it, the walk back from the head passes the finalized block and \<^verbatim>\<open>is_justifiable_after\<close> panics.
\<close>

theorem attestation_target_outcome:
  assumes "parents_older (blocks s)" and "hm_ok (blocks s)" and "hm_get (blocks s) (fc_head s) = Some hb"
    and "hm_get (blocks s) (safe_target s) = Some sb" and "hm_get (blocks s) f = Some fb"
    and "b_slot fb = cp_slot (fc_latest_finalized s)" and "descends (parent_of (blocks s)) (fc_head s) f"
  shows "(b_slot fb \<le> b_slot sb \<longrightarrow>
      (\<exists>c b. get_attestation_target s = Ok c \<and> hm_get (blocks s) (cp_root c) = Some b \<and>
        cp_slot c = b_slot b \<and> is_justifiable_after (cp_slot c) (cp_slot (fc_latest_finalized s)) = Ok True \<and>
        descends (parent_of (blocks s)) (fc_head s) (cp_root c) \<and> descends (parent_of (blocks s)) (cp_root c) f)) \<and>
    (b_slot sb < b_slot fb \<and> descends (parent_of (blocks s)) (fc_head s) (safe_target s) \<and>
      unat (b_slot hb) < unat (b_slot fb) + justification_lookback_slots \<longrightarrow>
      get_attestation_target s = Panic CandidateBeforeFinalized)"
proof (intro conjI impI)
  show "\<exists>c b. get_attestation_target s = Ok c \<and> hm_get (blocks s) (cp_root c) = Some b \<and>
        cp_slot c = b_slot b \<and> is_justifiable_after (cp_slot c) (cp_slot (fc_latest_finalized s)) = Ok True \<and>
        descends (parent_of (blocks s)) (fc_head s) (cp_root c) \<and> descends (parent_of (blocks s)) (cp_root c) f"
    if "b_slot fb \<le> b_slot sb"
    using get_attestation_target_Ok[OF assms(1,2) _ assms(4,5,6) that assms(7)] assms(3) by (simp add: hm_contains_key_def)
qed (use get_attestation_target_Panic[OF assms(1,3,4)] assms(6) in simp)

theorem attestation_target_outcome_witness:
  "(\<exists>c. get_attestation_target sample_store = Ok c) \<and>
   store_run sample_root sample_store caught_up \<and> get_attestation_target caught_up = Panic CandidateBeforeFinalized"
proof -
  have older: "parents_older (blocks s) \<and> hm_ok (blocks s)" if "store_ok sample_root s" for s
    using that tree_ok_parents_older by (auto simp: store_ok_def tree_ok_def)
  have "hm_get (blocks sample_store) sample_root_0 = Some sample_block_0" "fc_head sample_store = sample_root_0"
    "safe_target sample_store = sample_root_0" "b_slot sample_block_0 = cp_slot (fc_latest_finalized sample_store)"
    by (simp_all add: sample_store_eq hm_get_def sample_block_0_def genesis_block_def)
  with attestation_target_outcome[of sample_store sample_block_0 sample_block_0 sample_root_0 sample_block_0]
    older[OF sample_store_ok] have "\<exists>c. get_attestation_target sample_store = Ok c"
    by (auto simp: descends.refl)
  moreover have "get_attestation_target caught_up = Panic CandidateBeforeFinalized"
    using attestation_target_outcome[of caught_up sample_block_3 sample_block_0 sample_root_1 sample_block_1]
      older[OF caught_up_fields(1)] caught_up_descends
    by (simp add: caught_up_head caught_up_fields(4,6) caught_up_chain checkpoint_at_def justification_lookback_slots_def)
  ultimately show ?thesis using caught_up_fields(2) by blast
qed

text \<open>
  C36: accepting the pending votes replaces a newer counted vote by an older one.  Let the store have counted a vote of
  some validator, and let an attestation of that validator for an earlier slot pass \<^verbatim>\<open>on_attestation\<close> while no pending
  vote of the validator is as new.  Then \<^verbatim>\<open>accept_new_attestations\<close> succeeds and the older vote is the counted one.
\<close>

theorem counted_vote_regresses:
  assumes "store_ok H s" and "vote_maps_ok s" and "snd (on_attestation H s a False) = Ok ()"
    and "hm_get (latest_known_attestations s) (sa_validator_id a) = Some d" and "ad_slot (sa_message a) < ad_slot d"
    and "\<forall>e. hm_get (latest_new_attestations s) (sa_validator_id a) = Some e \<longrightarrow> ad_slot e < ad_slot (sa_message a)"
  shows "\<exists>s'. accept_new_attestations (fst (on_attestation H s a False)) = Ok s' \<and>
    hm_get (latest_known_attestations s') (sa_validator_id a) = Some (sa_message a) \<and>
    vote_slot (latest_known_attestations s') (sa_validator_id a) < vote_slot (latest_known_attestations s) (sa_validator_id a)"
proof -
  let ?i = "sa_validator_id a" and ?t = "fst (on_attestation H s a False)"
  have t: "?t = on_attestation_internal (remember_signature H ?i (sa_message a) (sa_signature a) s) ?i (sa_message a) False"
    using assms(3) unfolding on_attestation_Ok by (simp add: on_attestation_def Let_def)
  have new: "latest_new_attestations ?t = hm.insert_newer ad_rank ?i (sa_message a) (latest_new_attestations s)"
    by (simp add: t on_attestation_internal_new remember_signature_def)
  have ok: "hm_ok (latest_new_attestations ?t)" using assms(2) by (simp add: new vote_maps_ok_def hm.ok_insert_newer)
  have pending: "hm_get (latest_new_attestations ?t) ?i = Some (sa_message a)"
    using assms(6) by (auto simp: new hm.get_insert_newer hm.newer_than_def ad_rank_def word_less_nat_alt split: option.split)
  have "store_ok H ?t" using on_attestation_evolves[of H s H a False] assms(1) by (simp add: evolves_def)
  from accept_new_attestations_steps[OF this] obtain s' where s': "accept_new_attestations ?t = Ok s'"
    by (auto simp: steps_to_def)
  have "hm_get (latest_known_attestations s') ?i = Some (sa_message a)"
    using accept_new_attestations_votes(2)[OF s' ok, of ?i] pending by simp
  with s' assms(4,5) show ?thesis by (auto simp: vote_slot_def ad_rank_def word_less_nat_alt)
qed

theorem counted_vote_regresses_witness:
  "\<exists>a s'. store_run sample_root sample_store caught_up \<and> snd (on_attestation sample_root caught_up a False) = Ok () \<and>
    accept_new_attestations (fst (on_attestation sample_root caught_up a False)) = Ok s' \<and>
    vote_slot (latest_known_attestations caught_up) 0 = 2 \<and> vote_slot (latest_known_attestations s') 0 = 1"
proof -
  let ?d = "aa_data (vote_for (checkpoint_at sample_root_0 0) (checkpoint_at sample_root_1 1) [])"
  let ?a = "\<lparr>sa_validator_id = 0, sa_message = ?d, sa_signature = signature_default\<rparr>"
  have acc: "snd (on_attestation sample_root caught_up ?a False) = Ok ()"
    unfolding on_attestation_Ok validate_attestation_data_Ok
    by (simp add: vote_for_def checkpoint_at_def caught_up_chain caught_up_fields(5) hm_contains_key_def)
  from counted_vote_regresses[OF caught_up_fields(1,8) acc] obtain s' where
    "accept_new_attestations (fst (on_attestation sample_root caught_up ?a False)) = Ok s'"
    "hm_get (latest_known_attestations s') 0 = Some ?d"
    by (auto simp: caught_up_fields(9,10) vote_for_def checkpoint_at_def)
  moreover have "vote_slot (latest_known_attestations caught_up) 0 = 2"
    by (simp add: vote_slot_def caught_up_fields(10) ad_rank_def vote_for_def checkpoint_at_def)
  ultimately show ?thesis using acc caught_up_fields(2)
    by (intro exI[of _ ?a] exI[of _ s']) (simp add: vote_slot_def ad_rank_def vote_for_def checkpoint_at_def)
qed

end
