(* ===== verification/Validator.thy ===== *)
theory Validator
  imports Store_Runs
begin

text \<open>
  The \<^verbatim>\<open>validator\<close> crate: which validators a node runs, their keys, and their duties, block proposals
  and attestations.  The file system is an argument, \<open>files\<close>: which directories exist, the bytes of
  a key file and the parsed registry.
\<close>

section \<open>Configuration and keys\<close>

record files =
  dir_exists :: "string \<Rightarrow> bool"
  read_key_file :: "string \<Rightarrow> string \<Rightarrow> bytes option"
  read_registry :: "string \<Rightarrow> (string, u64 list) hmap option"

record validator_config =
  node_id :: string
  validator_indices :: "u64 list"

definition load_from_file :: "files \<Rightarrow> string \<Rightarrow> string \<Rightarrow> validator_config res" where
  "load_from_file F path node =
     and_then (ok_or (read_registry F path) RegistryUnreadable) (\<lambda>registry.
     and_then (ok_or (hm_get registry node) NodeNotInRegistry) (\<lambda>indices.
     Ok \<lparr>node_id = node, validator_indices = indices\<rparr>))"

definition is_assigned :: "validator_config \<Rightarrow> u64 \<Rightarrow> bool" where
  "is_assigned c index \<longleftrightarrow> index \<in> set (validator_indices c)"

record key_manager =
  km_keys :: "(u64, secret_key) hmap"
  keys_dir :: string

definition key_manager_new :: "files \<Rightarrow> string \<Rightarrow> key_manager res" where
  "key_manager_new F dir =
     (if dir_exists F dir then Ok \<lparr>km_keys = [], keys_dir = dir\<rparr> else Err KeysDirectoryNotFound)"

definition key_file_name :: "u64 \<Rightarrow> string" where
  "key_file_name validator_index = ''validator_'' @ decimal (unat validator_index) @ ''_sk.ssz''"

definition load_key :: "files \<Rightarrow> xmss_lib \<Rightarrow> u64 \<Rightarrow> key_manager \<Rightarrow> key_manager res" where
  "load_key F X validator_index km =
     and_then (ok_or (read_key_file F (keys_dir km) (key_file_name validator_index)) KeyFileUnreadable) (\<lambda>key_bytes.
     and_then (secret_key_try_from X key_bytes) (\<lambda>key.
     Ok (km\<lparr>km_keys := hm_insert validator_index key (km_keys km)\<rparr>)))"

definition key_manager_sign :: "xmss_lib \<Rightarrow> key_manager \<Rightarrow> u64 \<Rightarrow> u32 \<Rightarrow> h256 \<Rightarrow> signature res" where
  "key_manager_sign X km validator_index epoch message =
     and_then (ok_or (hm_get (km_keys km) validator_index) NoKeyLoaded) (\<lambda>key.
     secret_key_sign X key message epoch)"

definition has_key :: "key_manager \<Rightarrow> u64 \<Rightarrow> bool" where
  "has_key km validator_index \<longleftrightarrow> hm_contains_key (km_keys km) validator_index"

section \<open>The service\<close>

record validator_service =
  vs_config :: validator_config
  num_validators :: u64
  key_manager_of :: "key_manager option"

definition validator_service_new :: "validator_config \<Rightarrow> u64 \<Rightarrow> validator_service" where
  "validator_service_new conf n = \<lparr>vs_config = conf, num_validators = n, key_manager_of = None\<rparr>"

definition new_with_keys ::
  "files \<Rightarrow> xmss_lib \<Rightarrow> validator_config \<Rightarrow> u64 \<Rightarrow> string \<Rightarrow> validator_service res" where
  "new_with_keys F X conf n dir =
     and_then (key_manager_new F dir) (\<lambda>km.
     and_then (for_each (load_key F X) (validator_indices conf) km) (\<lambda>km.
     Ok \<lparr>vs_config = conf, num_validators = n, key_manager_of = Some km\<rparr>))"

definition get_proposer_for_slot :: "validator_service \<Rightarrow> slot \<Rightarrow> u64 option" where
  "get_proposer_for_slot vs slot =
     (if num_validators vs = 0 then None
      else
        let proposer = slot mod num_validators vs in
        if is_assigned (vs_config vs) proposer then Some proposer else None)"

definition sign_block ::
  "xmss_lib \<Rightarrow> ssz_root \<Rightarrow> validator_service \<Rightarrow> store \<Rightarrow> block \<Rightarrow> u64 \<Rightarrow> aggregated_signature_proof list \<Rightarrow>
   signed_block_with_attestation res" where
  "sign_block X H vs s b validator_index attestation_sigs =
     and_then (produce_attestation_data s (b_slot b)) (\<lambda>proposer_attestation_data.
     let proposer_attestation = \<lparr>att_validator_id = validator_index, att_data = proposer_attestation_data\<rparr> in
     and_then (ok_or (key_manager_of vs) KeyManagerNotConfigured) (\<lambda>km.
     and_then (key_manager_sign X km validator_index (slot_epoch (b_slot b))
                (root_data H (att_data proposer_attestation))) (\<lambda>proposer_sig.
     if length attestation_sigs > validator_registry_limit then Err ListFull
     else Ok \<lparr>sb_message = \<lparr>bwa_block = b, bwa_proposer_attestation = proposer_attestation\<rparr>,
              sb_signature = \<lparr>attestation_signatures = attestation_sigs, proposer_signature = proposer_sig\<rparr>\<rparr>)))"

definition build_block_proposal ::
  "(u64 set \<Rightarrow> u64) \<Rightarrow> xmss_lib \<Rightarrow> ssz_root \<Rightarrow> validator_service \<Rightarrow> store \<Rightarrow> slot \<Rightarrow> u64 \<Rightarrow>
   (store, signed_block_with_attestation) mut" where
  "build_block_proposal first_of X H vs s slot proposer_index =
     and_do (produce_block_with_signatures first_of X H s slot proposer_index) (\<lambda>s (_, b, signatures).
     (s, sign_block X H vs s b proposer_index signatures))"

text \<open>One attestation; \<open>Ok None\<close> where the validator is skipped.\<close>

definition create_attestation ::
  "xmss_lib \<Rightarrow> ssz_root \<Rightarrow> validator_service \<Rightarrow> slot \<Rightarrow> attestation_data \<Rightarrow> u64 \<Rightarrow> signed_attestation option res" where
  "create_attestation X H vs slot data idx =
     (case key_manager_of vs of
        None \<Rightarrow> Ok (Some \<lparr>sa_validator_id = idx, sa_message = data, sa_signature = signature_default\<rparr>)
      | Some km \<Rightarrow>
          (case key_manager_sign X km idx (slot_epoch slot) (root_data H data) of
             Ok sig \<Rightarrow> Ok (Some \<lparr>sa_validator_id = idx, sa_message = data, sa_signature = sig\<rparr>)
           | Err e \<Rightarrow> Ok None
           | Panic p \<Rightarrow> Panic p
           | Diverge \<Rightarrow> Diverge))"

definition create_attestations ::
  "xmss_lib \<Rightarrow> ssz_root \<Rightarrow> validator_service \<Rightarrow> store \<Rightarrow> slot \<Rightarrow> signed_attestation list res" where
  "create_attestations X H vs s slot =
     and_then (get_attestation_target s) (\<lambda>vote_target.
     if cp_slot vote_target < cp_slot (fc_latest_justified s) then Ok []
     else
       (case hm_get (blocks s) (fc_head s) of
          None \<Rightarrow> Ok []
        | Some head_block \<Rightarrow>
            let data = \<lparr>ad_slot = slot, ad_head = \<lparr>cp_root = fc_head s, cp_slot = b_slot head_block\<rparr>,
                        ad_target = vote_target, ad_source = fc_latest_justified s\<rparr> in
            map_res (List.map_filter id)
              (map_collect (create_attestation X H vs slot data) (validator_indices (vs_config vs)))))"

section \<open>Keys\<close>

lemma key_file_name_inj: "key_file_name i = key_file_name j \<longleftrightarrow> i = j"
proof
  assume "key_file_name i = key_file_name j"
  then have "decimal (unat i) = decimal (unat j)" by (simp add: key_file_name_def)
  then show "i = j" by (metis read_decimal word_unat_eq_iff)
qed simp

lemma load_keys:
  assumes "for_each (load_key F X) is km = Ok km'"
  shows "keys_dir km' = keys_dir km \<and>
    (\<forall>i \<in> set is. \<exists>bs. read_key_file F (keys_dir km) (key_file_name i) = Some bs \<and> sk_decodes X bs \<and>
        hm_get (km_keys km') i = Some (SecretKey bs)) \<and>
    (\<forall>i. i \<notin> set is \<longrightarrow> hm_get (km_keys km') i = hm_get (km_keys km) i)"
  using assms
proof (induction "is" arbitrary: km)
  case (Cons j js)
  then obtain km1 where km1: "load_key F X j km = Ok km1" and rest: "for_each (load_key F X) js km1 = Ok km'"
    by auto
  from km1 obtain bs where bs: "read_key_file F (keys_dir km) (key_file_name j) = Some bs" "sk_decodes X bs"
    and eq: "km1 = km\<lparr>km_keys := hm_insert j (SecretKey bs) (km_keys km)\<rparr>"
    by (auto simp: load_key_def secret_key_try_from_def split: if_splits)
  from Cons.IH[OF rest] bs show ?case unfolding eq by (cases "j \<in> set js") auto
qed simp

section \<open>Duties\<close>

lemma map_filter_id: "x \<in> set (List.map_filter id xs) \<longleftrightarrow> Some x \<in> set xs"
  by (auto simp: map_filter_def image_iff)

lemma create_attestation_Some:
  "create_attestation X H vs slot data i = Ok (Some a) \<Longrightarrow> sa_message a = data \<and> sa_validator_id a = i"
  by (auto simp: create_attestation_def split: option.splits res.splits)

lemma create_attestations_Ok:
  assumes "create_attestations X H vs s slot = Ok as" and "a \<in> set as"
  obtains t b where "get_attestation_target s = Ok t" and "cp_slot (fc_latest_justified s) \<le> cp_slot t"
    and "hm_get (blocks s) (fc_head s) = Some b" and "sa_validator_id a \<in> set (validator_indices (vs_config vs))"
    and "sa_message a = \<lparr>ad_slot = slot, ad_head = \<lparr>cp_root = fc_head s, cp_slot = b_slot b\<rparr>, ad_target = t,
      ad_source = fc_latest_justified s\<rparr>"
proof -
  from assms(1) obtain t where t: "get_attestation_target s = Ok t"
    and rest: "(if cp_slot t < cp_slot (fc_latest_justified s) then Ok [] else
       (case hm_get (blocks s) (fc_head s) of None \<Rightarrow> Ok []
        | Some b \<Rightarrow> map_res (List.map_filter id) (map_collect (create_attestation X H vs slot
            \<lparr>ad_slot = slot, ad_head = \<lparr>cp_root = fc_head s, cp_slot = b_slot b\<rparr>, ad_target = t,
             ad_source = fc_latest_justified s\<rparr>) (validator_indices (vs_config vs))))) = Ok as"
    unfolding create_attestations_def Let_def by auto
  with assms(2) obtain b where le: "\<not> cp_slot t < cp_slot (fc_latest_justified s)"
    and b: "hm_get (blocks s) (fc_head s) = Some b" by (auto split: if_splits option.splits)
  let ?d = "\<lparr>ad_slot = slot, ad_head = \<lparr>cp_root = fc_head s, cp_slot = b_slot b\<rparr>, ad_target = t,
             ad_source = fc_latest_justified s\<rparr>"
  from rest le b obtain os where os: "map_collect (create_attestation X H vs slot ?d) (validator_indices (vs_config vs)) = Ok os"
    and as: "as = List.map_filter id os" by auto
  from assms(2) have "Some a \<in> set os" by (simp add: as map_filter_id)
  then obtain i where "i \<in> set (validator_indices (vs_config vs))" "create_attestation X H vs slot ?d i = Ok (Some a)"
    using map_collect_from[OF os] by blast
  with create_attestation_Some[OF this(2)] le show ?thesis by (intro that[OF t _ b]) auto
qed

lemma get_attestation_target_block:
  assumes "get_attestation_target s = Ok t"
  obtains b where "hm_get (blocks s) (cp_root t) = Some b" and "b_slot b = cp_slot t"
  using assms by (auto simp: get_attestation_target_def block_slot_def)

text \<open>The two messages a proposer signs.\<close>

lemma proposal_signed:
  assumes "root_determines_slot H" and "store_ok H s"
    and "build_block_proposal first_of X H vs s slot i = (s1, Ok sb)" and "key_manager_of vs = Some km"
  shows "store_ok H s1 \<and> (\<exists>pd. produce_attestation_data s1 slot = Ok pd \<and>
    att_data (bwa_proposer_attestation (sb_message sb)) = pd \<and>
    key_manager_sign X km i (slot_epoch slot) (root_data H pd) = Ok (proposer_signature (sb_signature sb)))"
proof -
  from assms(3) obtain r b sigs where prod: "produce_block_with_signatures first_of X H s slot i = (s1, Ok (r, b, sigs))"
    and sign: "sign_block X H vs s1 b i sigs = Ok sb"
    by (auto simp: build_block_proposal_def)
  have slot: "b_slot b = slot"
    by (rule produce_block_cases[OF assms(1,2), of slot first_of X i]) (use prod in auto)
  have "store_ok H s1"
    using produce_block_evolves[OF assms(1), of s first_of X slot i] assms(2) by (simp add: prod evolves_def)
  with sign show ?thesis by (auto simp: sign_block_def slot assms(4) split: if_splits)
qed

lemma create_attestations_signs:
  assumes "create_attestations X H vs s slot = Ok as" and "get_attestation_target s = Ok t"
    and "cp_slot (fc_latest_justified s) \<le> cp_slot t" and "produce_attestation_data s slot = Ok d"
    and "i \<in> set (validator_indices (vs_config vs))" and "key_manager_of vs = Some km"
    and "key_manager_sign X km i (slot_epoch slot) (root_data H d) = Ok sig"
  shows "\<lparr>sa_validator_id = i, sa_message = d, sa_signature = sig\<rparr> \<in> set as"
proof -
  from assms(4,2) obtain hb where hb: "hm_get (blocks s) (fc_head s) = Some hb"
    and d: "d = \<lparr>ad_slot = slot, ad_head = \<lparr>cp_root = fc_head s, cp_slot = b_slot hb\<rparr>, ad_target = t,
      ad_source = fc_latest_justified s\<rparr>"
    by (auto simp: produce_attestation_data_def)
  have "\<not> cp_slot t < cp_slot (fc_latest_justified s)" using assms(3) by simp
  with assms(1,2) hb d obtain os where
    os: "map_collect (create_attestation X H vs slot d) (validator_indices (vs_config vs)) = Ok os"
    and as: "as = List.map_filter id os"
    unfolding create_attestations_def Let_def by auto
  obtain x where "x \<in> set os" "create_attestation X H vs slot d i = Ok x"
    using map_collect_in[OF os assms(5)] by blast
  with assms(6,7) show ?thesis by (auto simp: create_attestation_def as map_filter_id)
qed

lemma attestation_data_eq_iff:
  assumes "root_determines_slot H" and "store_ok H s" and "store_ok H s'"
    and "produce_attestation_data s slot = Ok d" and "produce_attestation_data s' slot = Ok d'"
  shows "d = d' \<longleftrightarrow> fc_head s = fc_head s' \<and> get_attestation_target s = get_attestation_target s' \<and>
    fc_latest_justified s = fc_latest_justified s'"
proof -
  from assms(4,5) obtain b b' t t' where b: "hm_get (blocks s) (fc_head s) = Some b" "hm_get (blocks s') (fc_head s') = Some b'"
    and t: "get_attestation_target s = Ok t" "get_attestation_target s' = Ok t'"
    and d: "d = \<lparr>ad_slot = slot, ad_head = \<lparr>cp_root = fc_head s, cp_slot = b_slot b\<rparr>, ad_target = t,
        ad_source = fc_latest_justified s\<rparr>"
      "d' = \<lparr>ad_slot = slot, ad_head = \<lparr>cp_root = fc_head s', cp_slot = b_slot b'\<rparr>, ad_target = t',
        ad_source = fc_latest_justified s'\<rparr>"
    by (auto simp: produce_attestation_data_def)
  have "fc_head s = root_block H b" "fc_head s' = root_block H b'"
    using assms(2,3) b by (auto simp: store_ok_def tree_ok_def block_ok_def)
  with assms(1) have "fc_head s = fc_head s' \<Longrightarrow> b_slot b = b_slot b'"
    unfolding root_determines_slot_def by metis
  with t d show ?thesis by auto
qed

section \<open>Examples\<close>

definition sample_files :: files where
  "sample_files = \<lparr>dir_exists = (\<lambda>d. d = ''keys''),
     read_key_file = (\<lambda>d f. if d = ''keys'' then Some (map (\<lambda>c. of_char c) f) else None),
     read_registry = (\<lambda>p. Some [(''node'', [1, 2])])\<rparr>"

definition sample_config :: validator_config where
  "sample_config = \<lparr>node_id = ''node'', validator_indices = [1, 2]\<rparr>"

definition sample_service :: validator_service where
  "sample_service = validator_service_new sample_config 4"

definition sample_keyed :: validator_service where
  "sample_keyed = \<lparr>vs_config = sample_config, num_validators = 4,
     key_manager_of = Some \<lparr>km_keys = [(1, SecretKey []), (2, SecretKey [])], keys_dir = ''keys''\<rparr>\<rparr>"

lemma sample_produce_at:
  assumes head: "get_proposal_head sample_store n = Ok (sample_store\<lparr>fc_time := time\<rparr>)"
    and built: "build_block Min lenient_lib sample_root sample_genesis n n sample_root_0 None
      (Some []) (Some {sample_root_0}) (Some []) (Some []) = Ok (b, post, aggs, [])"
    and "is_proposer_for n n 4 = Ok True"
  shows "produce_block_with_signatures Min lenient_lib sample_root sample_store n n =
    (sample_store\<lparr>fc_time := time, blocks := hm_insert (root_block sample_root b) b (blocks sample_store),
      states := hm_insert (root_block sample_root b) post (states sample_store)\<rparr>,
      Ok (root_block sample_root b, b, []))" and "b_slot b = n" and "b_parent_root b = sample_root_0"
proof -
  have "length (validators sample_genesis) = 4"
    by (simp add: sample_genesis_def sample_validators_def genesis_with_list_def)
  with built assms(3) show "produce_block_with_signatures Min lenient_lib sample_root sample_store n n =
    (sample_store\<lparr>fc_time := time, blocks := hm_insert (root_block sample_root b) b (blocks sample_store),
      states := hm_insert (root_block sample_root b) post (states sample_store)\<rparr>,
      Ok (root_block sample_root b, b, []))"
    unfolding produce_block_with_signatures_def head run_step_def
    by (simp add: sample_store_eq Let_def hm_get_def hm_keys_def del: and_do_Ok)
  show "b_slot b = n" "b_parent_root b = sample_root_0"
    using build_block_transition(3,2)[OF built sealed_simps(1)] .
qed

lemma sample_produce:
  obtains s' b post sigs where "produce_block_with_signatures Min lenient_lib sample_root sample_store 1 1 =
    (s', Ok (root_block sample_root b, b, sigs))" and "b_slot b = 1" and "b_parent_root b = sample_root_0"
    and "sigs = []" and "s' = sample_store\<lparr>fc_time := 4,
      blocks := hm_insert (root_block sample_root b) b (blocks sample_store),
      states := hm_insert (root_block sample_root b) post (states sample_store)\<rparr>"
proof -
  have "\<exists>b post aggs. build_block Min lenient_lib sample_root sample_genesis 1 1 sample_root_0 None
     (Some []) (Some {sample_root_0}) (Some []) (Some []) = Ok (b, post, aggs, [])"
    by (simp add: build_run run_simps sample_defs sample_root_0_def del: outcome_iffs cong: run_congs)
  then obtain b post aggs where b: "build_block Min lenient_lib sample_root sample_genesis 1 1 sample_root_0 None
     (Some []) (Some {sample_root_0}) (Some []) (Some []) = Ok (b, post, aggs, [])" by blast
  have "is_proposer_for 1 1 4 = Ok True" by (simp add: is_proposer_for_def)
  from sample_produce_at[OF sample_proposal_head b this] that show ?thesis by blast
qed

lemma sample_keyed_signs:
  obtains km where "key_manager_of sample_keyed = Some km" and "vs_config sample_keyed = sample_config"
    and "\<forall>m. key_manager_sign lenient_lib km 1 (slot_epoch n) m = Ok (Signature (replicate 3112 0))"
    and "\<forall>m. key_manager_sign lenient_lib km 2 (slot_epoch n) m = Ok (Signature (replicate 3112 0))"
  by (simp add: sample_keyed_def key_manager_sign_def hm_get_def secret_key_sign_def secret_key_as_lean_def
      lenient_lib_def sample_lib_def signature_from_lean_def)

lemma sample_proposal:
  obtains s1 b sb where "build_block_proposal Min lenient_lib sample_root sample_keyed sample_store 1 1 = (s1, Ok sb)"
    and "root_block sample_root b \<noteq> sample_root_0"
    and "hm_get (blocks s1) sample_root_0 = Some sample_block_0" and "b_slot sample_block_0 = 0"
    and "hm_get (blocks s1) (root_block sample_root b) = Some b" and "b_slot b = 1" and "b_parent_root b = sample_root_0"
    and "fc_head s1 = sample_root_0" and "safe_target s1 = sample_root_0"
    and "fc_latest_justified s1 = \<lparr>cp_root = sample_root_0, cp_slot = 0\<rparr>"
    and "fc_latest_finalized s1 = \<lparr>cp_root = sample_root_0, cp_slot = 0\<rparr>"
    and "fc_time s1 = 4" and "fc_config s1 = \<lparr>genesis_time = 0\<rparr>"
proof -
  obtain s1 b post sigs where run: "produce_block_with_signatures Min lenient_lib sample_root sample_store 1 1 =
    (s1, Ok (root_block sample_root b, b, sigs))" and b: "b_slot b = 1" "b_parent_root b = sample_root_0"
    and len: "sigs = []" and s1: "s1 = sample_store\<lparr>fc_time := 4,
      blocks := hm_insert (root_block sample_root b) b (blocks sample_store),
      states := hm_insert (root_block sample_root b) post (states sample_store)\<rparr>"
    by (rule sample_produce)
  let ?r = "root_block sample_root b" and ?at0 = "\<lparr>cp_root = sample_root_0, cp_slot = 0\<rparr>"
  have r: "?r \<noteq> sample_root_0"
    using sample_root_low[of b] b(1) by (auto simp: sample_root_0_def)
  have known: "hm_get (blocks s1) sample_root_0 = Some sample_block_0" "b_slot sample_block_0 = 0"
    "hm_get (blocks s1) ?r = Some b"
    using r by (simp_all add: s1 sample_store_eq hm_get_def hm_insert_def sample_block_0_def genesis_block_def)
  have fields: "fc_head s1 = sample_root_0" "safe_target s1 = sample_root_0" "fc_latest_justified s1 = ?at0"
    "fc_latest_finalized s1 = ?at0" "fc_time s1 = 4" "fc_config s1 = \<lparr>genesis_time = 0\<rparr>"
    by (simp_all add: s1 sample_store_eq)
  have t1: "get_attestation_target s1 = Ok ?at0"
    by (simp add: get_attestation_target_def fields known block_slot_def block_parent_def map_res_def
        walk_fuel_def justification_lookback_slots_def numeral_3_eq_3 is_justifiable_after_def)
  obtain km where km: "key_manager_of sample_keyed = Some km"
    and sign: "\<forall>m. key_manager_sign lenient_lib km 1 (slot_epoch 1) m = Ok (Signature (replicate 3112 0))"
    by (rule sample_keyed_signs)
  obtain sb where sb: "build_block_proposal Min lenient_lib sample_root sample_keyed sample_store 1 1 = (s1, Ok sb)"
    by (simp add: build_block_proposal_def run sign_block_def produce_attestation_data_def known fields t1 b(1)
        map_res_def km(1) sign len Let_def)
  show ?thesis by (rule that[OF sb r known b fields])
qed

text \<open>
  A late block: the proposer of slot 2 builds on the genesis block, and the block of slot 1 arrives afterwards.
\<close>

lemma sample_proposal_head_2: "get_proposal_head sample_store 2 = Ok (sample_store\<lparr>fc_time := 8\<rparr>)"
  by (simp add: sample_store_eq get_proposal_head_def on_tick_def on_tick_loop.simps seconds_per_interval_def
      seconds_per_slot_def intervals_per_slot_def saturating_sub_def tick_interval_def
      accept_new_attestations_def update_head_def update_safe_target_def single_block_head
      sample_block_0_parent Let_def hm_extend_def map_res_def cong: run_congs)

lemma sample_produce_late:
  obtains s' b post where "produce_block_with_signatures Min lenient_lib sample_root sample_store 2 2 =
    (s', Ok (root_block sample_root b, b, []))" and "b_slot b = 2" and "b_parent_root b = sample_root_0"
    and "s' = sample_store\<lparr>fc_time := 8,
      blocks := hm_insert (root_block sample_root b) b (blocks sample_store),
      states := hm_insert (root_block sample_root b) post (states sample_store)\<rparr>"
proof -
  have "\<exists>b post aggs. build_block Min lenient_lib sample_root sample_genesis 2 2 sample_root_0 None
     (Some []) (Some {sample_root_0}) (Some []) (Some []) = Ok (b, post, aggs, [])"
    by (simp add: build_run run_simps sample_defs sample_root_0_def del: outcome_iffs cong: run_congs)
  then obtain b post aggs where b: "build_block Min lenient_lib sample_root sample_genesis 2 2 sample_root_0 None
     (Some []) (Some {sample_root_0}) (Some []) (Some []) = Ok (b, post, aggs, [])" by blast
  have "is_proposer_for 2 2 4 = Ok True" by (simp add: is_proposer_for_def)
  from sample_produce_at[OF sample_proposal_head_2 b this] that show ?thesis by blast
qed

lemma late_block:
  obtains s1 s2 b where "produce_block_with_signatures Min lenient_lib sample_root sample_store 2 2 =
      (s1, Ok (root_block sample_root b, b, []))" and "b_slot b = 2"
    and "s2 = fst (on_block sample_root s1 (sealed sample_block_1))"
    and "fc_head s1 = sample_root_0" and "fc_head s2 \<noteq> sample_root_0"
    and "get_attestation_target s1 = Ok (checkpoint_at sample_root_0 0)" and "get_attestation_target s2 = Ok (checkpoint_at sample_root_0 0)"
    and "fc_latest_justified s2 = checkpoint_at sample_root_0 0" and "hm_get (blocks s1) sample_root_0 = Some sample_block_0"
    and "hm_contains_key (blocks s2) (fc_head s2)"
proof -
  obtain s1 b post where run: "produce_block_with_signatures Min lenient_lib sample_root sample_store 2 2 =
      (s1, Ok (root_block sample_root b, b, []))" and b: "b_slot b = 2" "b_parent_root b = sample_root_0"
    and s1: "s1 = sample_store\<lparr>fc_time := 8, blocks := hm_insert (root_block sample_root b) b (blocks sample_store),
      states := hm_insert (root_block sample_root b) post (states sample_store)\<rparr>"
    by (rule sample_produce_late)
  let ?r = "root_block sample_root b" and ?at0 = "checkpoint_at sample_root_0 0"
  have r: "?r \<noteq> sample_root_0" "?r \<noteq> sample_root_1" "?r \<noteq> 0"
    using sample_root_low[of b] sample_root_low[of sample_block_1] b(1)
    by (auto simp: sample_root_0_def sample_root_1_def caught_up_chain)
  have ok1: "store_ok sample_root s1"
    using produce_block_evolves[OF sample_root_slot, of sample_store Min lenient_lib 2 2] sample_store_ok
    by (simp add: run evolves_def)
  have "\<not> hm_contains_key (blocks s1) sample_root_1" "hm_get (states s1) (b_parent_root sample_block_1) = Some sample_genesis"
    "blocks_queue s1 = []"
    using r sample_roots by (simp_all add: s1 sample_store_eq hm_contains_key_def hm_get_def hm_insert_def caught_up_chain)
  from on_block_accepts[OF sample_root_slot ok1 sealed_simps(1)[symmetric] sample_root_1_def this(1,2) sample_step_1 this(3)]
  obtain s2 where s2: "accepted_as sample_root s1 (sealed sample_block_1) sample_root_1 sample_state_1 s2" by blast
  note D = accepted_as_D[OF s2]
  have bs1: "blocks s1 = [(sample_root_0, sample_block_0), (?r, b)]"
    using r by (simp add: s1 sample_store_eq hm_insert_def)
  then have bs2: "blocks s2 = [(sample_root_0, sample_block_0), (?r, b), (sample_root_1, sample_block_1)]"
    using r sample_roots D(5) by (simp add: hm_insert_def)
  have cps: "fc_latest_justified s2 = ?at0" "fc_latest_finalized s2 = ?at0" "safe_target s2 = sample_root_0"
    using D(3,6,7) by (simp_all add: s1 sample_store_eq insert_block_def Let_def sample_state_1_def checkpoint_at_def)
  have el: "eligible (blocks s2) W 0 sample_root_0 = {?r, sample_root_1}" "eligible (blocks s2) W 0 ?r = {}"
    "eligible (blocks s2) W 0 sample_root_1 = {}" for W
    using r sample_roots sample_block_0_parent b(2) caught_up_chain(5)
    by (auto simp: eligible_def bs2 hm_get_def split: if_splits)
  have tree: "tree_ok sample_root (blocks s2) (states s2)" using D(2) by (simp add: store_ok_def)
  have g0: "hm_get (blocks s2) sample_root_0 = Some sample_block_0" by (simp add: bs2 hm_get_def)
  from get_fork_choice_head_ghost[OF tree_ok_parents_older[OF tree] _ g0 sample_roots(1), of "latest_known_attestations s2" 0]
    tree D(10) cps(1)
  obtain W where "ghost (blocks s2) W 0 sample_root_0 (fc_head s2)" by (auto simp: tree_ok_def checkpoint_at_def)
  then obtain c where c: "c \<in> {?r, sample_root_1}" "ghost (blocks s2) W 0 c (fc_head s2)"
    unfolding ghost_unfold[of _ _ _ sample_root_0] el by blast
  have "eligible (blocks s2) W 0 c = {}" using c(1) el(2,3)[of W] by (elim insertE emptyE) simp_all
  then have "ghost (blocks s2) W 0 c c" by (rule ghost.leaf)
  from ghost_unique[OF this c(2)] c(1) have head: "fc_head s2 = ?r \<or> fc_head s2 = sample_root_1" by blast
  have "get_attestation_target s2 = Ok ?at0"
    using head r sample_roots b
    by (auto simp: get_attestation_target_def cps bs2 block_slot_def block_parent_def map_res_def hm_get_def
        caught_up_chain walk_fuel_def justification_lookback_slots_def numeral_3_eq_3 is_justifiable_after_def
        checkpoint_at_def)
  moreover
  have f1: "fc_head s1 = sample_root_0" "safe_target s1 = sample_root_0" "fc_latest_finalized s1 = ?at0"
    by (simp_all add: s1 sample_store_eq checkpoint_at_def)
  have "get_attestation_target s1 = Ok ?at0"
    by (simp add: get_attestation_target_def f1 bs1 block_slot_def map_res_def hm_get_def
        caught_up_chain walk_fuel_def justification_lookback_slots_def numeral_3_eq_3 is_justifiable_after_def
        checkpoint_at_def)
  moreover have "hm_contains_key (blocks s2) (fc_head s2)" using D(2) by (simp add: store_ok_def)
  moreover have "hm_get (blocks s1) sample_root_0 = Some sample_block_0" by (simp add: bs1 hm_get_def)
  moreover have "fc_head s2 \<noteq> sample_root_0" using head r(1) sample_roots(5) by auto
  moreover have "s2 = fst (on_block sample_root s1 (sealed sample_block_1))" by (simp add: D(1))
  ultimately show ?thesis using that[OF run b(1)] f1(1) cps(1) by blast
qed

section \<open>Properties\<close>

text \<open>
  C15: a node's own attestations pass its own checks.  Every attestation that \<^verbatim>\<open>create_attestations\<close> returns for
  the current slot is for an assigned validator and is accepted by \<^verbatim>\<open>on_attestation\<close> on the same store, if the
  justified checkpoint of the store names a block.
\<close>

theorem own_attestations_accepted:
  assumes "store_ok H s" and "cp_root (fc_latest_justified s) \<noteq> 0"
    and "create_attestations X H vs s (fc_time s div intervals_per_slot) = Ok as" and "a \<in> set as"
  shows "snd (on_attestation H s a False) = Ok () \<and> is_assigned (vs_config vs) (sa_validator_id a)"
proof -
  from assms(3,4) obtain t b where t: "get_attestation_target s = Ok t"
    and le: "cp_slot (fc_latest_justified s) \<le> cp_slot t" and b: "hm_get (blocks s) (fc_head s) = Some b"
    and i: "sa_validator_id a \<in> set (validator_indices (vs_config vs))"
    and d: "sa_message a = \<lparr>ad_slot = fc_time s div intervals_per_slot,
      ad_head = \<lparr>cp_root = fc_head s, cp_slot = b_slot b\<rparr>, ad_target = t, ad_source = fc_latest_justified s\<rparr>"
    by (rule create_attestations_Ok)
  obtain tb where tb: "hm_get (blocks s) (cp_root t) = Some tb" "b_slot tb = cp_slot t"
    using get_attestation_target_block[OF t] by metis
  obtain jb where jb: "hm_get (blocks s) (cp_root (fc_latest_justified s)) = Some jb"
    "b_slot jb = cp_slot (fc_latest_justified s)"
    using assms(1,2) by (auto simp: store_ok_def at_slot_def word_unat_eq_iff)
  have "unat (fc_time s) < 2 ^ LENGTH(64)" by (rule unsigned_less)
  then have "unat (fc_time s div 4) < 2 ^ 62" by (simp add: unat_div)
  then have "fc_time s div 4 \<le> fc_time s div 4 + 1"
    by (simp add: word_le_nat_alt unat_word_ariths)
  with tb jb b le have "validate_attestation_data s (sa_message a) = Ok ()"
    by (simp add: validate_attestation_data_def d block_slot_def map_res_def Let_def intervals_per_slot_def)
  with i show ?thesis by (simp add: on_attestation_def Let_def is_assigned_def)
qed

theorem own_attestations_accepted_witness:
  "\<exists>a. create_attestations lenient_lib sample_root sample_service sample_store 0 = Ok [a, a\<lparr>sa_validator_id := 2\<rparr>] \<and>
    snd (on_attestation sample_root sample_store a False) = Ok () \<and>
    is_assigned (vs_config sample_service) (sa_validator_id a)"
proof -
  have target: "get_attestation_target sample_store = Ok \<lparr>cp_root = sample_root_0, cp_slot = 0\<rparr>"
    by (simp add: get_attestation_target_def sample_store_eq block_slot_def map_res_def hm_get_def walk_fuel_def
        sample_block_0_def genesis_block_def justification_lookback_slots_def numeral_3_eq_3
        is_justifiable_after_def)
  have time: "fc_time sample_store div intervals_per_slot = 0" by (simp add: sample_store_eq)
  have root: "cp_root (fc_latest_justified sample_store) \<noteq> 0"
    by (simp add: sample_store_eq sample_root_0_def)
  let ?at0 = "\<lparr>cp_root = sample_root_0, cp_slot = 0\<rparr>"
  let ?a = "\<lparr>sa_validator_id = 1, sa_message = \<lparr>ad_slot = 0, ad_head = ?at0, ad_target = ?at0, ad_source = ?at0\<rparr>,
    sa_signature = signature_default\<rparr>"
  have "create_attestations lenient_lib sample_root sample_service sample_store 0 = Ok [?a, ?a\<lparr>sa_validator_id := 2\<rparr>]"
    unfolding create_attestations_def target
    by (simp add: create_attestation_def sample_service_def validator_service_new_def sample_block_0_def
        genesis_block_def sample_config_def sample_store_eq hm_get_def map_res_def map_filter_def Let_def)
  then obtain a where a: "create_attestations lenient_lib sample_root sample_service sample_store 0 =
    Ok [a, a\<lparr>sa_validator_id := 2\<rparr>]" by blast
  then have "a \<in> set [a, a\<lparr>sa_validator_id := 2\<rparr>]" by simp
  from own_attestations_accepted[OF sample_store_ok root, unfolded time, OF a this] a show ?thesis by blast
qed

text \<open>
  The keys of a node.  If \<^verbatim>\<open>new_with_keys\<close> succeeds, the node has a key for exactly the validators it is
  assigned, and the key of each is read from the validator's own file.
\<close>

theorem keys_loaded:
  assumes "new_with_keys F X conf n dir = Ok vs"
  shows "\<exists>km. key_manager_of vs = Some km \<and> (\<forall>i. has_key km i \<longleftrightarrow> is_assigned conf i) \<and>
    (\<forall>i. is_assigned conf i \<longrightarrow> (\<exists>bs. read_key_file F dir (key_file_name i) = Some bs \<and> sk_decodes X bs \<and>
      hm_get (km_keys km) i = Some (SecretKey bs))) \<and>
    (\<forall>i j. key_file_name i = key_file_name j \<longrightarrow> i = j)"
proof -
  from assms obtain km where km: "for_each (load_key F X) (validator_indices conf) \<lparr>km_keys = [], keys_dir = dir\<rparr> = Ok km"
    and vs: "key_manager_of vs = Some km"
    by (auto simp: new_with_keys_def key_manager_new_def split: if_splits)
  from load_keys[OF km] have keys: "\<forall>i \<in> set (validator_indices conf).
      \<exists>bs. read_key_file F dir (key_file_name i) = Some bs \<and> sk_decodes X bs \<and> hm_get (km_keys km) i = Some (SecretKey bs)"
    and none: "\<forall>i. i \<notin> set (validator_indices conf) \<longrightarrow> hm_get (km_keys km) i = None"
    by (simp_all add: hm_get_def)
  have "has_key km i \<longleftrightarrow> is_assigned conf i" for i
    using keys none by (auto simp: has_key_def is_assigned_def hm_contains_key_def)
  with keys vs show ?thesis by (auto simp: is_assigned_def key_file_name_inj)
qed

theorem keys_loaded_witness:
  "\<exists>vs km. new_with_keys sample_files lenient_lib sample_config 4 ''keys'' = Ok vs \<and>
    key_manager_of vs = Some km \<and> has_key km 1 \<and> \<not> has_key km 3"
proof -
  obtain vs where vs: "new_with_keys sample_files lenient_lib sample_config 4 ''keys'' = Ok vs"
    by (simp add: new_with_keys_def key_manager_new_def load_key_def secret_key_try_from_def sample_files_def
        sample_config_def lenient_lib_def sample_lib_def)
  from keys_loaded[OF vs] show ?thesis using vs by (auto simp: is_assigned_def sample_config_def)
qed

text \<open>
  C38: a proposal that cannot be signed is not withdrawn.  Without a key manager, which \<^verbatim>\<open>main\<close> announces as
  "using zero signatures", \<^verbatim>\<open>build_block_proposal\<close> fails after \<^verbatim>\<open>produce_block_with_signatures\<close> has already put
  the block and its state into the store: the block stays there and is never published.
\<close>

theorem unsigned_proposal_stays:
  assumes "produce_block_with_signatures first_of X H s slot i = (s', Ok (r, b, sigs))"
    and "key_manager_of vs = None"
  shows "fst (build_block_proposal first_of X H vs s slot i) = s' \<and> hm_get (blocks s') r = Some b \<and>
    (\<forall>sb. snd (build_block_proposal first_of X H vs s slot i) \<noteq> Ok sb)"
proof -
  have "hm_get (blocks s') r = Some b"
    using assms(1) by (auto simp: produce_block_with_signatures_def Let_def split: if_splits)
  then show ?thesis using assms by (auto simp: build_block_proposal_def sign_block_def)
qed

theorem unsigned_proposal_stays_witness:
  "\<exists>r b. hm_get (blocks (fst (build_block_proposal Min lenient_lib sample_root sample_service sample_store 1 1))) r = Some b \<and>
    b_slot b = 1 \<and>
    (\<forall>sb. snd (build_block_proposal Min lenient_lib sample_root sample_service sample_store 1 1) \<noteq> Ok sb)"
proof -
  obtain s' b sigs where run: "produce_block_with_signatures Min lenient_lib sample_root sample_store 1 1 =
    (s', Ok (root_block sample_root b, b, sigs))" and "b_slot b = 1"
    by (rule sample_produce)
  moreover have "key_manager_of sample_service = None" by (simp add: sample_service_def validator_service_new_def)
  ultimately show ?thesis using unsigned_proposal_stays[OF run] by blast
qed

text \<open>
  C39: the proposer of a slot signs twice with the same key and epoch, while an epoch of the hash-based scheme must
  be used only once.  \<^verbatim>\<open>build_block_proposal\<close> signs the proposer's attestation for the slot, and \<^verbatim>\<open>create_attestations\<close>
  for that slot, on whatever store the handlers have made of it since, does not leave the proposer out and signs
  again.  Both messages are what \<^verbatim>\<open>produce_attestation_data\<close> gives on the two stores; they are the same exactly if head,
  target and justified checkpoint are, so a block that changes the head in between makes the key sign two different
  messages.
\<close>

theorem proposer_signs_twice:
  assumes "root_determines_slot H" and "store_ok H s"
    and "get_proposer_for_slot vs slot = Some i" and "key_manager_of vs = Some km"
    and "\<forall>m. \<exists>sig. key_manager_sign X km i (slot_epoch slot) m = Ok sig"
    and "build_block_proposal first_of X H vs s slot i = (s1, Ok sb)" and "store_run H s1 s2"
    and "create_attestations X H vs s2 slot = Ok as" and "get_attestation_target s2 = Ok t"
    and "cp_slot (fc_latest_justified s2) \<le> cp_slot t"
  shows "\<exists>a \<in> set as. sa_validator_id a = i \<and>
    produce_attestation_data s1 slot = Ok (att_data (bwa_proposer_attestation (sb_message sb))) \<and>
    produce_attestation_data s2 slot = Ok (sa_message a) \<and>
    key_manager_sign X km i (slot_epoch slot) (root_data H (att_data (bwa_proposer_attestation (sb_message sb)))) =
      Ok (proposer_signature (sb_signature sb)) \<and>
    key_manager_sign X km i (slot_epoch slot) (root_data H (sa_message a)) = Ok (sa_signature a) \<and>
    (sa_message a = att_data (bwa_proposer_attestation (sb_message sb)) \<longleftrightarrow>
      fc_head s2 = fc_head s1 \<and> get_attestation_target s2 = get_attestation_target s1 \<and>
      fc_latest_justified s2 = fc_latest_justified s1)"
proof -
  obtain pd where pd: "produce_attestation_data s1 slot = Ok pd"
    "att_data (bwa_proposer_attestation (sb_message sb)) = pd"
    "key_manager_sign X km i (slot_epoch slot) (root_data H pd) = Ok (proposer_signature (sb_signature sb))"
    and ok1: "store_ok H s1"
    using proposal_signed[OF assms(1,2,6,4)] by blast
  have ok2: "store_ok H s2" using store_run_evolves[OF assms(1,7)] ok1 by (simp add: evolves_def)
  obtain d where d: "produce_attestation_data s2 slot = Ok d"
    using ok2 assms(9) by (auto simp: store_ok_def produce_attestation_data_def hm_contains_key_def map_res_def)
  obtain sig where sig: "key_manager_sign X km i (slot_epoch slot) (root_data H d) = Ok sig" using assms(5) by blast
  have "i \<in> set (validator_indices (vs_config vs))"
    using assms(3) by (auto simp: get_proposer_for_slot_def is_assigned_def Let_def split: if_splits)
  from create_attestations_signs[OF assms(8,9,10) d this assms(4) sig]
  have a: "\<lparr>sa_validator_id = i, sa_message = d, sa_signature = sig\<rparr> \<in> set as" .
  have "d = pd \<longleftrightarrow> fc_head s2 = fc_head s1 \<and> get_attestation_target s2 = get_attestation_target s1 \<and>
      fc_latest_justified s2 = fc_latest_justified s1"
    by (rule attestation_data_eq_iff[OF assms(1) ok2 ok1 d pd(1)])
  with a d pd sig show ?thesis by (intro bexI[OF _ a]) simp
qed

theorem proposer_signs_twice_witness:
  "\<exists>s1 sb s2 as. build_block_proposal Min lenient_lib sample_root sample_keyed sample_store 2 2 = (s1, Ok sb) \<and>
    s2 = fst (on_block sample_root s1 (sealed sample_block_1)) \<and>
    create_attestations lenient_lib sample_root sample_keyed s2 2 = Ok as \<and>
    (\<exists>a \<in> set as. sa_validator_id a = 2 \<and>
      sa_message a \<noteq> att_data (bwa_proposer_attestation (sb_message sb)))"
proof -
  let ?at0 = "checkpoint_at sample_root_0 0"
  obtain s1 s2 b where run: "produce_block_with_signatures Min lenient_lib sample_root sample_store 2 2 =
      (s1, Ok (root_block sample_root b, b, []))" and b: "b_slot b = 2"
    and s2: "s2 = fst (on_block sample_root s1 (sealed sample_block_1))"
    and head: "fc_head s1 = sample_root_0" "fc_head s2 \<noteq> sample_root_0"
    and t: "get_attestation_target s1 = Ok ?at0" "get_attestation_target s2 = Ok ?at0"
    and just: "fc_latest_justified s2 = ?at0" and known: "hm_get (blocks s1) sample_root_0 = Some sample_block_0"
      "hm_contains_key (blocks s2) (fc_head s2)"
    by (rule late_block)
  obtain km where km: "key_manager_of sample_keyed = Some km" "vs_config sample_keyed = sample_config"
    and sign: "\<forall>m. key_manager_sign lenient_lib km 1 (slot_epoch 2) m = Ok (Signature (replicate 3112 0))"
      "\<forall>m. key_manager_sign lenient_lib km 2 (slot_epoch 2) m = Ok (Signature (replicate 3112 0))"
    by (rule sample_keyed_signs)
  obtain sb where sb: "build_block_proposal Min lenient_lib sample_root sample_keyed sample_store 2 2 = (s1, Ok sb)"
    by (simp add: build_block_proposal_def run sign_block_def produce_attestation_data_def known head t(1) b
        map_res_def km(1) sign Let_def)
  obtain hb where hb: "hm_get (blocks s2) (fc_head s2) = Some hb" using known(2) by (auto simp: hm_contains_key_def)
  obtain atts where atts: "create_attestations lenient_lib sample_root sample_keyed s2 2 = Ok atts"
    by (simp add: create_attestations_def t(2) just hb km sample_config_def create_attestation_def sign
        map_res_def Let_def)
  have proposer: "get_proposer_for_slot sample_keyed 2 = Some 2"
    by (simp add: get_proposer_for_slot_def sample_keyed_def is_assigned_def sample_config_def)
  have signs: "\<forall>m. \<exists>sig. key_manager_sign lenient_lib km 2 (slot_epoch 2) m = Ok sig" using sign(2) by blast
  have reach: "store_run sample_root s1 s2" unfolding s2 by (intro store_run.block store_run.start)
  from proposer_signs_twice[OF sample_root_slot sample_store_ok proposer km(1) signs sb reach atts t(2)] just head
  have "\<exists>a \<in> set atts. sa_validator_id a = 2 \<and> sa_message a \<noteq> att_data (bwa_proposer_attestation (sb_message sb))"
    by auto
  with sb atts s2 show ?thesis by blast
qed

end
