(* ===== verification/Gossip.thy ===== *)
theory Gossip
  imports Xmss
begin

text \<open>
  \<^verbatim>\<open>networking/src/types.rs\<close> and \<^verbatim>\<open>networking/src/gossipsub\<close>: the messages between network and
  chain, peer states, gossip topics and messages, and message ids.  The SSZ encoders, which derive
  macros generate, the snappy compressor and SHA-256 are arguments.  A Rust string is its bytes.
\<close>

section \<open>Connections\<close>

datatype connection_state = Disconnected | Connecting | Connected | Disconnecting

datatype direction = Inbound | Outbound | Unknown

datatype goodbye_reason = ClientShutdown | IrrelevantNetwork | FaultOrError

definition goodbye_from_code :: "u64 \<Rightarrow> goodbye_reason option" where
  "goodbye_from_code code =
     (if code = 1 then Some ClientShutdown
      else if code = 2 then Some IrrelevantNetwork
      else if code = 3 then Some FaultOrError
      else None)"

fun goodbye_code :: "goodbye_reason \<Rightarrow> u64" where
  "goodbye_code ClientShutdown = 1"
| "goodbye_code IrrelevantNetwork = 2"
| "goodbye_code FaultOrError = 3"

record peer_count =
  disconnected :: u64
  connecting :: u64
  connected :: u64
  disconnecting :: u64

definition peer_count_new :: "('p, connection_state) hmap \<Rightarrow> peer_count" where
  "peer_count_new states =
     fold (\<lambda>st c. case st of
         Connected \<Rightarrow> c\<lparr>connected := connected c + 1\<rparr>
       | Connecting \<Rightarrow> c\<lparr>connecting := connecting c + 1\<rparr>
       | Disconnected \<Rightarrow> c\<lparr>disconnected := disconnected c + 1\<rparr>
       | Disconnecting \<Rightarrow> c\<lparr>disconnecting := disconnecting c + 1\<rparr>)
       (hm_values states) \<lparr>disconnected = 0, connecting = 0, connected = 0, disconnecting = 0\<rparr>"

section \<open>Messages between network and chain\<close>

text \<open>The flags are \<^verbatim>\<open>is_trusted\<close> and \<^verbatim>\<open>should_gossip\<close>.\<close>

datatype chain_message =
    ProcessBlock signed_block_with_attestation bool bool
  | ProcessAttestation signed_attestation bool bool

definition chain_message_block :: "signed_block_with_attestation \<Rightarrow> chain_message" where
  "chain_message_block sb = ProcessBlock sb False True"

definition chain_message_attestation :: "signed_attestation \<Rightarrow> chain_message" where
  "chain_message_attestation a = ProcessAttestation a False True"

fun chain_message_to_string :: "chain_message \<Rightarrow> string" where
  "chain_message_to_string (ProcessBlock sb trusted gossip) =
     ''ProcessBlockWithAttestation(slot='' @ decimal (unat (b_slot (bwa_block (sb_message sb)))) @ '')''"
| "chain_message_to_string (ProcessAttestation a trusted gossip) =
     ''ProcessAttestation(slot='' @ decimal (unat (ad_slot (sa_message a))) @ '')''"

text \<open>\<^verbatim>\<open>serde_utils::quoted_u64\<close>: a number as a quoted string.\<close>

definition quoted_u64_serialize :: "u64 \<Rightarrow> string" where
  "quoted_u64_serialize v = decimal (unat v)"

definition quoted_u64_deserialize :: "string \<Rightarrow> u64 res" where
  "quoted_u64_deserialize s = ok_or (parse_u64 s) DecodeFailed"

lemma quoted_u64_roundtrip: "quoted_u64_deserialize (quoted_u64_serialize v) = Ok v"
  by (simp add: quoted_u64_deserialize_def quoted_u64_serialize_def parse_decimal)

datatype outbound_p2p_request =
    GossipBlockWithAttestation signed_block_with_attestation
  | GossipAttestation signed_attestation
  | RequestBlocksByRoot "h256 list"

section \<open>Topics\<close>

definition topic_prefix :: string where
  "topic_prefix = ''leanconsensus''"

definition ssz_snappy_encoding_postfix :: string where
  "ssz_snappy_encoding_postfix = ''ssz_snappy''"

definition block_topic :: string where
  "block_topic = ''block''"

definition attestation_topic :: string where
  "attestation_topic = ''attestation''"

datatype gossipsub_kind = BlockKind | AttestationKind

record gossipsub_topic =
  fork :: string
  kind :: gossipsub_kind

definition get_topics :: "string \<Rightarrow> gossipsub_topic list" where
  "get_topics f = [\<lparr>fork = f, kind = BlockKind\<rparr>, \<lparr>fork = f, kind = AttestationKind\<rparr>]"

fun kind_to_string :: "gossipsub_kind \<Rightarrow> string" where
  "kind_to_string BlockKind = block_topic"
| "kind_to_string AttestationKind = attestation_topic"

definition topic_to_string :: "gossipsub_topic \<Rightarrow> string" where
  "topic_to_string t =
     ''/'' @ topic_prefix @ ''/'' @ fork t @ ''/'' @ kind_to_string (kind t) @ ''/'' @ ssz_snappy_encoding_postfix"

text \<open>\<^verbatim>\<open>trim_start_matches\<close> and \<^verbatim>\<open>split\<close>: the parts between separators, empty parts included.\<close>

fun split_on :: "char \<Rightarrow> string \<Rightarrow> string list" where
  "split_on c [] = [[]]"
| "split_on c (x # xs) =
     (if x = c then [] # split_on c xs
      else (x # hd (split_on c xs)) # tl (split_on c xs))"

definition split_topic :: "string \<Rightarrow> string list res" where
  "split_topic topic =
     (let parts = split_on (CHR ''/'') (dropWhile (\<lambda>c. c = CHR ''/'') topic) in
      if length parts \<noteq> 4 then Err InvalidTopicPartCount else Ok parts)"

definition validate_parts :: "string list \<Rightarrow> unit res" where
  "validate_parts parts =
     (if parts ! 0 \<noteq> topic_prefix \<or> parts ! 3 \<noteq> ssz_snappy_encoding_postfix then Err InvalidTopicParts else Ok ())"

definition extract_fork :: "string list \<Rightarrow> string" where
  "extract_fork parts = parts ! 1"

definition extract_kind :: "string list \<Rightarrow> gossipsub_kind res" where
  "extract_kind parts =
     (if parts ! 2 = block_topic then Ok BlockKind
      else if parts ! 2 = attestation_topic then Ok AttestationKind
      else Err InvalidTopicKind)"

definition topic_decode :: "string \<Rightarrow> gossipsub_topic res" where
  "topic_decode topic =
     and_then (split_topic topic) (\<lambda>topic_parts.
     and_then (validate_parts topic_parts) (\<lambda>_.
     let f = extract_fork topic_parts in
     and_then (extract_kind topic_parts) (\<lambda>k.
     Ok \<lparr>fork = f, kind = k\<rparr>)))"

section \<open>Gossip messages\<close>

record ssz_codec =
  block_to_ssz :: "signed_block_with_attestation \<Rightarrow> bytes option"
  block_from_ssz :: "bytes \<Rightarrow> signed_block_with_attestation option"
  attestation_to_ssz :: "signed_attestation \<Rightarrow> bytes option"
  attestation_from_ssz :: "bytes \<Rightarrow> signed_attestation option"
  status_to_ssz :: "status \<Rightarrow> bytes option"
  status_from_ssz :: "bytes \<Rightarrow> status option"

datatype gossipsub_message =
    BlockMessage signed_block_with_attestation
  | AttestationMessage signed_attestation

definition message_decode :: "ssz_codec \<Rightarrow> string \<Rightarrow> bytes \<Rightarrow> gossipsub_message res" where
  "message_decode C topic data =
     and_then (topic_decode topic) (\<lambda>t.
     case kind t of
       BlockKind \<Rightarrow> map_res BlockMessage (ok_or (block_from_ssz C data) SszDecodeFailed)
     | AttestationKind \<Rightarrow> map_res AttestationMessage (ok_or (attestation_from_ssz C data) SszDecodeFailed))"

record raw_message =
  msg_topic :: string
  msg_data :: bytes

text \<open>\<^verbatim>\<open>Compressor\<close>, with the raw snappy coder as an argument.\<close>

definition inbound_transform :: "(bytes \<Rightarrow> bytes option) \<Rightarrow> raw_message \<Rightarrow> raw_message res" where
  "inbound_transform decompress m =
     and_then (ok_or (decompress (msg_data m)) SnappyFailed) (\<lambda>data.
     Ok \<lparr>msg_topic = msg_topic m, msg_data = data\<rparr>)"

definition outbound_transform :: "(bytes \<Rightarrow> bytes option) \<Rightarrow> string \<Rightarrow> bytes \<Rightarrow> bytes res" where
  "outbound_transform compress topic data = ok_or (compress data) SnappyFailed"

definition message_domain_valid_snappy :: bytes where
  "message_domain_valid_snappy = [1]"

definition string_bytes :: "string \<Rightarrow> bytes" where
  "string_bytes s = map of_char s"

definition u64_le_bytes :: "u64 \<Rightarrow> bytes" where
  "u64_le_bytes v = map (\<lambda>i. ucast (drop_bit (8 * i) v)) [0..<8]"

definition digest_input :: "raw_message \<Rightarrow> bytes" where
  "digest_input m =
     (let topic_bytes = string_bytes (msg_topic m); topic_len = (word_of_nat (length topic_bytes) :: u64) in
      message_domain_valid_snappy @ u64_le_bytes topic_len @ topic_bytes @ msg_data m)"

definition compute_message_id :: "(bytes \<Rightarrow> bytes) \<Rightarrow> raw_message \<Rightarrow> bytes" where
  "compute_message_id sha256 m = take 20 (sha256 (digest_input m))"

record gossipsub_config =
  max_transmit_size :: nat
  heartbeat_millis :: nat
  fanout_ttl_secs :: nat
  history_length :: nat
  history_gossip :: nat
  duplicate_cache_secs :: u64
  mesh_n :: nat
  mesh_n_low :: nat
  mesh_n_high :: nat
  gossip_lazy :: nat
  topics :: "gossipsub_topic list"

definition gossipsub_config_new :: gossipsub_config where
  "gossipsub_config_new =
     (let lookback_slots = 3; secs_per_slot = 4; seen_ttl_secs = secs_per_slot * lookback_slots * 2 in
      \<lparr>max_transmit_size = 16 * 1024 * 1024, heartbeat_millis = 700, fanout_ttl_secs = 60, history_length = 6,
       history_gossip = 3, duplicate_cache_secs = seen_ttl_secs, mesh_n = 8, mesh_n_low = 6, mesh_n_high = 12,
       gossip_lazy = 6, topics = []\<rparr>)"

definition set_topics :: "gossipsub_topic list \<Rightarrow> gossipsub_config \<Rightarrow> gossipsub_config" where
  "set_topics ts c = c\<lparr>topics := ts\<rparr>"

section \<open>Splitting\<close>

lemma split_on_nonempty: "split_on c xs \<noteq> []"
  by (cases xs) auto

lemma split_on_part: "c \<notin> set xs \<Longrightarrow> split_on c (xs @ c # ys) = xs # split_on c ys"
  by (induction xs) auto

lemma split_on_last: "c \<notin> set xs \<Longrightarrow> split_on c xs = [xs]"
  by (induction xs) auto

text \<open>Joining the parts again.\<close>

fun join_on :: "char \<Rightarrow> string list \<Rightarrow> string" where
  "join_on c [] = []"
| "join_on c [x] = x"
| "join_on c (x # y # ys) = x @ c # join_on c (y # ys)"

lemma join_split: "join_on c (split_on c xs) = xs"
proof (induction xs)
  case (Cons x xs)
  obtain p ps where "split_on c xs = p # ps" using split_on_nonempty by (metis list.exhaust)
  with Cons show ?case by (cases ps) auto
qed simp

lemma split_on_free: "p \<in> set (split_on c xs) \<Longrightarrow> c \<notin> set p"
proof (induction xs arbitrary: p)
  case (Cons x xs)
  obtain q qs where "split_on c xs = q # qs" using split_on_nonempty by (metis list.exhaust)
  with Cons show ?case by (auto split: if_splits)
qed simp

lemma drop_separators: "\<exists>n. xs = replicate n c @ dropWhile (\<lambda>x. x = c) xs"
proof (induction xs)
  case (Cons x xs)
  then obtain n where "xs = replicate n c @ dropWhile (\<lambda>x. x = c) xs" by blast
  then show ?case by (cases "x = c") (auto intro: exI[of _ "Suc n"] exI[of _ 0])
qed simp

lemma dropWhile_replicate: "dropWhile (\<lambda>x. x = c) (replicate n c @ xs) = dropWhile (\<lambda>x. x = c) xs"
  by (induction n) auto

lemma kind_free: "CHR ''/'' \<notin> set (kind_to_string k)"
  by (cases k) (simp_all add: block_topic_def attestation_topic_def)

lemma extract_kind_iff: "extract_kind ps = Ok k \<longleftrightarrow> ps ! 2 = kind_to_string k"
  by (cases k) (auto simp: extract_kind_def block_topic_def attestation_topic_def)

lemma topic_parts:
  assumes "CHR ''/'' \<notin> set (fork t)"
  shows "split_on (CHR ''/'') (tl (topic_to_string t)) =
    [topic_prefix, fork t, kind_to_string (kind t), ssz_snappy_encoding_postfix]"
proof -
  have "CHR ''/'' \<notin> set topic_prefix" "CHR ''/'' \<notin> set ssz_snappy_encoding_postfix"
    by (simp_all add: topic_prefix_def ssz_snappy_encoding_postfix_def)
  with assms kind_free[of "kind t"] show ?thesis
    by (simp add: topic_to_string_def split_on_part split_on_last)
qed

lemma topic_start: "dropWhile (\<lambda>c. c = CHR ''/'') (tl (topic_to_string t)) = tl (topic_to_string t)"
  by (simp add: topic_to_string_def topic_prefix_def)

section \<open>Message ids\<close>

lemma u64_le_bytes_inj: "u64_le_bytes v = u64_le_bytes w \<longleftrightarrow> v = w"
proof
  assume eq: "u64_le_bytes v = u64_le_bytes w"
  show "v = w"
  proof (rule bit_word_eqI)
    fix n assume n: "n < LENGTH(64)"
    have byte: "(ucast (drop_bit (8 * i) v) :: u8) = ucast (drop_bit (8 * i) w)" if "i < 8" for i
      using arg_cong[OF eq, of "\<lambda>bs. bs ! i"] that by (simp add: u64_le_bytes_def)
    have "n div 8 < 8" using n by simp
    from arg_cong[OF byte[OF this], of "\<lambda>x. bit x (n mod 8)"] n show "bit v n = bit w n"
      by (simp add: bit_simps)
  qed
qed simp

lemma string_bytes_inj: "string_bytes s = string_bytes t \<longleftrightarrow> s = t"
proof -
  have "inj (of_char :: char \<Rightarrow> u8)"
  proof (rule injI)
    fix a b :: char assume "(of_char a :: u8) = of_char b"
    then have "unat (of_char a :: u8) = unat (of_char b :: u8)" by simp
    moreover have "unat (of_char c :: u8) = of_char c" for c :: char
    proof -
      have "(of_char c :: u8) = word_of_nat (of_char c)" by (simp only: of_nat_of_char)
      moreover have "of_char c < (256 :: nat)" by simp
      ultimately show ?thesis by (simp add: unat_of_nat)
    qed
    ultimately show "a = b" by simp
  qed
  then show ?thesis by (simp add: string_bytes_def inj_map_eq_map)
qed

section \<open>Properties\<close>

text \<open>
  C31: the topics a node understands.  A string decodes to a topic exactly if it is the text of that
  topic, up to the number of leading slashes; so printing a topic whose fork has no slash and
  decoding it gives it back, and no other text names it.
\<close>

theorem topic_decode_iff:
  "topic_decode topic = Ok t \<longleftrightarrow>
    CHR ''/'' \<notin> set (fork t) \<and> (\<exists>n. topic = replicate n (CHR ''/'') @ tl (topic_to_string t))"
proof
  assume ok: "topic_decode topic = Ok t"
  let ?rest = "dropWhile (\<lambda>c. c = CHR ''/'') topic"
  let ?ps = "split_on (CHR ''/'') ?rest"
  from ok have len: "length ?ps = 4" and p0: "?ps ! 0 = topic_prefix" and p3: "?ps ! 3 = ssz_snappy_encoding_postfix"
    and f: "fork t = ?ps ! 1" and k: "?ps ! 2 = kind_to_string (kind t)"
    by (auto simp: topic_decode_def split_topic_def validate_parts_def extract_fork_def extract_kind_iff Let_def
        split: if_splits)
  have "?ps = [topic_prefix, fork t, kind_to_string (kind t), ssz_snappy_encoding_postfix]"
    using len p0 p3 f k by (intro nth_equalityI) (auto simp: less_Suc_eq numeral_eq_Suc)
  then have "?rest = tl (topic_to_string t)"
    using join_split[of "CHR ''/''" ?rest] by (simp add: topic_to_string_def)
  moreover have "fork t \<in> set ?ps" using f len by (simp add: nth_mem)
  then have "CHR ''/'' \<notin> set (fork t)" by (rule split_on_free)
  ultimately show "CHR ''/'' \<notin> set (fork t) \<and> (\<exists>n. topic = replicate n (CHR ''/'') @ tl (topic_to_string t))"
    using drop_separators[of topic "CHR ''/''"] by simp
next
  assume "CHR ''/'' \<notin> set (fork t) \<and> (\<exists>n. topic = replicate n (CHR ''/'') @ tl (topic_to_string t))"
  then obtain n where f: "CHR ''/'' \<notin> set (fork t)" and t: "topic = replicate n (CHR ''/'') @ tl (topic_to_string t)"
    by blast
  have "split_topic topic = Ok [topic_prefix, fork t, kind_to_string (kind t), ssz_snappy_encoding_postfix]"
    by (simp add: split_topic_def t dropWhile_replicate topic_start topic_parts[OF f])
  moreover have "extract_kind [topic_prefix, fork t, kind_to_string (kind t), ssz_snappy_encoding_postfix] = Ok (kind t)"
    by (simp add: extract_kind_iff)
  ultimately show "topic_decode topic = Ok t"
    by (simp add: topic_decode_def validate_parts_def extract_fork_def)
qed

text \<open>
  The bytes that are hashed into a message id determine topic and data, so ids of different messages
  differ unless SHA-256 or its truncation collides.
\<close>

theorem message_id_input_injective:
  assumes "length (msg_topic m) < 2 ^ 64" and "length (msg_topic m') < 2 ^ 64"
  shows "digest_input m = digest_input m' \<longleftrightarrow> msg_topic m = msg_topic m' \<and> msg_data m = msg_data m'"
proof
  assume "digest_input m = digest_input m'"
  let ?l = "\<lambda>m. u64_le_bytes (word_of_nat (length (string_bytes (msg_topic m))))"
  have len8: "length (u64_le_bytes v) = 8" for v by (simp add: u64_le_bytes_def)
  from \<open>digest_input m = digest_input m'\<close> have eq: "?l m @ string_bytes (msg_topic m) @ msg_data m = ?l m' @ string_bytes (msg_topic m') @ msg_data m'"
    by (simp add: digest_input_def Let_def)
  then have "?l m = ?l m'" by (simp add: append_eq_append_conv len8)
  then have "(word_of_nat (length (msg_topic m)) :: u64) = word_of_nat (length (msg_topic m'))"
    by (simp add: u64_le_bytes_inj string_bytes_def)
  then have "length (msg_topic m) = length (msg_topic m')"
    using assms by (simp add: word_unat_eq_iff unat_of_nat)
  with eq \<open>?l m = ?l m'\<close> have "string_bytes (msg_topic m) = string_bytes (msg_topic m') \<and> msg_data m = msg_data m'"
    by (simp add: string_bytes_def)
  then show "msg_topic m = msg_topic m' \<and> msg_data m = msg_data m'" by (simp add: string_bytes_inj)
qed (simp add: digest_input_def)

theorem message_id_input_injective_witness:
  "digest_input \<lparr>msg_topic = ''ab'', msg_data = [3]\<rparr> \<noteq> digest_input \<lparr>msg_topic = ''a'', msg_data = [98, 3]\<rparr>"
  using message_id_input_injective[of "\<lparr>msg_topic = ''ab'', msg_data = [3]\<rparr>" "\<lparr>msg_topic = ''a'', msg_data = [98, 3]\<rparr>"]
  by auto

end
