(* ===== verification/Node.thy ===== *)
theory Node
  imports Validator Gossip
begin

text \<open>
  \<^verbatim>\<open>src/main.rs\<close>: start-up from the genesis configuration, and the chain task, a loop over clock ticks
  and messages from the network.  One iteration is \<open>node_step\<close>; its outputs are the requests it
  sends to the network and the status lines it prints.  A panic ends the task.
\<close>

section \<open>Start-up\<close>

record genesis_config =
  gc_genesis_time :: u64
  gc_active_epoch :: u64
  gc_validator_count :: u64
  gc_genesis_validators :: "string list"

text \<open>\<^verbatim>\<open>read_genesis\<close> stands for opening and parsing the file.\<close>

definition parse_genesis_validators :: "xmss_lib \<Rightarrow> string list \<Rightarrow> validator list res" where
  "parse_genesis_validators X strs =
     map_collect (\<lambda>(i, v_str).
         map_res (\<lambda>key. \<lparr>pubkey = key, v_index = word_of_nat i\<rparr>)
           (expect (public_key_from_str X v_str) InvalidGenesisPubkey))
       (List.enumerate 0 strs)"

definition load_genesis ::
  "(string \<Rightarrow> genesis_config option) \<Rightarrow> xmss_lib \<Rightarrow> string option \<Rightarrow> (u64 \<times> validator list) res" where
  "load_genesis read_genesis X path =
     (case path of
        Some genesis_path \<Rightarrow>
          and_then (or_panic (read_genesis genesis_path) GenesisConfigUnreadable) (\<lambda>c.
          map_res (\<lambda>vs. (gc_genesis_time c, vs)) (parse_genesis_validators X (gc_genesis_validators c)))
      | None \<Rightarrow>
          Ok (1763757427, map (\<lambda>i. \<lparr>pubkey = public_key_default, v_index = word_of_nat i\<rparr>) [0..<3]))"

definition start_validator_service ::
  "files \<Rightarrow> xmss_lib \<Rightarrow> string option \<Rightarrow> string option \<Rightarrow> string option \<Rightarrow> u64 \<Rightarrow> validator_service option" where
  "start_validator_service F X node registry_path hash_sig_key_dir n =
     (case (node, registry_path) of
        (Some node, Some path) \<Rightarrow>
          (case load_from_file F path node of
             Ok conf \<Rightarrow>
               (case hash_sig_key_dir of
                  Some dir \<Rightarrow>
                    if dir_exists F dir then
                      (case new_with_keys F X conf n dir of
                         Ok service \<Rightarrow> Some service
                       | _ \<Rightarrow> Some (validator_service_new conf n))
                    else Some (validator_service_new conf n)
                | None \<Rightarrow> Some (validator_service_new conf n))
           | _ \<Rightarrow> None)
      | _ \<Rightarrow> None)"

section \<open>The chain task\<close>

record chain_status =
  cs_current_slot :: u64
  cs_head_slot :: slot
  cs_behind :: u64
  cs_peers :: u64
  cs_head_root :: h256
  cs_parent_root :: h256
  cs_state_root :: h256
  cs_timely :: bool
  cs_justified :: checkpoint
  cs_finalized :: checkpoint

definition print_chain_status :: "store \<Rightarrow> u64 \<Rightarrow> chain_status" where
  "print_chain_status s connected_peers =
     (let current_slot = fc_time s div intervals_per_slot;
          head_slot = (case hm_get (blocks s) (fc_head s) of Some b \<Rightarrow> b_slot b | None \<Rightarrow> 0);
          behind = (if current_slot > head_slot then current_slot - head_slot else 0);
          (head_root, parent_root, st_root) =
            (case hm_get (blocks s) (fc_head s) of
               Some b \<Rightarrow> (fc_head s, b_parent_root b, b_state_root b)
             | None \<Rightarrow> (0, 0, 0)) in
      \<lparr>cs_current_slot = current_slot, cs_head_slot = head_slot, cs_behind = behind, cs_peers = connected_peers,
       cs_head_root = head_root, cs_parent_root = parent_root, cs_state_root = st_root,
       cs_timely = (behind = 0), cs_justified = fc_latest_justified s, cs_finalized = fc_latest_finalized s\<rparr>)"

record node_state =
  nd_store :: store
  last_logged_slot :: u64
  last_status_slot :: "u64 option"
  last_proposal_slot :: "u64 option"
  last_attestation_slot :: "u64 option"

datatype node_output = Send outbound_p2p_request | Print chain_status

text \<open>A tick carries the wall clock at its start, the clock after a block was built, and the number of peers.\<close>

datatype node_event = Tick u64 u64 u64 | Receive chain_message u64

definition node_new :: "store \<Rightarrow> node_state" where
  "node_new s = \<lparr>nd_store = s, last_logged_slot = 0, last_status_slot = None, last_proposal_slot = None,
     last_attestation_slot = None\<rparr>"

text \<open>Interval 0: propose, at most once per slot.\<close>

definition process_own_block ::
  "ssz_root \<Rightarrow> u64 \<Rightarrow> store \<Rightarrow> signed_block_with_attestation \<Rightarrow> (store \<times> node_output list) res" where
  "process_own_block H now s signed_block =
     and_then (on_tick s now False) (\<lambda>s.
     case on_block H s signed_block of
       (s', Ok _) \<Rightarrow> Ok (s', [Send (GossipBlockWithAttestation signed_block)])
     | (s', Err _) \<Rightarrow> Ok (s', [])
     | (s', Panic p) \<Rightarrow> Panic p
     | (s', Diverge) \<Rightarrow> Diverge)"

definition propose ::
  "(u64 set \<Rightarrow> u64) \<Rightarrow> xmss_lib \<Rightarrow> ssz_root \<Rightarrow> validator_service option \<Rightarrow> slot \<Rightarrow> u64 \<Rightarrow> node_state \<Rightarrow>
   (node_state \<times> node_output list) res" where
  "propose first_of X H service current_slot now nd =
     (case service of
        None \<Rightarrow> Ok (nd, [])
      | Some vs \<Rightarrow>
          if last_proposal_slot nd \<noteq> Some current_slot then
            (case get_proposer_for_slot vs current_slot of
               None \<Rightarrow> Ok (nd, [])
             | Some proposer_idx \<Rightarrow>
                 map_res (\<lambda>(s, out). (nd\<lparr>nd_store := s, last_proposal_slot := Some current_slot\<rparr>, out))
                   (case build_block_proposal first_of X H vs (nd_store nd) current_slot proposer_idx of
                      (s, Ok signed_block) \<Rightarrow> process_own_block H now s signed_block
                    | (s, Err _) \<Rightarrow> Ok (s, [])
                    | (s, Panic p) \<Rightarrow> Panic p
                    | (s, Diverge) \<Rightarrow> Diverge))
          else Ok (nd, []))"

text \<open>Interval 1: attest, at most once per slot.\<close>

fun broadcast_attestations ::
  "ssz_root \<Rightarrow> signed_attestation list \<Rightarrow> store \<Rightarrow> (store \<times> node_output list) res" where
  "broadcast_attestations H [] s = Ok (s, [])"
| "broadcast_attestations H (a # as) s =
     (case on_attestation H s a False of
        (s', Ok _) \<Rightarrow> map_res (\<lambda>(s'', out). (s'', Send (GossipAttestation a) # out)) (broadcast_attestations H as s')
      | (s', Err _) \<Rightarrow> broadcast_attestations H as s'
      | (s', Panic p) \<Rightarrow> Panic p
      | (s', Diverge) \<Rightarrow> Diverge)"

definition attest ::
  "xmss_lib \<Rightarrow> ssz_root \<Rightarrow> validator_service option \<Rightarrow> slot \<Rightarrow> node_state \<Rightarrow> (node_state \<times> node_output list) res" where
  "attest X H service current_slot nd =
     (case service of
        None \<Rightarrow> Ok (nd, [])
      | Some vs \<Rightarrow>
          if last_attestation_slot nd \<noteq> Some current_slot then
            and_then (create_attestations X H vs (nd_store nd) current_slot) (\<lambda>as.
            map_res (\<lambda>(s, out). (nd\<lparr>nd_store := s, last_attestation_slot := Some current_slot\<rparr>, out))
              (broadcast_attestations H as (nd_store nd)))
          else Ok (nd, []))"

definition node_tick ::
  "(u64 set \<Rightarrow> u64) \<Rightarrow> xmss_lib \<Rightarrow> ssz_root \<Rightarrow> validator_service option \<Rightarrow> u64 \<Rightarrow> u64 \<Rightarrow> u64 \<Rightarrow> node_state \<Rightarrow>
   (node_state \<times> node_output list) res" where
  "node_tick first_of X H service now later peers nd =
     and_then (on_tick (nd_store nd) now False) (\<lambda>s.
     let current_slot = fc_time s div intervals_per_slot;
         current_interval = fc_time s mod intervals_per_slot;
         nd1 = nd\<lparr>nd_store := s\<rparr>;
         (nd2, out) = (if last_status_slot nd1 \<noteq> Some current_slot
                       then (nd1\<lparr>last_status_slot := Some current_slot\<rparr>, [Print (print_chain_status s peers)])
                       else (nd1, [])) in
     map_res (\<lambda>(nd3, out').
         (if current_slot \<noteq> last_logged_slot nd3 \<and> current_slot mod 10 = 0
          then nd3\<lparr>last_logged_slot := current_slot\<rparr> else nd3, out @ out'))
       (if current_interval = 0 then propose first_of X H service current_slot later nd2
        else if current_interval = 1 then attest X H service current_slot nd2
        else Ok (nd2, [])))"

definition receive_block ::
  "ssz_root \<Rightarrow> signed_block_with_attestation \<Rightarrow> bool \<Rightarrow> u64 \<Rightarrow> node_state \<Rightarrow> (node_state \<times> node_output list) res" where
  "receive_block H signed_block should_gossip now nd =
     (let parent_root = b_parent_root (bwa_block (sb_message signed_block)) in
      and_then (on_tick (nd_store nd) now False) (\<lambda>s.
      case on_block H s signed_block of
        (s', Ok _) \<Rightarrow> Ok (nd\<lparr>nd_store := s'\<rparr>,
           if should_gossip then [Send (GossipBlockWithAttestation signed_block)] else [])
      | (s', Err e) \<Rightarrow> Ok (nd\<lparr>nd_store := s'\<rparr>,
           if e = BlockQueued \<and> parent_root \<noteq> 0 then [Send (RequestBlocksByRoot [parent_root])] else [])
      | (s', Panic p) \<Rightarrow> Panic p
      | (s', Diverge) \<Rightarrow> Diverge))"

definition receive_attestation ::
  "ssz_root \<Rightarrow> signed_attestation \<Rightarrow> bool \<Rightarrow> node_state \<Rightarrow> (node_state \<times> node_output list) res" where
  "receive_attestation H a should_gossip nd =
     (case on_attestation H (nd_store nd) a False of
        (s', Ok _) \<Rightarrow> Ok (nd\<lparr>nd_store := s'\<rparr>, if should_gossip then [Send (GossipAttestation a)] else [])
      | (s', Err _) \<Rightarrow> Ok (nd\<lparr>nd_store := s'\<rparr>, [])
      | (s', Panic p) \<Rightarrow> Panic p
      | (s', Diverge) \<Rightarrow> Diverge)"

fun node_step ::
  "(u64 set \<Rightarrow> u64) \<Rightarrow> xmss_lib \<Rightarrow> ssz_root \<Rightarrow> validator_service option \<Rightarrow> node_event \<Rightarrow> node_state \<Rightarrow>
   (node_state \<times> node_output list) res" where
  "node_step first_of X H service (Tick now later peers) nd = node_tick first_of X H service now later peers nd"
| "node_step first_of X H service (Receive (ProcessBlock sb trusted gossip) now) nd = receive_block H sb gossip now nd"
| "node_step first_of X H service (Receive (ProcessAttestation a trusted gossip) now) nd =
     receive_attestation H a gossip nd"

section \<open>Runs\<close>

fun trace :: "('e \<Rightarrow> 'n \<Rightarrow> ('n \<times> 'o list) res) \<Rightarrow> 'e list \<Rightarrow> 'n \<Rightarrow> ('n \<times> ('e \<times> 'o list) list) res" where
  "trace step [] nd = Ok (nd, [])"
| "trace step (e # es) nd =
     and_then (step e nd) (\<lambda>(nd', out). map_res (\<lambda>(nd'', tr). (nd'', (e, out) # tr)) (trace step es nd'))"

text \<open>
  A duty that is done at most once per slot: the node remembers the last slot of the duty and a step
  that emits does so for one slot, later than the one remembered.
\<close>

locale once_per_slot =
  fixes step :: "'e \<Rightarrow> 'n \<Rightarrow> ('n \<times> 'o list) res" and ok :: "'n \<Rightarrow> bool"
    and last_duty :: "'n \<Rightarrow> u64 option" and duties :: "'e \<Rightarrow> 'o list \<Rightarrow> u64 list"
  assumes step_ok: "ok nd \<Longrightarrow> step e nd = Ok (nd', out) \<Longrightarrow> ok nd'"
    and step_duty: "ok nd \<Longrightarrow> step e nd = Ok (nd', out) \<Longrightarrow>
      duties e out = [] \<and> last_duty nd' = last_duty nd \<or>
      (\<exists>c. last_duty nd' = Some c \<and> (\<forall>y. last_duty nd = Some y \<longrightarrow> y < c) \<and> set (duties e out) \<subseteq> {c})"
begin

lemma trace_ok: "ok nd \<Longrightarrow> trace step es nd = Ok (nd', tr) \<Longrightarrow> ok nd'"
  by (induction es arbitrary: nd tr) (auto dest: step_ok)

lemma trace_later:
  "ok nd \<Longrightarrow> trace step es nd = Ok (nd', tr) \<Longrightarrow> last_duty nd = Some y \<Longrightarrow> (e, out) \<in> set tr \<Longrightarrow>
    x \<in> set (duties e out) \<Longrightarrow> y < x"
proof (induction es arbitrary: nd tr y)
  case (Cons e1 es)
  from Cons.prems(2) obtain nd1 out1 tr1 where s: "step e1 nd = Ok (nd1, out1)" "trace step es nd1 = Ok (nd', tr1)"
    and tr: "tr = (e1, out1) # tr1" by auto
  note ok1 = step_ok[OF Cons.prems(1) s(1)]
  from step_duty[OF Cons.prems(1) s(1)] consider
      "duties e1 out1 = []" "last_duty nd1 = Some y"
    | c where "last_duty nd1 = Some c" "y < c" "set (duties e1 out1) \<subseteq> {c}"
    using Cons.prems(3) by auto
  then show ?case
  proof cases
    case 1
    with Cons.prems(4,5) tr have "(e, out) \<in> set tr1" by auto
    then show ?thesis using Cons.IH[OF ok1 s(2) 1(2)] Cons.prems(5) by blast
  next
    case 2
    with Cons.prems(4,5) tr Cons.IH[OF ok1 s(2) 2(1)] show ?thesis by (auto intro: less_trans)
  qed
qed simp

lemma trace_all:
  assumes "\<And>nd e nd' out. ok nd \<Longrightarrow> step e nd = Ok (nd', out) \<Longrightarrow> P e out"
  shows "ok nd \<Longrightarrow> trace step es nd = Ok (nd', tr) \<Longrightarrow> \<forall>(e, out) \<in> set tr. P e out"
proof (induction es arbitrary: nd tr)
  case (Cons e1 es)
  from Cons.prems(2) obtain nd1 out1 tr1 where s: "step e1 nd = Ok (nd1, out1)" "trace step es nd1 = Ok (nd', tr1)"
    and tr: "tr = (e1, out1) # tr1" by auto
  from Cons.IH[OF step_ok[OF Cons.prems(1) s(1)] s(2)] assms[OF Cons.prems(1) s(1)] tr show ?case by simp
qed simp

lemma duties_increase:
  "ok nd \<Longrightarrow> trace step es nd = Ok (nd', tr) \<Longrightarrow>
    sorted_wrt (\<lambda>xs ys. \<forall>x \<in> set xs. \<forall>y \<in> set ys. x < y) (map (\<lambda>(e, out). duties e out) tr)"
proof (induction es arbitrary: nd tr)
  case (Cons e1 es)
  from Cons.prems(2) obtain nd1 out1 tr1 where s: "step e1 nd = Ok (nd1, out1)" "trace step es nd1 = Ok (nd', tr1)"
    and tr: "tr = (e1, out1) # tr1" by auto
  note ok1 = step_ok[OF Cons.prems(1) s(1)]
  have "x < y" if "x \<in> set (duties e1 out1)" "(e, out) \<in> set tr1" "y \<in> set (duties e out)" for x y e out
  proof -
    from step_duty[OF Cons.prems(1) s(1)] that(1) have "last_duty nd1 = Some x" by auto
    then show ?thesis using trace_later[OF ok1 s(2) _ that(2,3)] by blast
  qed
  with Cons.IH[OF ok1 s(2)] tr show ?case by auto
qed simp

end

section \<open>The clock only moves forwards\<close>

lemma on_attestation_internal_time [simp]: "fc_time (on_attestation_internal s i d f) = fc_time s"
  by (simp add: on_attestation_internal_def Let_def split: option.split)

lemma remember_signature_time [simp]: "fc_time (remember_signature H i d sig s) = fc_time s"
  by (simp add: remember_signature_def)

lemma insert_block_time [simp]: "fc_time (insert_block r b st s) = fc_time s"
  by (simp add: insert_block_def Let_def)

lemma on_chain_votes_time [simp]: "fc_time (on_chain_votes atts s) = fc_time s"
  unfolding on_chain_votes_def by (intro fold_field on_attestation_internal_time)+

lemma process_block_internal_time: "fc_time (fst (process_block_internal H sb r s)) = fc_time s"
  by (auto simp: process_block_internal_def Let_def and_do_fst run_step_def update_head_time
      split: res.splits)

lemma process_purgatory_time:
  "process_purgatory H sbs roots s = Ok (s', roots') \<Longrightarrow> fc_time s' = fc_time s"
proof (induction H sbs roots s rule: process_purgatory.induct)
  case (2 H sb sbs roots s)
  obtain s1 x where p: "process_block_internal H sb (root_block H (bwa_block (sb_message sb))) s = (s1, x)"
    by fastforce
  have "fc_time s1 = fc_time s" using process_block_internal_time p by (metis fst_conv)
  with 2 p show ?case by (cases x) (fastforce simp: Let_def)+
qed simp

lemma process_pending_blocks_time: "process_pending_blocks H roots s = Ok s' \<Longrightarrow> fc_time s' = fc_time s"
proof (induction H roots s rule: process_pending_blocks.induct)
  case (1 H roots s)
  show ?case
  proof (cases "roots = []")
    case True
    with "1.prems" show ?thesis by (simp add: process_pending_blocks.simps)
  next
    case False
    show ?thesis
    proof (cases "hm_get (blocks_queue s) (last roots)")
      case None
      with False "1.prems" "1.IH"(1)[OF False HOL.refl HOL.refl None] show ?thesis
        by (subst (asm) process_pending_blocks.simps) (simp add: Let_def)
    next
      case (Some sbs)
      let ?s = "s\<lparr>blocks_queue := hm_remove (last roots) (blocks_queue s)\<rparr>"
      from False Some "1.prems" obtain s1 roots1 where
        p: "process_purgatory H sbs (butlast roots) ?s = Ok (s1, roots1)"
          "process_pending_blocks H roots1 s1 = Ok s'"
        by (subst (asm) process_pending_blocks.simps) (auto simp: Let_def)
      with "1.IH"(2)[OF False HOL.refl HOL.refl Some p(1)] process_purgatory_time[OF p(1)] show ?thesis by simp
    qed
  qed
qed

lemma on_block_time: "fc_time (fst (on_block H s sb)) = fc_time s"
proof -
  let ?r = "root_block H (bwa_block (sb_message sb))"
  obtain s1 x where p: "process_block_internal H sb ?r s = (s1, x)" by fastforce
  have "fc_time s1 = fc_time s" using process_block_internal_time p by (metis fst_conv)
  with p show ?thesis
    by (cases x) (auto simp: on_block_def Let_def run_step_def process_pending_blocks_time split: res.split)
qed

lemma on_attestation_time: "fc_time (fst (on_attestation H s a f)) = fc_time s"
  by (simp add: on_attestation_def and_do_fst Let_def split: res.split)

text \<open>What every step does to the store of the node.\<close>

definition forward :: "ssz_root \<Rightarrow> store \<Rightarrow> store \<Rightarrow> bool" where
  "forward H s s' \<longleftrightarrow> evolves H s s' \<and> (store_ok H s \<longrightarrow> fc_time s \<le> fc_time s')"

lemma forward_refl [simp]: "forward H s s"
  by (simp add: forward_def)

lemma forward_trans: "forward H s t \<Longrightarrow> forward H t u \<Longrightarrow> forward H s u"
  unfolding forward_def by (metis evolves_def evolves_trans order_trans)

lemma forward_ok: "forward H s s' \<Longrightarrow> store_ok H s \<Longrightarrow> store_ok H s' \<and> fc_time s \<le> fc_time s'"
  by (simp add: forward_def evolves_def)

lemma on_tick_forward: "on_tick s now p = Ok s' \<Longrightarrow> forward H s s'"
proof (cases "store_ok H s")
  case True
  assume "on_tick s now p = Ok s'"
  with on_tick_loop_steps[OF True] show ?thesis unfolding on_tick_def forward_def steps_to_def by fastforce
qed (simp add: forward_def evolves_def)

lemma on_block_forward: "root_determines_slot H \<Longrightarrow> forward H s (fst (on_block H s sb))"
  by (simp add: forward_def on_block_evolves on_block_time)

lemma on_attestation_forward: "forward H s (fst (on_attestation H s a f))"
  by (simp add: forward_def on_attestation_evolves on_attestation_time)

lemma get_proposal_head_forward:
  assumes "get_proposal_head s slot = Ok s'"
  shows "forward H s s'"
proof (cases "store_ok H s")
  case True
  from assms obtain s1 where s1: "on_tick s (genesis_time (fc_config s) + slot * seconds_per_slot) True = Ok s1"
    and s': "accept_new_attestations s1 = Ok s'" by (auto simp: get_proposal_head_def)
  have "store_ok H s1" using forward_ok[OF on_tick_forward[OF s1] True] by simp
  from accept_new_attestations_steps[OF this] s' have "forward H s1 s'"
    by (simp add: forward_def steps_to_def accept_new_attestations_time)
  then show ?thesis by (rule forward_trans[OF on_tick_forward[OF s1]])
qed (simp add: forward_def evolves_def)

lemma build_block_proposal_forward:
  assumes det: "root_determines_slot H"
  shows "forward H s (fst (build_block_proposal first_of X H vs s slot i))"
proof (cases "store_ok H s")
  case True
  have fst: "fst (build_block_proposal first_of X H vs s slot i) =
      fst (produce_block_with_signatures first_of X H s slot i)"
    by (simp add: build_block_proposal_def and_do_fst split: res.split prod.split)
  have "fc_time s \<le> fc_time (fst (produce_block_with_signatures first_of X H s slot i))"
    by (rule produce_block_cases[OF det True, of slot first_of X i];
        drule get_proposal_head_forward[where H = H]; simp add: forward_def True)
  then show ?thesis using produce_block_evolves[OF det] by (simp add: forward_def fst)
qed (simp add: forward_def evolves_def)

lemma build_block_proposal_slot:
  assumes "root_determines_slot H" and "store_ok H s"
    and "build_block_proposal first_of X H vs s slot i = (s', Ok sb)"
  shows "b_slot (bwa_block (sb_message sb)) = slot"
proof -
  from assms(3) obtain r b sigs where prod: "produce_block_with_signatures first_of X H s slot i = (s', Ok (r, b, sigs))"
    and sign: "sign_block X H vs s' b i sigs = Ok sb"
    by (auto simp: build_block_proposal_def)
  have "b_slot b = slot"
    by (rule produce_block_cases[OF assms(1,2), of slot first_of X i]) (use prod in auto)
  with sign show ?thesis by (auto simp: sign_block_def Let_def split: if_splits)
qed

section \<open>Steps of the node\<close>

lemma process_own_block_Ok:
  assumes "root_determines_slot H" and "process_own_block H now s sb = Ok (s', out)"
  shows "forward H s s'" and "out = [] \<or> out = [Send (GossipBlockWithAttestation sb)]"
proof -
  from assms(2) obtain s1 where s1: "on_tick s now False = Ok s1"
    by (cases "on_tick s now False") (auto simp: process_own_block_def)
  obtain s2 x where b: "on_block H s1 sb = (s2, x)" by fastforce
  have "forward H s1 s2" using on_block_forward[OF assms(1), of s1 sb] b by simp
  with assms(2) s1 b show "forward H s s'"
    by (cases x) (auto simp: process_own_block_def intro: forward_trans[OF on_tick_forward])
  show "out = [] \<or> out = [Send (GossipBlockWithAttestation sb)]"
    using assms(2) s1 b by (cases x) (auto simp: process_own_block_def)
qed

lemma propose_Ok:
  assumes det: "root_determines_slot H" and ok: "store_ok H (nd_store nd)"
    and run: "propose first_of X H service c now nd = Ok (nd', out)"
  shows "forward H (nd_store nd) (nd_store nd') \<and> last_attestation_slot nd' = last_attestation_slot nd \<and>
    (nd' = nd \<and> out = [] \<or>
     last_proposal_slot nd' = Some c \<and> last_proposal_slot nd \<noteq> Some c \<and>
       (out = [] \<or> (\<exists>sb. out = [Send (GossipBlockWithAttestation sb)] \<and> b_slot (bwa_block (sb_message sb)) = c)))"
proof (cases "\<exists>vs i. service = Some vs \<and> last_proposal_slot nd \<noteq> Some c \<and> get_proposer_for_slot vs c = Some i")
  case False
  with run show ?thesis by (auto simp: propose_def split: option.splits if_splits)
next
  case True
  then obtain vs i where vs: "service = Some vs" "last_proposal_slot nd \<noteq> Some c" "get_proposer_for_slot vs c = Some i"
    by blast
  obtain s1 x where b: "build_block_proposal first_of X H vs (nd_store nd) c i = (s1, x)" by fastforce
  have f1: "forward H (nd_store nd) s1" using build_block_proposal_forward[OF det, of "nd_store nd"] b by (metis fst_conv)
  show ?thesis
  proof (cases x)
    case (Ok sb)
    with run vs b obtain s2 where s2: "process_own_block H now s1 sb = Ok (s2, out)"
      and nd': "nd' = nd\<lparr>nd_store := s2, last_proposal_slot := Some c\<rparr>"
      by (auto simp: propose_def)
    note own = process_own_block_Ok[OF det s2]
    have "b_slot (bwa_block (sb_message sb)) = c"
      using build_block_proposal_slot[OF det ok] b Ok by blast
    with own f1 vs(2) nd' show ?thesis by (auto intro: forward_trans)
  next
    case (Err e)
    with run vs b f1 show ?thesis by (auto simp: propose_def)
  qed (use run vs b in \<open>auto simp: propose_def map_res_def\<close>)
qed

lemma broadcast_attestations_Ok:
  "broadcast_attestations H as s = Ok (s', out) \<Longrightarrow>
    forward H s s' \<and> set out \<subseteq> (\<lambda>a. Send (GossipAttestation a)) ` set as"
proof (induction as arbitrary: s out)
  case (Cons a as)
  obtain s1 x where a: "on_attestation H s a False = (s1, x)" by fastforce
  have f: "forward H s s1" using on_attestation_forward[of H s a False] a by simp
  show ?case
  proof (cases x)
    case (Ok u)
    with Cons.prems a obtain out1 where "broadcast_attestations H as s1 = Ok (s', out1)"
      "out = Send (GossipAttestation a) # out1" by auto
    with Cons.IH[of s1 out1] f show ?thesis by (auto intro: forward_trans)
  next
    case (Err e)
    with Cons a f show ?thesis by (fastforce intro: forward_trans)
  qed (use Cons.prems a in auto)
qed simp

lemma attest_Ok:
  assumes run: "attest X H service c nd = Ok (nd', out)"
  shows "forward H (nd_store nd) (nd_store nd') \<and> last_proposal_slot nd' = last_proposal_slot nd \<and>
    (nd' = nd \<and> out = [] \<or>
     last_attestation_slot nd' = Some c \<and> last_attestation_slot nd \<noteq> Some c \<and>
       set out \<subseteq> {Send (GossipAttestation a) | a. ad_slot (sa_message a) = c})"
proof (cases "\<exists>vs. service = Some vs \<and> last_attestation_slot nd \<noteq> Some c")
  case False
  with run show ?thesis by (auto simp: attest_def split: option.splits if_splits)
next
  case True
  then obtain vs where vs: "service = Some vs" "last_attestation_slot nd \<noteq> Some c" by blast
  with run obtain atts s' where atts: "create_attestations X H vs (nd_store nd) c = Ok atts"
    and b: "broadcast_attestations H atts (nd_store nd) = Ok (s', out)"
    and nd': "nd' = nd\<lparr>nd_store := s', last_attestation_slot := Some c\<rparr>"
    by (auto simp: attest_def)
  have "ad_slot (sa_message a) = c" if "a \<in> set atts" for a
    by (rule create_attestations_Ok[OF atts that]) simp
  then have "set out \<subseteq> {Send (GossipAttestation a) | a. ad_slot (sa_message a) = c}"
    using broadcast_attestations_Ok[OF b] by auto
  with broadcast_attestations_Ok[OF b] vs(2) nd' show ?thesis by auto
qed

text \<open>Duties are remembered with slots that the clock has reached.\<close>

definition reached :: "store \<Rightarrow> u64 option \<Rightarrow> bool" where
  "reached s l = (case l of None \<Rightarrow> True | Some y \<Rightarrow> y \<le> fc_time s div intervals_per_slot)"

lemma reached_forward: "forward H s s' \<Longrightarrow> store_ok H s \<Longrightarrow> reached s l \<Longrightarrow> reached s' l"
  using forward_ok[of H s s']
  by (auto simp: reached_def word_le_nat_alt unat_div intervals_per_slot_def intro: order_trans div_le_mono
      split: option.splits)

lemma reached_new: "reached s l \<Longrightarrow> l \<noteq> Some (fc_time s div intervals_per_slot) \<Longrightarrow>
    l = Some y \<Longrightarrow> y < fc_time s div intervals_per_slot"
  by (simp add: reached_def)

definition node_ok :: "ssz_root \<Rightarrow> node_state \<Rightarrow> bool" where
  "node_ok H nd \<longleftrightarrow> root_determines_slot H \<and> store_ok H (nd_store nd) \<and>
     reached (nd_store nd) (last_proposal_slot nd) \<and> reached (nd_store nd) (last_attestation_slot nd)"

text \<open>The slots of the blocks and attestations that a tick publishes.\<close>

fun own_block_slots :: "node_event \<Rightarrow> node_output list \<Rightarrow> u64 list" where
  "own_block_slots (Tick now later peers) out =
     concat (map (\<lambda>r. case r of Send (GossipBlockWithAttestation sb) \<Rightarrow> [b_slot (bwa_block (sb_message sb))] | _ \<Rightarrow> []) out)"
| "own_block_slots (Receive m now) out = []"

fun own_attestation_slots :: "node_event \<Rightarrow> node_output list \<Rightarrow> u64 list" where
  "own_attestation_slots (Tick now later peers) out =
     concat (map (\<lambda>r. case r of Send (GossipAttestation a) \<Rightarrow> [ad_slot (sa_message a)] | _ \<Rightarrow> []) out)"
| "own_attestation_slots (Receive m now) out = []"

lemma receive_Ok:
  assumes "root_determines_slot H" and "node_step first_of X H service (Receive m now) nd = Ok (nd', out)"
  shows "\<exists>s'. nd' = nd\<lparr>nd_store := s'\<rparr> \<and> forward H (nd_store nd) s'"
proof (cases m)
  case (ProcessBlock sb trusted gossip)
  with assms(2) obtain s1 where s1: "on_tick (nd_store nd) now False = Ok s1"
    by (cases "on_tick (nd_store nd) now False") (auto simp: receive_block_def Let_def)
  obtain s2 x where b: "on_block H s1 sb = (s2, x)" by fastforce
  have "forward H s1 s2" using on_block_forward[OF assms(1), of s1 sb] b by simp
  with assms(2) s1 b ProcessBlock show ?thesis
    by (cases x) (auto simp: receive_block_def Let_def intro: forward_trans[OF on_tick_forward])
next
  case (ProcessAttestation a trusted gossip)
  obtain s2 x where b: "on_attestation H (nd_store nd) a False = (s2, x)" by fastforce
  have "forward H (nd_store nd) s2" using on_attestation_forward[of H "nd_store nd" a False] b by simp
  with assms(2) b ProcessAttestation show ?thesis by (cases x) (auto simp: receive_attestation_def)
qed

lemma own_slots_printed:
  assumes "\<forall>r \<in> set pre. \<exists>st. r = Print st"
  shows "own_block_slots (Tick now later peers) (pre @ out) = own_block_slots (Tick now later peers) out"
    and "own_attestation_slots (Tick now later peers) (pre @ out) = own_attestation_slots (Tick now later peers) out"
  using assms by (induction pre) auto

lemma no_own_attestations:
  "set out \<subseteq> range (\<lambda>sb. Send (GossipBlockWithAttestation sb)) \<Longrightarrow> own_attestation_slots (Tick now later peers) out = []"
  by (induction out) auto

lemma no_own_blocks:
  "set out \<subseteq> range (\<lambda>a. Send (GossipAttestation a)) \<Longrightarrow> own_block_slots (Tick now later peers) out = []"
  by (induction out) auto

lemma own_attestations_at:
  "set out \<subseteq> {Send (GossipAttestation a) | a. ad_slot (sa_message a) = c} \<Longrightarrow>
    set (own_attestation_slots (Tick now later peers) out) \<subseteq> {c}"
  by (induction out) auto

text \<open>A tick: the clock moves, then at most one duty is done, for the slot of the clock.\<close>

lemma node_tick_duty:
  assumes run: "node_tick first_of X H service now later peers nd = Ok (nd', out)"
  obtains s c nd2 nd3 pre out3 where "on_tick (nd_store nd) now False = Ok s" and "c = fc_time s div intervals_per_slot"
    and "nd_store nd2 = s" and "last_proposal_slot nd2 = last_proposal_slot nd"
    and "last_attestation_slot nd2 = last_attestation_slot nd"
    and "propose first_of X H service c later nd2 = Ok (nd3, out3) \<or>
      attest X H service c nd2 = Ok (nd3, out3) \<or> nd3 = nd2 \<and> out3 = []"
    and "\<forall>r \<in> set pre. \<exists>st. r = Print st" and "out = pre @ out3"
    and "nd_store nd' = nd_store nd3" and "last_proposal_slot nd' = last_proposal_slot nd3"
    and "last_attestation_slot nd' = last_attestation_slot nd3"
proof -
  from run obtain s where s: "on_tick (nd_store nd) now False = Ok s"
    by (cases "on_tick (nd_store nd) now False") (auto simp: node_tick_def)
  let ?c = "fc_time s div intervals_per_slot" and ?i = "fc_time s mod intervals_per_slot"
  let ?nd = "if last_status_slot nd \<noteq> Some ?c then nd\<lparr>nd_store := s, last_status_slot := Some ?c\<rparr> else nd\<lparr>nd_store := s\<rparr>"
  let ?duty = "if ?i = 0 then propose first_of X H service ?c later ?nd
    else if ?i = 1 then attest X H service ?c ?nd else Ok (?nd, [])"
  obtain nd3 out3 pre where d: "?duty = Ok (nd3, out3)" and pre: "\<forall>r \<in> set pre. \<exists>st. r = Print st"
    and out: "out = pre @ out3"
    and nd': "nd_store nd' = nd_store nd3" "last_proposal_slot nd' = last_proposal_slot nd3"
      "last_attestation_slot nd' = last_attestation_slot nd3"
  proof (cases "last_status_slot nd \<noteq> Some ?c")
    case True
    with run s that[of _ _ "[Print (print_chain_status s peers)]"] show ?thesis
      by (auto simp: node_tick_def Let_def split: if_splits)
  next
    case False
    with run s that[of _ _ "[]"] show ?thesis by (auto simp: node_tick_def Let_def split: if_splits)
  qed
  obtain nd2 where eq: "?nd = nd2" by blast
  then have nd2: "nd_store nd2 = s" "last_proposal_slot nd2 = last_proposal_slot nd"
    "last_attestation_slot nd2 = last_attestation_slot nd" by (auto split: if_splits)
  from d have "propose first_of X H service ?c later nd2 = Ok (nd3, out3) \<or>
      attest X H service ?c nd2 = Ok (nd3, out3) \<or> nd3 = nd2 \<and> out3 = []"
    unfolding eq by (metis Pair_inject res.inject(1))
  from that[OF s HOL.refl nd2 this pre out nd'] show ?thesis .
qed

lemma node_tick_Ok:
  assumes ok: "node_ok H nd" and run: "node_tick first_of X H service now later peers nd = Ok (nd', out)"
  obtains s c where "forward H (nd_store nd) s" and "store_ok H s" and "c = fc_time s div intervals_per_slot"
    and "forward H s (nd_store nd')"
    and "own_block_slots (Tick now later peers) out = [] \<and> last_proposal_slot nd' = last_proposal_slot nd \<or>
      last_proposal_slot nd' = Some c \<and> last_proposal_slot nd \<noteq> Some c \<and>
      set (own_block_slots (Tick now later peers) out) \<subseteq> {c}"
    and "length (own_block_slots (Tick now later peers) out) \<le> 1"
    and "own_attestation_slots (Tick now later peers) out = [] \<and> last_attestation_slot nd' = last_attestation_slot nd \<or>
      last_attestation_slot nd' = Some c \<and> last_attestation_slot nd \<noteq> Some c \<and>
      set (own_attestation_slots (Tick now later peers) out) \<subseteq> {c}"
proof -
  obtain s c nd2 nd3 pre out3 where s: "on_tick (nd_store nd) now False = Ok s" and c: "c = fc_time s div intervals_per_slot"
    and nd2: "nd_store nd2 = s" "last_proposal_slot nd2 = last_proposal_slot nd"
      "last_attestation_slot nd2 = last_attestation_slot nd"
    and duty: "propose first_of X H service c later nd2 = Ok (nd3, out3) \<or>
      attest X H service c nd2 = Ok (nd3, out3) \<or> nd3 = nd2 \<and> out3 = []"
    and pre: "\<forall>r \<in> set pre. \<exists>st. r = Print st" and out: "out = pre @ out3"
    and nd': "nd_store nd' = nd_store nd3" "last_proposal_slot nd' = last_proposal_slot nd3"
      "last_attestation_slot nd' = last_attestation_slot nd3"
    using run by (rule node_tick_duty)
  have f: "forward H (nd_store nd) s" by (rule on_tick_forward[OF s])
  have ok_s: "store_ok H s" using forward_ok[OF f] ok by (simp add: node_ok_def)
  have ok2: "store_ok H (nd_store nd2)" using ok_s nd2(1) by simp
  have det: "root_determines_slot H" using ok by (simp add: node_ok_def)
  note printed = own_slots_printed[OF pre, of now later peers out3, folded out]
  from duty consider "propose first_of X H service c later nd2 = Ok (nd3, out3)"
    | "attest X H service c nd2 = Ok (nd3, out3)" | "nd3 = nd2" "out3 = []" by blast
  then show ?thesis
  proof cases
    case 1
    note p = propose_Ok[OF det ok2 1, unfolded nd2]
    then have "set out3 \<subseteq> range (\<lambda>sb. Send (GossipBlockWithAttestation sb))" by auto
    note none = no_own_attestations[OF this, of now later peers]
    have "own_block_slots (Tick now later peers) out3 = [] \<and> last_proposal_slot nd3 = last_proposal_slot nd \<or>
      last_proposal_slot nd3 = Some c \<and> last_proposal_slot nd \<noteq> Some c \<and>
      set (own_block_slots (Tick now later peers) out3) \<subseteq> {c}"
      using p nd2(2) by (elim conjE disjE exE) simp_all
    moreover have "length (own_block_slots (Tick now later peers) out3) \<le> 1"
      using p by (elim conjE disjE exE) simp_all
    ultimately show ?thesis
      by (intro that[OF f ok_s c]; unfold nd' printed) (use p none in simp_all)
  next
    case 2
    note att = attest_Ok[OF 2, unfolded nd2]
    then have "set out3 \<subseteq> range (\<lambda>a. Send (GossipAttestation a))" by auto
    note none = no_own_blocks[OF this, of now later peers]
    have "own_attestation_slots (Tick now later peers) out3 = [] \<and> last_attestation_slot nd3 = last_attestation_slot nd \<or>
      last_attestation_slot nd3 = Some c \<and> last_attestation_slot nd \<noteq> Some c \<and>
      set (own_attestation_slots (Tick now later peers) out3) \<subseteq> {c}"
      using att nd2(3) own_attestations_at[of out3 c now later peers] by (elim conjE disjE) simp_all
    then show ?thesis
      by (intro that[OF f ok_s c]; unfold nd' printed none) (use att in simp_all)
  next
    case 3
    then show ?thesis
      by (intro that[OF f ok_s c]; unfold nd' printed) (simp_all add: nd2)
  qed
qed

lemma reached_current: "reached s (Some (fc_time s div intervals_per_slot))"
  by (simp add: reached_def)

lemma node_step_ok:
  assumes ok: "node_ok H nd" and run: "node_step first_of X H service e nd = Ok (nd', out)"
  shows "node_ok H nd'"
proof (cases e)
  case (Tick now later peers)
  have run: "node_tick first_of X H service now later peers nd = Ok (nd', out)" using run Tick by simp
  have old: "root_determines_slot H" "store_ok H (nd_store nd)" "reached (nd_store nd) (last_proposal_slot nd)"
    "reached (nd_store nd) (last_attestation_slot nd)" using ok by (simp_all add: node_ok_def)
  from ok run show ?thesis
  proof (rule node_tick_Ok)
    fix s c
    assume f: "forward H (nd_store nd) s" and s: "store_ok H s" and c: "c = fc_time s div intervals_per_slot"
      and f': "forward H s (nd_store nd')"
      and p: "own_block_slots (Tick now later peers) out = [] \<and> last_proposal_slot nd' = last_proposal_slot nd \<or>
        last_proposal_slot nd' = Some c \<and> last_proposal_slot nd \<noteq> Some c \<and>
        set (own_block_slots (Tick now later peers) out) \<subseteq> {c}"
      and a: "own_attestation_slots (Tick now later peers) out = [] \<and> last_attestation_slot nd' = last_attestation_slot nd \<or>
        last_attestation_slot nd' = Some c \<and> last_attestation_slot nd \<noteq> Some c \<and>
        set (own_attestation_slots (Tick now later peers) out) \<subseteq> {c}"
    have "reached s (last_proposal_slot nd')" "reached s (last_attestation_slot nd')"
      using p a reached_forward[OF f old(2)] old(3,4) reached_current[of s] c by auto
    then show ?thesis
      using reached_forward[OF f' s] forward_ok[OF f' s] old(1) by (simp add: node_ok_def)
  qed
next
  case (Receive m now)
  have old: "root_determines_slot H" "store_ok H (nd_store nd)" using ok by (simp_all add: node_ok_def)
  obtain s' where "nd' = nd\<lparr>nd_store := s'\<rparr>" "forward H (nd_store nd) s'"
    using receive_Ok[OF old(1)] run Receive by blast
  with ok forward_ok[OF this(2) old(2)] reached_forward[OF this(2) old(2)] show ?thesis
    by (simp add: node_ok_def)
qed

text \<open>Proposing and attesting are duties done once per slot.\<close>

lemma reached_before:
  assumes "forward H s0 s" and "store_ok H s0" and "reached s0 l" and "c = fc_time s div intervals_per_slot"
    and "l \<noteq> Some c"
  shows "\<forall>y. l = Some y \<longrightarrow> y < c"
  using reached_forward[OF assms(1-3)] assms(4,5) reached_new by blast

interpretation proposals: once_per_slot "node_step first_of X H service" "node_ok H" last_proposal_slot own_block_slots
  for first_of X H service
proof
  fix nd e nd' out assume ok: "node_ok H nd" and run: "node_step first_of X H service e nd = Ok (nd', out)"
  show "node_ok H nd'" by (rule node_step_ok[OF ok run])
  show "own_block_slots e out = [] \<and> last_proposal_slot nd' = last_proposal_slot nd \<or>
      (\<exists>c. last_proposal_slot nd' = Some c \<and> (\<forall>y. last_proposal_slot nd = Some y \<longrightarrow> y < c) \<and>
        set (own_block_slots e out) \<subseteq> {c})"
  proof (cases e)
    case (Tick now later peers)
    have st: "store_ok H (nd_store nd)" "reached (nd_store nd) (last_proposal_slot nd)"
      using ok by (simp_all add: node_ok_def)
    show ?thesis using ok run[unfolded Tick node_step.simps] unfolding Tick
      by (rule node_tick_Ok) (use st in \<open>blast dest: reached_before\<close>)
  next
    case (Receive m now)
    then show ?thesis using receive_Ok[of H first_of X service m now nd nd' out] ok run by (auto simp: node_ok_def)
  qed
qed

interpretation attesting: once_per_slot "node_step first_of X H service" "node_ok H" last_attestation_slot
  own_attestation_slots for first_of X H service
proof
  fix nd e nd' out assume ok: "node_ok H nd" and run: "node_step first_of X H service e nd = Ok (nd', out)"
  show "node_ok H nd'" by (rule node_step_ok[OF ok run])
  show "own_attestation_slots e out = [] \<and> last_attestation_slot nd' = last_attestation_slot nd \<or>
      (\<exists>c. last_attestation_slot nd' = Some c \<and> (\<forall>y. last_attestation_slot nd = Some y \<longrightarrow> y < c) \<and>
        set (own_attestation_slots e out) \<subseteq> {c})"
  proof (cases e)
    case (Tick now later peers)
    have st: "store_ok H (nd_store nd)" "reached (nd_store nd) (last_attestation_slot nd)"
      using ok by (simp_all add: node_ok_def)
    show ?thesis using ok run[unfolded Tick node_step.simps] unfolding Tick
      by (rule node_tick_Ok) (use st in \<open>blast dest: reached_before\<close>)
  next
    case (Receive m now)
    then show ?thesis using receive_Ok[of H first_of X service m now nd nd' out] ok run by (auto simp: node_ok_def)
  qed
qed

lemma node_new_ok:
  assumes "root_determines_slot H" and "generate_genesis_with_validators H time vs = Ok st" and "vs \<noteq> []"
    and "length vs \<le> validator_registry_limit"
  shows "node_ok H (node_new (genesis_store H time st))"
  using genesis_store_ok[OF assms(2-4)] assms(1) by (simp add: node_ok_def node_new_def reached_def)

lemma own_block_once:
  assumes "node_ok H nd" and "node_step first_of X H service e nd = Ok (nd', out)"
  shows "length (own_block_slots e out) \<le> 1"
proof (cases e)
  case (Tick now later peers)
  show ?thesis using assms(1) assms(2)[unfolded Tick node_step.simps] unfolding Tick by (rule node_tick_Ok)
qed simp

lemma sorted_batches:
  assumes "sorted_wrt (\<lambda>xs ys. \<forall>x \<in> set xs. \<forall>y \<in> set ys. x < y) xss" and "\<forall>xs \<in> set xss. length xs \<le> 1"
  shows "sorted_wrt (<) (concat (xss :: u64 list list))"
  using assms
proof (induction xss)
  case (Cons xs xss)
  moreover have "sorted_wrt (<) xs" using Cons.prems(2) by (cases xs) auto
  ultimately show ?case by (auto simp: sorted_wrt_append)
qed simp

section \<open>Own blocks\<close>

lemma build_block_proposal_stored:
  assumes "build_block_proposal first_of X H vs s slot i = (s', Ok sb)"
  shows "hm_get (blocks s') (root_block H (bwa_block (sb_message sb))) = Some (bwa_block (sb_message sb))"
proof -
  from assms obtain r b sigs where prod: "produce_block_with_signatures first_of X H s slot i = (s', Ok (r, b, sigs))"
    and sign: "sign_block X H vs s' b i sigs = Ok sb"
    by (auto simp: build_block_proposal_def)
  from sign have "bwa_block (sb_message sb) = b" by (auto simp: sign_block_def Let_def split: if_splits)
  with prod show ?thesis by (auto simp: produce_block_with_signatures_def Let_def split: if_splits)
qed

lemma on_block_known: "hm_contains_key (blocks s) (root_block H (bwa_block (sb_message sb))) \<Longrightarrow> on_block H s sb = (s, Ok ())"
  by (simp add: on_block_def Let_def)

section \<open>Examples\<close>

lemma sample_tick: "on_tick sample_store 4 False = Ok (sample_store\<lparr>fc_time := 4\<rparr>)"
  by (simp add: sample_store_eq on_tick_def on_tick_loop.simps seconds_per_interval_def
      seconds_per_slot_def intervals_per_slot_def saturating_sub_def tick_interval_def
      accept_new_attestations_def update_head_def update_safe_target_def single_block_head
      sample_block_0_parent Let_def hm_extend_def map_res_def cong: run_congs)

lemma sample_proposal_head_4:
  "get_proposal_head (sample_store\<lparr>fc_time := 4\<rparr>) 1 = Ok (sample_store\<lparr>fc_time := 4\<rparr>)"
  by (simp add: sample_store_eq get_proposal_head_def on_tick_def on_tick_loop.simps seconds_per_interval_def
      seconds_per_slot_def intervals_per_slot_def saturating_sub_def accept_new_attestations_def update_head_def
      single_block_head sample_block_0_parent Let_def hm_extend_def map_res_def cong: run_congs)

lemma sample_node_proposes:
  obtains nd sb pre where "trace (node_step Min lenient_lib sample_root (Some sample_keyed)) [Tick 4 4 0]
      (node_new sample_store) = Ok (nd, [(Tick 4 4 0, pre @ [Send (GossipBlockWithAttestation sb)])])"
    and "\<forall>r \<in> set pre. \<exists>st. r = Print st" and "b_slot (bwa_block (sb_message sb)) = 1"
proof -
  let ?s = "sample_store\<lparr>fc_time := 4\<rparr>"
  obtain s1 b sb where sb: "build_block_proposal Min lenient_lib sample_root sample_keyed sample_store 1 1 = (s1, Ok sb)"
    and time: "fc_time s1 = 4" "fc_config s1 = \<lparr>genesis_time = 0\<rparr>"
    by (rule sample_proposal)
  have "produce_block_with_signatures Min lenient_lib sample_root ?s 1 1 =
      produce_block_with_signatures Min lenient_lib sample_root sample_store 1 1"
    unfolding produce_block_with_signatures_def sample_proposal_head sample_proposal_head_4 run_step_def by simp
  then have build: "build_block_proposal Min lenient_lib sample_root sample_keyed ?s 1 1 = (s1, Ok sb)"
    using sb by (simp add: build_block_proposal_def)
  have "on_tick s1 4 False = Ok s1"
    by (simp add: on_tick_def on_tick_loop.simps time saturating_sub_def seconds_per_interval_def
        seconds_per_slot_def intervals_per_slot_def)
  then have own: "process_own_block sample_root 4 s1 sb = Ok (s1, [Send (GossipBlockWithAttestation sb)])"
    using on_block_known[of s1 sample_root sb] build_block_proposal_stored[OF sb]
    by (simp add: process_own_block_def)
  have slot: "b_slot (bwa_block (sb_message sb)) = 1"
    by (rule build_block_proposal_slot[OF sample_root_slot sample_store_ok sb])
  have "get_proposer_for_slot sample_keyed 1 = Some 1"
    by (simp add: get_proposer_for_slot_def sample_keyed_def is_assigned_def sample_config_def)
  then have "\<exists>nd. node_tick Min lenient_lib sample_root (Some sample_keyed) 4 4 0 (node_new sample_store) =
      Ok (nd, [Print (print_chain_status ?s 0)] @ [Send (GossipBlockWithAttestation sb)])"
    by (simp add: node_tick_def node_new_def sample_tick propose_def build own intervals_per_slot_def map_res_def)
  then obtain nd where "node_tick Min lenient_lib sample_root (Some sample_keyed) 4 4 0 (node_new sample_store) =
      Ok (nd, [Print (print_chain_status ?s 0)] @ [Send (GossipBlockWithAttestation sb)])" by blast
  then show ?thesis by (intro that[OF _ _ slot, of nd "[Print (print_chain_status ?s 0)]"]) (simp_all add: map_res_def)
qed

section \<open>Properties\<close>

text \<open>
  The node keeps its store consistent.  Whatever ticks and messages the chain task handles after it has
  started from a generated genesis, with or without validator duties, blocks valid or not, the store
  satisfies its invariant as long as the task has not panicked.
\<close>

theorem node_keeps_store_invariant:
  assumes "root_determines_slot H" and "generate_genesis_with_validators H time vs = Ok st" and "vs \<noteq> []"
    and "length vs \<le> validator_registry_limit"
    and "trace (node_step first_of X H service) es (node_new (genesis_store H time st)) = Ok (nd, tr)"
  shows "store_ok H (nd_store nd)"
  using proposals.trace_ok[OF node_new_ok[OF assms(1-4)] assms(5)] by (simp add: node_ok_def)

theorem node_keeps_store_invariant_witness:
  "\<exists>nd tr. trace (node_step Min lenient_lib sample_root (Some sample_keyed)) [Tick 4 4 0]
      (node_new sample_store) = Ok (nd, tr) \<and> store_ok sample_root (nd_store nd)"
proof -
  obtain nd tr where run: "trace (node_step Min lenient_lib sample_root (Some sample_keyed)) [Tick 4 4 0]
      (node_new (genesis_store sample_root 0 sample_genesis)) = Ok (nd, tr)"
    using sample_node_proposes unfolding sample_store_def by metis
  have "sample_validators \<noteq> []" "length sample_validators \<le> validator_registry_limit"
    by (simp_all add: sample_validators_def validator_registry_limit_def)
  from node_keeps_store_invariant[OF sample_root_slot sample_genesis_generated this run] run
  show ?thesis unfolding sample_store_def by blast
qed

text \<open>
  C12: a node proposes and attests at most once per slot.  In every run the slots of the blocks it publishes
  as a proposer strictly increase, and attestations that it publishes in different ticks are for
  different, increasing slots.
\<close>

theorem node_duties_once_per_slot:
  assumes "root_determines_slot H" and "generate_genesis_with_validators H time vs = Ok st" and "vs \<noteq> []"
    and "length vs \<le> validator_registry_limit"
    and "trace (node_step first_of X H service) es (node_new (genesis_store H time st)) = Ok (nd, tr)"
  shows "sorted_wrt (<) (concat (map (\<lambda>(e, out). own_block_slots e out) tr)) \<and>
    sorted_wrt (\<lambda>xs ys. \<forall>x \<in> set xs. \<forall>y \<in> set ys. x < y) (map (\<lambda>(e, out). own_attestation_slots e out) tr)"
proof
  note ok = node_new_ok[OF assms(1-4)]
  have "\<forall>(e, out) \<in> set tr. length (own_block_slots e out) \<le> 1"
    by (rule proposals.trace_all[OF _ ok assms(5)]) (rule own_block_once)
  then show "sorted_wrt (<) (concat (map (\<lambda>(e, out). own_block_slots e out) tr))"
    by (intro sorted_batches proposals.duties_increase[OF ok assms(5)]) auto
  show "sorted_wrt (\<lambda>xs ys. \<forall>x \<in> set xs. \<forall>y \<in> set ys. x < y) (map (\<lambda>(e, out). own_attestation_slots e out) tr)"
    by (rule attesting.duties_increase[OF ok assms(5)])
qed

theorem node_duties_once_per_slot_witness:
  "\<exists>nd tr. trace (node_step Min lenient_lib sample_root (Some sample_keyed)) [Tick 4 4 0]
      (node_new sample_store) = Ok (nd, tr) \<and>
    concat (map (\<lambda>(e, out). own_block_slots e out) tr) = [1] \<and>
    sorted_wrt (<) (concat (map (\<lambda>(e, out). own_block_slots e out) tr))"
proof -
  obtain nd sb pre where run: "trace (node_step Min lenient_lib sample_root (Some sample_keyed)) [Tick 4 4 0]
      (node_new sample_store) = Ok (nd, [(Tick 4 4 0, pre @ [Send (GossipBlockWithAttestation sb)])])"
    and pre: "\<forall>r \<in> set pre. \<exists>st. r = Print st" and slot: "b_slot (bwa_block (sb_message sb)) = 1"
    by (rule sample_node_proposes)
  have vs: "sample_validators \<noteq> []" "length sample_validators \<le> validator_registry_limit"
    by (simp_all add: sample_validators_def validator_registry_limit_def)
  note node_duties_once_per_slot[OF sample_root_slot sample_genesis_generated vs run[unfolded sample_store_def]]
  moreover have "own_block_slots (Tick 4 4 0) (pre @ [Send (GossipBlockWithAttestation sb)]) = [1]"
    using own_slots_printed(1)[OF pre, of 4 4 0] slot by simp
  ultimately show ?thesis using run by auto
qed

text \<open>
  C37: a node does not process the blocks it proposes.  \<^verbatim>\<open>build_block_proposal\<close> has put the block into the store,
  so \<^verbatim>\<open>on_block\<close> takes it for a duplicate and changes nothing: the block's attestations and the
  proposer's vote are not counted, the head is not updated and checkpoints that the block justifies
  or finalizes are not taken over.
\<close>

theorem own_block_not_processed:
  assumes "build_block_proposal first_of X H vs s slot i = (s1, Ok sb)"
  shows "on_block H s1 sb = (s1, Ok ())"
  using on_block_known[of s1 H sb] build_block_proposal_stored[OF assms] by simp

theorem own_block_not_processed_witness:
  "\<exists>s1 sb. build_block_proposal Min lenient_lib sample_root sample_keyed sample_store 1 1 = (s1, Ok sb) \<and>
    on_block sample_root s1 sb = (s1, Ok ())"
proof -
  obtain s1 sb where sb: "build_block_proposal Min lenient_lib sample_root sample_keyed sample_store 1 1 = (s1, Ok sb)"
    by (rule sample_proposal)
  from own_block_not_processed[OF sb] sb show ?thesis by blast
qed

end
