(* ===== verification/Node_Records.thy ===== *)
theory Node_Records
  imports Gossip
begin

text \<open>
  \<^verbatim>\<open>networking/src/enr_ext.rs\<close>, \<^verbatim>\<open>discovery\<close> and \<^verbatim>\<open>bootnodes.rs\<close>: the network addresses of a node record,
  the local record, the discovery event loop and the bootnodes.  A multiaddress is the sequence of
  its protocols, a node record the values its accessors return.  Parsers, key formats, peer ids and
  hashes of the libraries are fields of \<open>p2p_lib\<close>.
\<close>

section \<open>Addresses and records\<close>

type_synonym ip4 = u32
type_synonym ip6 = "128 word"
type_synonym peer_id = bytes

datatype ip_addr = V4 ip4 | V6 ip6

datatype protocol = Ip4 ip4 | Ip6 ip6 | Udp u16 | Tcp u16 | QuicV1 | P2p peer_id

type_synonym multiaddr = "protocol list"

fun addr_of_ip :: "ip_addr \<Rightarrow> multiaddr" where
  "addr_of_ip (V4 ip) = [Ip4 ip]"
| "addr_of_ip (V6 ip) = [Ip6 ip]"

datatype combined_public_key = Secp256k1Key bytes | Ed25519Key bytes

text \<open>The ports under \<^verbatim>\<open>quic\<close> and \<^verbatim>\<open>quic6\<close> are raw entries: absent, undecodable or a number.\<close>

record enr =
  enr_ip4 :: "ip4 option"
  enr_udp4 :: "u16 option"
  enr_tcp4 :: "u16 option"
  enr_quic4 :: "u16 option option"
  enr_ip6 :: "ip6 option"
  enr_udp6 :: "u16 option"
  enr_tcp6 :: "u16 option"
  enr_quic6 :: "u16 option option"
  enr_public_key :: combined_public_key

datatype libp2p_key = LibSecp256k1 bytes | LibEd25519 bytes | LibOther

record p2p_lib =
  secp_key_valid :: "bytes \<Rightarrow> bool"
  ed_key_valid :: "bytes \<Rightarrow> bool"
  peer_id_from_key :: "libp2p_key \<Rightarrow> peer_id"
  decode_protobuf :: "bytes \<Rightarrow> libp2p_key option"
  secp_uncompressed :: "bytes \<Rightarrow> bytes"
  keccak256 :: "bytes \<Rightarrow> bytes"
  parse_multiaddr :: "string \<Rightarrow> multiaddr option"
  parse_enr_text :: "string \<Rightarrow> enr option"
  read_bootnode_file :: "string \<Rightarrow> (multiaddr + enr) list option"

section \<open>Addresses of a record\<close>

fun as_peer_id :: "p2p_lib \<Rightarrow> combined_public_key \<Rightarrow> peer_id res" where
  "as_peer_id L (Secp256k1Key pk) =
     (if secp_key_valid L pk then Ok (peer_id_from_key L (LibSecp256k1 pk)) else Panic InvalidLibraryKey)"
| "as_peer_id L (Ed25519Key pk) =
     (if ed_key_valid L pk then Ok (peer_id_from_key L (LibEd25519 pk)) else Panic InvalidLibraryKey)"

definition enr_peer_id :: "p2p_lib \<Rightarrow> enr \<Rightarrow> peer_id res" where
  "enr_peer_id L e = as_peer_id L (enr_public_key e)"

definition quic4 :: "enr \<Rightarrow> u16 option" where
  "quic4 e = Option.bind (enr_quic4 e) id"

definition quic6 :: "enr \<Rightarrow> u16 option" where
  "quic6 e = Option.bind (enr_quic6 e) id"

text \<open>\<^verbatim>\<open>if let Some(x) = o { ... push ... }\<close>.\<close>

definition on_some :: "'a option \<Rightarrow> ('a \<Rightarrow> 'b list) \<Rightarrow> 'b list" where
  "on_some x f = (case x of None \<Rightarrow> [] | Some a \<Rightarrow> f a)"

definition enr_multiaddr :: "enr \<Rightarrow> multiaddr list" where
  "enr_multiaddr e =
     on_some (enr_ip4 e) (\<lambda>ip.
       on_some (enr_udp4 e) (\<lambda>udp. [[Ip4 ip, Udp udp]]) @
       on_some (quic4 e) (\<lambda>quic. [[Ip4 ip, Udp quic, QuicV1]]) @
       on_some (enr_tcp4 e) (\<lambda>tcp. [[Ip4 ip, Tcp tcp]])) @
     on_some (enr_ip6 e) (\<lambda>ip6.
       on_some (enr_udp6 e) (\<lambda>udp6. [[Ip6 ip6, Udp udp6]]) @
       on_some (quic6 e) (\<lambda>quic6. [[Ip6 ip6, Udp quic6, QuicV1]]) @
       on_some (enr_tcp6 e) (\<lambda>tcp6. [[Ip6 ip6, Tcp tcp6]]))"

definition multiaddr_p2p :: "p2p_lib \<Rightarrow> enr \<Rightarrow> multiaddr list res" where
  "multiaddr_p2p L e =
     map_res (\<lambda>peer.
       on_some (enr_ip4 e) (\<lambda>ip.
         on_some (enr_udp4 e) (\<lambda>udp. [[Ip4 ip, Udp udp, P2p peer]]) @
         on_some (enr_tcp4 e) (\<lambda>tcp. [[Ip4 ip, Tcp tcp, P2p peer]])) @
       on_some (enr_ip6 e) (\<lambda>ip6.
         on_some (enr_udp6 e) (\<lambda>udp6. [[Ip6 ip6, Udp udp6, P2p peer]]) @
         on_some (enr_tcp6 e) (\<lambda>tcp6. [[Ip6 ip6, Tcp tcp6, P2p peer]])))
       (enr_peer_id L e)"

definition multiaddr_p2p_tcp :: "p2p_lib \<Rightarrow> enr \<Rightarrow> multiaddr list res" where
  "multiaddr_p2p_tcp L e =
     map_res (\<lambda>peer.
       on_some (enr_ip4 e) (\<lambda>ip. on_some (enr_tcp4 e) (\<lambda>tcp. [[Ip4 ip, Tcp tcp, P2p peer]])) @
       on_some (enr_ip6 e) (\<lambda>ip6. on_some (enr_tcp6 e) (\<lambda>tcp6. [[Ip6 ip6, Tcp tcp6, P2p peer]])))
       (enr_peer_id L e)"

definition multiaddr_p2p_udp :: "p2p_lib \<Rightarrow> enr \<Rightarrow> multiaddr list res" where
  "multiaddr_p2p_udp L e =
     map_res (\<lambda>peer.
       on_some (enr_ip4 e) (\<lambda>ip. on_some (enr_udp4 e) (\<lambda>udp. [[Ip4 ip, Udp udp, P2p peer]])) @
       on_some (enr_ip6 e) (\<lambda>ip6. on_some (enr_udp6 e) (\<lambda>udp6. [[Ip6 ip6, Udp udp6, P2p peer]])))
       (enr_peer_id L e)"

definition multiaddr_quic :: "p2p_lib \<Rightarrow> enr \<Rightarrow> multiaddr list res" where
  "multiaddr_quic L e =
     map_res (\<lambda>peer.
       on_some (quic4 e) (\<lambda>port. on_some (enr_ip4 e) (\<lambda>ip. [[Ip4 ip, Udp port, QuicV1, P2p peer]])) @
       on_some (quic6 e) (\<lambda>port. on_some (enr_ip6 e) (\<lambda>ip6. [[Ip6 ip6, Udp port, QuicV1, P2p peer]])))
       (enr_peer_id L e)"

definition multiaddr_tcp :: "enr \<Rightarrow> multiaddr list" where
  "multiaddr_tcp e =
     on_some (enr_ip4 e) (\<lambda>ip. on_some (enr_tcp4 e) (\<lambda>tcp. [[Ip4 ip, Tcp tcp]])) @
     on_some (enr_ip6 e) (\<lambda>ip6. on_some (enr_tcp6 e) (\<lambda>tcp6. [[Ip6 ip6, Tcp tcp6]]))"

text \<open>A key pair is named by its public key.\<close>

fun from_libp2p :: "libp2p_key \<Rightarrow> combined_public_key res" where
  "from_libp2p (LibSecp256k1 pk) = Ok (Secp256k1Key pk)"
| "from_libp2p (LibEd25519 pk) = Ok (Ed25519Key pk)"
| "from_libp2p LibOther = Err UnsupportedKeyType"

fun from_secp256k1 :: "bytes \<Rightarrow> combined_public_key" where
  "from_secp256k1 pk = Secp256k1Key pk"

definition peer_id_to_node_id :: "p2p_lib \<Rightarrow> peer_id \<Rightarrow> bytes res" where
  "peer_id_to_node_id L peer =
     (if length peer < 2 then Panic SliceOutOfRange
      else
        and_then (ok_or (decode_protobuf L (drop 2 peer)) DecodeFailed) (\<lambda>public_key.
        case public_key of
          LibSecp256k1 pk \<Rightarrow> Ok (keccak256 L (tl (secp_uncompressed L pk)))
        | LibEd25519 pk \<Rightarrow> Ok (keccak256 L pk)
        | LibOther \<Rightarrow> Err UnsupportedKeyType))"

section \<open>Discovery\<close>

record discovery_config =
  dc_enabled :: bool
  udp_port :: u16
  libp2p_port :: u16
  listen_address :: ip_addr
  dc_bootnodes :: "enr list"

definition discovery_config_new :: "ip_addr \<Rightarrow> u16 \<Rightarrow> u16 \<Rightarrow> discovery_config" where
  "discovery_config_new ip udp port =
     \<lparr>dc_enabled = True, udp_port = udp, libp2p_port = port, listen_address = ip, dc_bootnodes = []\<rparr>"

definition with_bootnodes :: "enr list \<Rightarrow> discovery_config \<Rightarrow> discovery_config" where
  "with_bootnodes es c = c\<lparr>dc_bootnodes := es\<rparr>"

definition discovery_config_disabled :: discovery_config where
  "discovery_config_disabled =
     \<lparr>dc_enabled = False, udp_port = 0, libp2p_port = 0, listen_address = V4 0, dc_bootnodes = []\<rparr>"

text \<open>Only secp256k1 keys can sign the local record.\<close>

fun keypair_to_enr_key :: "libp2p_key \<Rightarrow> combined_public_key res" where
  "keypair_to_enr_key (LibSecp256k1 pk) = Ok (Secp256k1Key pk)"
| "keypair_to_enr_key _ = Err UnsupportedKeyType"

text \<open>The builder fails if the record does not fit, which \<open>fits\<close> decides.\<close>

definition build_enr :: "(enr \<Rightarrow> bool) \<Rightarrow> combined_public_key \<Rightarrow> ip_addr \<Rightarrow> u16 \<Rightarrow> u16 \<Rightarrow> enr res" where
  "build_enr fits key ip udp port =
     (let e = \<lparr>enr_ip4 = None, enr_udp4 = None, enr_tcp4 = None, enr_quic4 = None,
               enr_ip6 = None, enr_udp6 = None, enr_tcp6 = None, enr_quic6 = None, enr_public_key = key\<rparr>;
          e' = (case ip of
                  V4 ipv4 \<Rightarrow> e\<lparr>enr_ip4 := Some ipv4, enr_udp4 := Some udp, enr_tcp4 := Some port\<rparr>
                | V6 ipv6 \<Rightarrow> e\<lparr>enr_ip6 := Some ipv6, enr_udp6 := Some udp, enr_tcp6 := Some port\<rparr>) in
      if fits e' then Ok e' else Err EnrBuildFailed)"

text \<open>
  The discovery service: its local record and the records given to discv5.  Whether discv5 can be created for
  a record, accepts a bootnode and starts is up to the library.
\<close>

record discv5_lib =
  enr_fits :: "enr \<Rightarrow> bool"
  discv5_creates :: "enr \<Rightarrow> bool"
  discv5_accepts :: "enr \<Rightarrow> bool"
  discv5_starts :: "enr \<Rightarrow> bool"

record discovery_service =
  local_enr :: enr
  known_enrs :: "enr list"

definition discovery_service_new :: "discv5_lib \<Rightarrow> discovery_config \<Rightarrow> libp2p_key \<Rightarrow> discovery_service res" where
  "discovery_service_new D c keypair =
     and_then (keypair_to_enr_key keypair) (\<lambda>enr_key.
     and_then (build_enr (enr_fits D) enr_key (listen_address c) (udp_port c) (libp2p_port c)) (\<lambda>e.
     if \<not> discv5_creates D e then Err Discv5Failed
     else
       let known = filter (discv5_accepts D) (dc_bootnodes c) in
       if \<not> discv5_starts D e then Err Discv5Failed
       else Ok \<lparr>local_enr = e, known_enrs = known\<rparr>))"

fun enr_to_peer_id :: "p2p_lib \<Rightarrow> combined_public_key \<Rightarrow> peer_id option" where
  "enr_to_peer_id L (Secp256k1Key pk) =
     (if secp_key_valid L pk then Some (peer_id_from_key L (LibSecp256k1 pk)) else None)"
| "enr_to_peer_id L (Ed25519Key pk) = None"

definition or_else :: "'a option \<Rightarrow> 'a option \<Rightarrow> 'a option" where
  "or_else x y = (case x of None \<Rightarrow> y | Some a \<Rightarrow> Some a)"

definition enr_to_multiaddr :: "p2p_lib \<Rightarrow> enr \<Rightarrow> multiaddr option" where
  "enr_to_multiaddr L e =
     Option.bind (or_else (map_option V4 (enr_ip4 e)) (map_option V6 (enr_ip6 e))) (\<lambda>ip.
     Option.bind (or_else (or_else (or_else (enr_tcp4 e) (enr_tcp6 e)) (quic4 e)) (quic6 e)) (\<lambda>port.
     Option.bind (enr_to_peer_id L (enr_public_key e)) (\<lambda>peer.
     Some (addr_of_ip ip @ [Udp port, QuicV1, P2p peer]))))"

definition parse_enr :: "p2p_lib \<Rightarrow> string \<Rightarrow> enr res" where
  "parse_enr L s = ok_or (parse_enr_text L s) EnrParseFailed"

datatype discv5_event = Discovered enr | SocketUpdated | SessionEstablished enr | TalkRequest | NodeInserted | OtherEvent

text \<open>\<^verbatim>\<open>recv\<close>: the next discovered record of the event stream, and what is left of the stream.\<close>

fun discovery_recv :: "discv5_event list \<Rightarrow> enr option \<times> discv5_event list" where
  "discovery_recv [] = (None, [])"
| "discovery_recv (Discovered e # es) = (Some e, es)"
| "discovery_recv (_ # es) = discovery_recv es"

text \<open>
  \<^verbatim>\<open>find_random_peers\<close> starts a lookup of a random node id, which is the result here; the records that the lookup
  finds arrive as events.  \<open>random_bytes\<close> draws that many bytes.
\<close>

definition generate_random_node_id :: "(nat \<Rightarrow> bytes) \<Rightarrow> bytes" where
  "generate_random_node_id random_bytes = random_bytes 32"

definition find_random_peers :: "(nat \<Rightarrow> bytes) \<Rightarrow> discovery_service \<Rightarrow> bytes" where
  "find_random_peers random_bytes d = generate_random_node_id random_bytes"

section \<open>Bootnodes\<close>

datatype bootnode = BootMultiaddr multiaddr | BootEnr enr

definition starts_with :: "string \<Rightarrow> string \<Rightarrow> bool" where
  "starts_with s prefix \<longleftrightarrow> take (length prefix) s = prefix"

definition bootnode_parse :: "p2p_lib \<Rightarrow> string \<Rightarrow> bootnode option" where
  "bootnode_parse L s =
     (if starts_with s ''enr:'' then
        (case parse_enr L s of Ok e \<Rightarrow> Some (BootEnr e) | _ \<Rightarrow> None)
      else map_option BootMultiaddr (parse_multiaddr L s))"

fun bootnode_to_multiaddr :: "p2p_lib \<Rightarrow> bootnode \<Rightarrow> multiaddr option" where
  "bootnode_to_multiaddr L (BootMultiaddr addr) = Some addr"
| "bootnode_to_multiaddr L (BootEnr e) = enr_to_multiaddr L e"

fun as_enr :: "bootnode \<Rightarrow> enr option" where
  "as_enr (BootEnr e) = Some e"
| "as_enr (BootMultiaddr addr) = None"

record static_bootnodes =
  multiaddrs :: "multiaddr list"
  enrs :: "enr list"

fun add_bootnode :: "p2p_lib \<Rightarrow> bootnode \<Rightarrow> static_bootnodes \<Rightarrow> static_bootnodes" where
  "add_bootnode L (BootMultiaddr addr) b = b\<lparr>multiaddrs := multiaddrs b @ [addr]\<rparr>"
| "add_bootnode L (BootEnr e) b =
     (let b' = (case enr_to_multiaddr L e of Some addr \<Rightarrow> b\<lparr>multiaddrs := multiaddrs b @ [addr]\<rparr> | None \<Rightarrow> b) in
      b'\<lparr>enrs := enrs b' @ [e]\<rparr>)"

definition static_bootnodes_new :: "p2p_lib \<Rightarrow> bootnode list \<Rightarrow> static_bootnodes" where
  "static_bootnodes_new L bs = fold (add_bootnode L) bs \<lparr>multiaddrs = [], enrs = []\<rparr>"

definition static_bootnodes_parse :: "p2p_lib \<Rightarrow> string list \<Rightarrow> static_bootnodes" where
  "static_bootnodes_parse L strs = static_bootnodes_new L (List.map_filter (bootnode_parse L) strs)"

text \<open>\<^verbatim>\<open>parse_bootnode_argument\<close> of \<^verbatim>\<open>network/service.rs\<close>: an address, a record, or a file with a list of both.\<close>

definition parse_bootnode_argument :: "p2p_lib \<Rightarrow> string \<Rightarrow> bootnode list" where
  "parse_bootnode_argument L arg =
     (case parse_multiaddr L arg of
        Some addr \<Rightarrow> [BootMultiaddr addr]
      | None \<Rightarrow>
          (case parse_enr_text L arg of
             Some e \<Rightarrow> [BootEnr e]
           | None \<Rightarrow>
               (case read_bootnode_file L arg of
                  None \<Rightarrow> []
                | Some bs \<Rightarrow> map (\<lambda>b. case b of Inl addr \<Rightarrow> BootMultiaddr addr | Inr e \<Rightarrow> BootEnr e) bs)))"

section \<open>What the bootnodes are\<close>

lemma static_bootnodes_new_eq:
  "multiaddrs (static_bootnodes_new L bs) = List.map_filter (bootnode_to_multiaddr L) bs"
  "enrs (static_bootnodes_new L bs) = List.map_filter as_enr bs"
proof -
  have "multiaddrs (fold (add_bootnode L) bs b) = multiaddrs b @ List.map_filter (bootnode_to_multiaddr L) bs \<and>
      enrs (fold (add_bootnode L) bs b) = enrs b @ List.map_filter as_enr bs" for b
  proof (induction bs arbitrary: b)
    case (Cons x xs)
    then show ?case by (cases x) (auto simp: map_filter_simps Let_def split: option.split)
  qed (simp add: map_filter_simps)
  from this[of "\<lparr>multiaddrs = [], enrs = []\<rparr>"]
  show "multiaddrs (static_bootnodes_new L bs) = List.map_filter (bootnode_to_multiaddr L) bs"
    "enrs (static_bootnodes_new L bs) = List.map_filter as_enr bs"
    by (simp_all add: static_bootnodes_new_def)
qed

section \<open>Properties\<close>

text \<open>
  A node can be dialled at its own record.  The record \<^verbatim>\<open>build_enr\<close> makes for an address and ports is turned by
  \<^verbatim>\<open>enr_to_multiaddr\<close> into the QUIC address at the libp2p port, with the peer id of the key; it has no
  QUIC entry of its own, so \<^verbatim>\<open>multiaddr_quic\<close> finds no address.
\<close>

theorem local_record_dialable:
  assumes "build_enr fits (Secp256k1Key pk) ip udp port = Ok e" and "secp_key_valid L pk"
  shows "enr_to_multiaddr L e = Some (addr_of_ip ip @ [Udp port, QuicV1, P2p (peer_id_from_key L (LibSecp256k1 pk))]) \<and>
    multiaddr_quic L e = Ok [] \<and>
    multiaddr_p2p_udp L e = Ok [addr_of_ip ip @ [Udp udp, P2p (peer_id_from_key L (LibSecp256k1 pk))]]"
  using assms
  by (cases ip)
     (auto simp: build_enr_def enr_to_multiaddr_def or_else_def Let_def multiaddr_quic_def multiaddr_p2p_udp_def
       quic4_def quic6_def on_some_def enr_peer_id_def map_res_def split: if_splits)

definition sample_p2p :: p2p_lib where
  "sample_p2p = \<lparr>secp_key_valid = (\<lambda>k. True), ed_key_valid = (\<lambda>k. True),
     peer_id_from_key = (\<lambda>k. case k of LibSecp256k1 b \<Rightarrow> 0 # b | LibEd25519 b \<Rightarrow> 1 # b | LibOther \<Rightarrow> []),
     decode_protobuf = (\<lambda>b. Some (LibSecp256k1 b)), secp_uncompressed = (\<lambda>b. b), keccak256 = (\<lambda>b. b),
     parse_multiaddr = (\<lambda>s. None), parse_enr_text = (\<lambda>s. None), read_bootnode_file = (\<lambda>s. None)\<rparr>"

theorem local_record_dialable_witness:
  "\<exists>e. build_enr (\<lambda>e. True) (Secp256k1Key [9]) (V4 7) 9000 9001 = Ok e \<and>
    enr_to_multiaddr sample_p2p e = Some [Ip4 7, Udp 9001, QuicV1, P2p [0, 9]]"
proof -
  obtain e where e: "build_enr (\<lambda>e. True) (Secp256k1Key [9]) (V4 7) 9000 9001 = Ok e"
    by (simp add: build_enr_def)
  have "secp_key_valid sample_p2p [9]" by (simp add: sample_p2p_def)
  from local_record_dialable[OF e this] e show ?thesis by (simp add: sample_p2p_def)
qed

section \<open>Keys\<close>

text \<open>
  A converted key has the peer id of the libp2p key, and the key of the local record is the converted key; discovery
  does not take the Ed25519 keys that \<^verbatim>\<open>from_libp2p\<close> converts.
\<close>

lemma from_libp2p_peer_id:
  "from_libp2p key = Ok k \<Longrightarrow> as_peer_id L k = Ok peer \<Longrightarrow> peer = peer_id_from_key L key"
  by (cases key) (auto split: if_splits)

lemma keypair_to_enr_key_Ok:
  "keypair_to_enr_key key = Ok k \<longleftrightarrow> from_libp2p key = Ok k \<and> (\<exists>pk. k = from_secp256k1 pk)"
  by (cases key) auto

section \<open>Mixed records\<close>

text \<open>
  A record with an IPv4 address and a TCP port for IPv6 only: address and port are chosen independently, and
  the result joins the IPv4 address with the IPv6 port.
\<close>

lemma enr_to_multiaddr_mixes_families:
  "enr_to_multiaddr sample_p2p \<lparr>enr_ip4 = Some 7, enr_udp4 = None, enr_tcp4 = None, enr_quic4 = Some (Some 9000),
     enr_ip6 = Some 8, enr_udp6 = None, enr_tcp6 = Some 9001, enr_quic6 = None, enr_public_key = Secp256k1Key [9]\<rparr> =
   Some [Ip4 7, Udp 9001, QuicV1, P2p [0, 9]]"
  by (simp add: enr_to_multiaddr_def or_else_def sample_p2p_def)

text \<open>The addresses with a peer id are those for TCP and UDP, and a QUIC address is a plain one with the peer id added.\<close>

lemma set_on_some: "y \<in> set (on_some x f) \<longleftrightarrow> (\<exists>a. x = Some a \<and> y \<in> set (f a))"
  by (cases x) (auto simp: on_some_def)

lemma multiaddr_p2p_parts:
  assumes "enr_peer_id L e = Ok peer" and "multiaddr_p2p L e = Ok all" and "multiaddr_p2p_tcp L e = Ok tcp"
    and "multiaddr_p2p_udp L e = Ok udp" and "multiaddr_quic L e = Ok quic"
  shows "set all = set tcp \<union> set udp" and "set tcp = (\<lambda>a. a @ [P2p peer]) ` set (multiaddr_tcp e)"
    and "set quic = (\<lambda>a. a @ [P2p peer]) ` {a \<in> set (enr_multiaddr e). QuicV1 \<in> set a}"
proof -
  note eqs = assms(2-5)[unfolded multiaddr_p2p_def multiaddr_p2p_tcp_def multiaddr_p2p_udp_def multiaddr_quic_def
      assms(1) map_res_def and_then.simps, symmetric]
  show "set all = set tcp \<union> set udp"
    using eqs(1-3) by (intro set_eqI) (auto simp: set_on_some)
  show "set tcp = (\<lambda>a. a @ [P2p peer]) ` set (multiaddr_tcp e)"
    using eqs(2) by (intro set_eqI) (auto simp: set_on_some multiaddr_tcp_def image_iff)
  show "set quic = (\<lambda>a. a @ [P2p peer]) ` {a \<in> set (enr_multiaddr e). QuicV1 \<in> set a}"
    using eqs(4) by (intro set_eqI) (auto simp: set_on_some enr_multiaddr_def image_iff)
qed

end
