(* ===== verification/Req_Resp.thy ===== *)
theory Req_Resp
  imports Gossip
begin

text \<open>
  \<^verbatim>\<open>networking/src/req_resp.rs\<close>: the codecs of the request/response protocols.  A stream is the list of bytes
  that is read to its end or written and closed.  The trait \<^verbatim>\<open>Codec\<close> is the locale \<open>codec\<close>; both
  codecs of the source interpret it.  Snappy framing and the SSZ encoders are arguments.
\<close>

section \<open>Requests and responses\<close>

record snappy =
  frame_compress :: "bytes \<Rightarrow> bytes option"
  frame_decompress :: "bytes \<Rightarrow> bytes option"

definition max_request_blocks :: nat where
  "max_request_blocks = 1024"

definition status_protocol_v1 :: string where
  "status_protocol_v1 = ''/leanconsensus/req/status/1/ssz_snappy''"

definition blocks_by_root_protocol_v1 :: string where
  "blocks_by_root_protocol_v1 = ''/leanconsensus/req/blocks_by_root/1/ssz_snappy''"

datatype lean_request = StatusRequest status | BlocksByRootRequest "h256 list"

datatype lean_response = StatusResponse status | BlocksByRootResponse "signed_block_with_attestation list" | Empty

definition compress :: "snappy \<Rightarrow> bytes \<Rightarrow> bytes res" where
  "compress S data = ok_or (frame_compress S data) SnappyFailed"

definition decompress :: "snappy \<Rightarrow> bytes \<Rightarrow> bytes res" where
  "decompress S data = ok_or (frame_decompress S data) SnappyFailed"

text \<open>\<^verbatim>\<open>H256\<close> is 32 bytes, most significant first.\<close>

definition h256_bytes :: "h256 \<Rightarrow> bytes" where
  "h256_bytes r = map (\<lambda>i. ucast (drop_bit (8 * (31 - i)) r)) [0..<32]"

definition h256_from_bytes :: "bytes \<Rightarrow> h256" where
  "h256_from_bytes bs = foldl (\<lambda>r b. 256 * r + ucast b) 0 bs"

definition contains_str :: "string \<Rightarrow> string \<Rightarrow> bool" where
  "contains_str s needle \<longleftrightarrow> list_ex (\<lambda>i. take (length needle) (drop i s) = needle) [0..<Suc (length s)]"

fun chunks :: "nat \<Rightarrow> bytes \<Rightarrow> bytes list" where
  "chunks n bs = (if bs = [] \<or> n = 0 then [] else take n bs # chunks n (drop n bs))"

declare chunks.simps [simp del]

definition encode_request :: "ssz_codec \<Rightarrow> snappy \<Rightarrow> lean_request \<Rightarrow> bytes res" where
  "encode_request C S request =
     and_then (case request of
         StatusRequest st \<Rightarrow> ok_or (status_to_ssz C st) SszEncodeFailed
       | BlocksByRootRequest roots \<Rightarrow> Ok (concat (map h256_bytes roots)))
       (compress S)"

definition decode_request :: "ssz_codec \<Rightarrow> snappy \<Rightarrow> string \<Rightarrow> bytes \<Rightarrow> lean_request res" where
  "decode_request C S protocol data =
     (if data = [] then Ok (StatusRequest status_default)
      else
        and_then (decompress S data) (\<lambda>ssz_bytes.
        if contains_str protocol ''status'' then
          map_res StatusRequest (ok_or (status_from_ssz C ssz_bytes) SszDecodeFailed)
        else if contains_str protocol ''blocks_by_root'' then
          let roots = map h256_from_bytes (filter (\<lambda>chunk. length chunk = 32) (chunks 32 ssz_bytes)) in
          if length roots > max_request_blocks then Err TooManyBlockRoots else Ok (BlocksByRootRequest roots)
        else Err UnknownProtocol))"

definition encode_response :: "ssz_codec \<Rightarrow> snappy \<Rightarrow> lean_response \<Rightarrow> bytes res" where
  "encode_response C S response =
     and_then (case response of
         StatusResponse st \<Rightarrow> ok_or (status_to_ssz C st) SszEncodeFailed
       | BlocksByRootResponse bs \<Rightarrow> map_res concat (map_collect (\<lambda>b. ok_or (block_to_ssz C b) SszEncodeFailed) bs)
       | Empty \<Rightarrow> Ok [])
       (\<lambda>ssz_bytes. if ssz_bytes = [] then Ok [] else compress S ssz_bytes)"

definition decode_response :: "ssz_codec \<Rightarrow> snappy \<Rightarrow> string \<Rightarrow> bytes \<Rightarrow> lean_response res" where
  "decode_response C S protocol data =
     (if data = [] then Ok Empty
      else
        and_then (decompress S data) (\<lambda>ssz_bytes.
        if contains_str protocol ''status'' then
          map_res StatusResponse (ok_or (status_from_ssz C ssz_bytes) SszDecodeFailed)
        else if contains_str protocol ''blocks_by_root'' then
          if ssz_bytes = [] then Ok (BlocksByRootResponse [])
          else map_res (\<lambda>b. BlocksByRootResponse [b]) (ok_or (block_from_ssz C ssz_bytes) SszDecodeFailed)
        else Err UnknownProtocol))"

section \<open>The codecs\<close>

definition lean_read_request :: "ssz_codec \<Rightarrow> snappy \<Rightarrow> string \<Rightarrow> bytes \<Rightarrow> lean_request res" where
  "lean_read_request C S protocol io = decode_request C S protocol io"

definition lean_read_response :: "ssz_codec \<Rightarrow> snappy \<Rightarrow> string \<Rightarrow> bytes \<Rightarrow> lean_response res" where
  "lean_read_response C S protocol io = decode_response C S protocol io"

definition lean_write_request :: "ssz_codec \<Rightarrow> snappy \<Rightarrow> string \<Rightarrow> lean_request \<Rightarrow> bytes res" where
  "lean_write_request C S protocol request = encode_request C S request"

definition lean_write_response :: "ssz_codec \<Rightarrow> snappy \<Rightarrow> string \<Rightarrow> lean_response \<Rightarrow> bytes res" where
  "lean_write_response C S protocol response = encode_response C S response"

datatype generic_request = GenericRequest bytes
datatype generic_response = GenericResponse bytes

definition generic_read_request :: "string \<Rightarrow> bytes \<Rightarrow> generic_request res" where
  "generic_read_request protocol io = Ok (GenericRequest io)"

definition generic_read_response :: "string \<Rightarrow> bytes \<Rightarrow> generic_response res" where
  "generic_read_response protocol io = Ok (GenericResponse io)"

fun generic_write_request :: "string \<Rightarrow> generic_request \<Rightarrow> bytes res" where
  "generic_write_request protocol (GenericRequest data) = Ok data"

fun generic_write_response :: "string \<Rightarrow> generic_response \<Rightarrow> bytes res" where
  "generic_write_response protocol (GenericResponse data) = Ok data"

text \<open>A behaviour is given by the protocols it registers.\<close>

datatype protocol_support = InboundSupport | OutboundSupport | FullSupport

definition req_resp_build :: "string list \<Rightarrow> (string \<times> protocol_support) list" where
  "req_resp_build protocols = map (\<lambda>name. (name, FullSupport)) protocols"

definition build_default :: "(string \<times> protocol_support) list" where
  "build_default = req_resp_build [status_protocol_v1, blocks_by_root_protocol_v1]"

section \<open>The contract of a codec\<close>

text \<open>
  What is written can be read back.  \<open>fits\<close> says which messages a protocol is meant to carry.
\<close>

locale codec =
  fixes wr :: "string \<Rightarrow> 'm \<Rightarrow> bytes res" and rd :: "string \<Rightarrow> bytes \<Rightarrow> 'm res"
    and fits :: "string \<Rightarrow> 'm \<Rightarrow> bool"
  assumes rd_wr: "fits p m \<Longrightarrow> wr p m = Ok io \<Longrightarrow> rd p io = Ok m"
begin

lemma wr_inj: "fits p m \<Longrightarrow> fits p m' \<Longrightarrow> wr p m = Ok io \<Longrightarrow> wr p m' = Ok io \<Longrightarrow> m = m'"
  by (metis rd_wr res.inject(1))

end

interpretation generic_req: codec generic_write_request generic_read_request "\<lambda>p m. True"
proof
  fix p m io assume "generic_write_request p m = Ok io"
  then show "generic_read_request p io = Ok m" by (cases m) (simp add: generic_read_request_def)
qed

interpretation generic_resp: codec generic_write_response generic_read_response "\<lambda>p m. True"
proof
  fix p m io assume "generic_write_response p m = Ok io"
  then show "generic_read_response p io = Ok m" by (cases m) (simp add: generic_read_response_def)
qed

section \<open>Roots as bytes\<close>

lemma h256_prefix:
  fixes r :: h256
  assumes "n \<le> 32"
  shows "foldl (\<lambda>r b. 256 * r + ucast b) 0 (map (\<lambda>i. ucast (drop_bit (8 * (31 - i)) r) :: u8) [0..<n]) =
    drop_bit (8 * (32 - n)) r"
  using assms
proof (induction n)
  case 0
  have "drop_bit 256 r = 0" by (rule bit_word_eqI) (simp add: bit_simps)
  then show ?case by simp
next
  case (Suc n)
  let ?x = "drop_bit (8 * (31 - n)) r"
  have "8 * (32 - n) = 8 + 8 * (31 - n)" using Suc.prems by simp
  then have "drop_bit (8 * (32 - n)) r = drop_bit 8 ?x" by simp
  moreover have "256 * drop_bit 8 ?x + ucast (ucast ?x :: u8) = ?x"
  proof -
    have "(ucast (ucast ?x :: u8) :: h256) = take_bit 8 ?x" by (simp add: unsigned_ucast_eq)
    moreover have "256 * drop_bit 8 ?x + take_bit 8 ?x = ?x"
      using bits_ident[of 8 ?x] by (simp add: push_bit_eq_mult mult.commute)
    ultimately show ?thesis by simp
  qed
  ultimately show ?case using Suc by simp
qed

lemma h256_roundtrip: "h256_from_bytes (h256_bytes r) = r"
  using h256_prefix[of 32 r] by (simp add: h256_from_bytes_def h256_bytes_def)

lemma length_h256_bytes [simp]: "length (h256_bytes r) = 32"
  by (simp add: h256_bytes_def)

lemma chunks_roots: "chunks 32 (concat (map h256_bytes roots)) = map h256_bytes roots"
proof (induction roots)
  case (Cons r roots)
  have "h256_bytes r \<noteq> []" using length_h256_bytes[of r] by fastforce
  with Cons show ?case by (subst chunks.simps) simp
qed (simp add: chunks.simps)

section \<open>Round trips\<close>

text \<open>
  The documented behaviour of the libraries: decompressing and decoding invert compressing and
  encoding, and what is not empty is not compressed to nothing.
\<close>

definition lossless :: "ssz_codec \<Rightarrow> snappy \<Rightarrow> bool" where
  "lossless C S \<longleftrightarrow>
     (\<forall>d c. frame_compress S d = Some c \<longrightarrow> frame_decompress S c = Some d \<and> (d \<noteq> [] \<longrightarrow> c \<noteq> [])) \<and>
     (\<forall>st d. status_to_ssz C st = Some d \<longrightarrow> status_from_ssz C d = Some st \<and> d \<noteq> []) \<and>
     (\<forall>b d. block_to_ssz C b = Some d \<longrightarrow> block_from_ssz C d = Some b \<and> d \<noteq> [])"

text \<open>Which requests and responses a protocol carries.\<close>

fun request_fits :: "ssz_codec \<Rightarrow> snappy \<Rightarrow> string \<Rightarrow> lean_request \<Rightarrow> bool" where
  "request_fits C S p (StatusRequest st) \<longleftrightarrow> lossless C S \<and> p = status_protocol_v1"
| "request_fits C S p (BlocksByRootRequest roots) \<longleftrightarrow>
     lossless C S \<and> p = blocks_by_root_protocol_v1 \<and> roots \<noteq> [] \<and> length roots \<le> max_request_blocks"

fun response_fits :: "ssz_codec \<Rightarrow> snappy \<Rightarrow> string \<Rightarrow> lean_response \<Rightarrow> bool" where
  "response_fits C S p (StatusResponse st) \<longleftrightarrow> lossless C S \<and> p = status_protocol_v1"
| "response_fits C S p (BlocksByRootResponse bs) \<longleftrightarrow>
     lossless C S \<and> p = blocks_by_root_protocol_v1 \<and> length bs = 1"
| "response_fits C S p Empty \<longleftrightarrow> True"

lemma protocol_names:
  "contains_str status_protocol_v1 ''status''" "\<not> contains_str blocks_by_root_protocol_v1 ''status''"
  "contains_str blocks_by_root_protocol_v1 ''blocks_by_root''"
  by (simp_all add: contains_str_def status_protocol_v1_def blocks_by_root_protocol_v1_def upt_rec)

lemma filter_root_chunks: "filter (\<lambda>chunk. length chunk = 32) (map h256_bytes roots) = map h256_bytes roots"
  by (rule filter_True) auto

lemma concat_roots_nonempty: "roots \<noteq> [] \<Longrightarrow> concat (map h256_bytes roots) \<noteq> []"
  by (cases roots) (auto dest: arg_cong[where f = length])

interpretation lean_req: codec "lean_write_request C S" "lean_read_request C S" "request_fits C S" for C S
proof
  fix p r io assume fits: "request_fits C S p r" and wr: "lean_write_request C S p r = Ok io"
  show "lean_read_request C S p io = Ok r"
  proof (cases r)
    case (StatusRequest st)
    with wr obtain d where "status_to_ssz C st = Some d" "frame_compress S d = Some io"
      by (auto simp: lean_write_request_def encode_request_def compress_def)
    with fits StatusRequest show ?thesis
      by (auto simp: lean_read_request_def decode_request_def lossless_def decompress_def map_res_def protocol_names)
  next
    case (BlocksByRootRequest roots)
    with wr have "frame_compress S (concat (map h256_bytes roots)) = Some io"
      by (auto simp: lean_write_request_def encode_request_def compress_def)
    with fits BlocksByRootRequest concat_roots_nonempty[of roots] show ?thesis
      by (auto simp: lean_read_request_def decode_request_def lossless_def decompress_def protocol_names
          chunks_roots filter_root_chunks h256_roundtrip comp_def Let_def)
  qed
qed

interpretation lean_resp: codec "lean_write_response C S" "lean_read_response C S" "response_fits C S" for C S
proof
  fix p r io assume fits: "response_fits C S p r" and wr: "lean_write_response C S p r = Ok io"
  show "lean_read_response C S p io = Ok r"
  proof (cases r)
    case (StatusResponse st)
    with wr fits obtain d where "status_to_ssz C st = Some d" "d \<noteq> []" "frame_compress S d = Some io"
      by (auto simp: lean_write_response_def encode_response_def compress_def lossless_def split: if_splits)
    with fits StatusResponse show ?thesis
      by (auto simp: lean_read_response_def decode_response_def lossless_def decompress_def map_res_def protocol_names)
  next
    case (BlocksByRootResponse bs)
    with fits obtain b where b: "bs = [b]" by (auto simp: length_Suc_conv)
    with wr fits BlocksByRootResponse obtain d where "block_to_ssz C b = Some d" "d \<noteq> []" "frame_compress S d = Some io"
      by (auto simp: lean_write_response_def encode_response_def compress_def lossless_def split: if_splits)
    with fits BlocksByRootResponse b show ?thesis
      by (auto simp: lean_read_response_def decode_response_def lossless_def decompress_def map_res_def protocol_names)
  next
    case Empty
    with wr show ?thesis by (auto simp: lean_write_response_def encode_response_def lean_read_response_def decode_response_def)
  qed
qed

section \<open>Properties\<close>

text \<open>
  C30: requests and responses survive the wire.  A status, a non-empty list of at most 1024 block roots, a single
  block and the empty response are read back as they were written, on the protocol they belong to,
  given lossless libraries.
\<close>

theorem req_resp_roundtrip:
  "(request_fits C S p r \<and> lean_write_request C S p r = Ok io \<longrightarrow> lean_read_request C S p io = Ok r) \<and>
   (response_fits C S p q \<and> lean_write_response C S p q = Ok io' \<longrightarrow> lean_read_response C S p io' = Ok q)"
  using lean_req.rd_wr lean_resp.rd_wr by blast

text \<open>A library that is lossless: a byte is put before the data.\<close>

definition sample_ssz :: ssz_codec where
  "sample_ssz = \<lparr>block_to_ssz = (\<lambda>b. None), block_from_ssz = (\<lambda>d. None), attestation_to_ssz = (\<lambda>a. None),
     attestation_from_ssz = (\<lambda>d. None),
     status_to_ssz = (\<lambda>st. if st = status_default then Some [0] else None),
     status_from_ssz = (\<lambda>d. Some status_default)\<rparr>"

definition sample_snappy :: snappy where
  "sample_snappy = \<lparr>frame_compress = (\<lambda>d. Some (if d = [] then [] else 255 # d)),
     frame_decompress = (\<lambda>c. Some (tl c))\<rparr>"

theorem req_resp_roundtrip_witness:
  "lean_read_request sample_ssz sample_snappy blocks_by_root_protocol_v1 (255 # h256_bytes 5 @ h256_bytes 7) =
    Ok (BlocksByRootRequest [5, 7])"
proof -
  have "lossless sample_ssz sample_snappy" by (simp add: lossless_def sample_ssz_def sample_snappy_def)
  then have "request_fits sample_ssz sample_snappy blocks_by_root_protocol_v1 (BlocksByRootRequest [5, 7])"
    by (simp add: max_request_blocks_def)
  moreover have "h256_bytes 5 \<noteq> []" by (auto dest: arg_cong[where f = length])
  then have "lean_write_request sample_ssz sample_snappy blocks_by_root_protocol_v1 (BlocksByRootRequest [5, 7]) =
      Ok (255 # h256_bytes 5 @ h256_bytes 7)"
    by (simp add: lean_write_request_def encode_request_def compress_def sample_snappy_def)
  ultimately show ?thesis
    using req_resp_roundtrip[of sample_ssz sample_snappy blocks_by_root_protocol_v1 "BlocksByRootRequest [5, 7]"
        "255 # h256_bytes 5 @ h256_bytes 7"] by blast
qed

text \<open>A library with blocks: one byte for the slot of a block that is empty otherwise.\<close>

definition wire_block :: "u8 \<Rightarrow> signed_block_with_attestation" where
  "wire_block x = \<lparr>sb_message = \<lparr>bwa_block = \<lparr>b_slot = ucast x, b_proposer_index = 0, b_parent_root = 0, b_state_root = 0,
       b_body = \<lparr>attestations = []\<rparr>\<rparr>,
       bwa_proposer_attestation = \<lparr>att_validator_id = 0, att_data = data_at (ucast x)\<rparr>\<rparr>,
     sb_signature = \<lparr>attestation_signatures = [], proposer_signature = signature_default\<rparr>\<rparr>"

definition wire_ssz :: ssz_codec where
  "wire_ssz = sample_ssz
     \<lparr>block_to_ssz := (\<lambda>sb. let x = ucast (b_slot (bwa_block (sb_message sb))) in
         if sb = wire_block x then Some [x] else None),
      block_from_ssz := (\<lambda>d. case d of [x] \<Rightarrow> Some (wire_block x) | _ \<Rightarrow> None)\<rparr>"

lemma wire_block_byte [simp]: "ucast (b_slot (bwa_block (sb_message (wire_block x)))) = (x :: u8)"
proof -
  have "(ucast (ucast x :: u64) :: u8) = x" by (rule bit_word_eqI) (simp add: bit_simps)
  then show ?thesis by (simp add: wire_block_def)
qed

lemma wire_ssz_lossless: "lossless wire_ssz sample_snappy"
  by (auto simp: lossless_def wire_ssz_def sample_ssz_def sample_snappy_def Let_def split: if_splits)

text \<open>
  C40: limits of the codec.  A decoded request never asks for more than 1024 blocks; a decoded response never
  holds more than one block, so a response with several blocks is not read back whatever the
  libraries do.  What is read of a response, given lossless libraries, is the one block that the concatenated
  encodings of its blocks decode to, or an error when they do not decode to a block.  An empty request is a status
  request on every protocol.
\<close>

theorem req_resp_limits:
  "(decode_request C S p d = Ok (BlocksByRootRequest roots) \<longrightarrow> length roots \<le> max_request_blocks) \<and>
   (decode_response C S p d = Ok (BlocksByRootResponse bs) \<longrightarrow> length bs \<le> 1) \<and>
   (length bs' \<ge> 2 \<and> lean_write_response C S p (BlocksByRootResponse bs') = Ok io \<longrightarrow>
      lean_read_response C S p io \<noteq> Ok (BlocksByRootResponse bs')) \<and>
   (lossless C S \<and> p = blocks_by_root_protocol_v1 \<and> bs' \<noteq> [] \<and>
      lean_write_response C S p (BlocksByRootResponse bs') = Ok io \<longrightarrow>
      (\<exists>es. list_all2 (\<lambda>b e. block_to_ssz C b = Some e) bs' es \<and> lean_read_response C S p io =
        (case block_from_ssz C (concat es) of
           Some b \<Rightarrow> Ok (BlocksByRootResponse [b]) | None \<Rightarrow> Err SszDecodeFailed))) \<and>
   decode_request C S p [] = Ok (StatusRequest status_default)"
proof (intro conjI impI)
  assume a: "lossless C S \<and> p = blocks_by_root_protocol_v1 \<and> bs' \<noteq> [] \<and>
      lean_write_response C S p (BlocksByRootResponse bs') = Ok io"
  then obtain es where es: "list_all2 (\<lambda>b e. block_to_ssz C b = Some e) bs' es"
    and io: "(if concat es = [] then Ok [] else compress S (concat es)) = Ok io"
    by (auto simp: lean_write_response_def encode_response_def map_collect_Ok elim!: list_all2_mono)
  have "concat es \<noteq> []" using es a by (cases bs') (auto simp: list_all2_Cons1 lossless_def)
  then have "frame_compress S (concat es) = Some io" using io by (simp only: if_False compress_def ok_or_Ok)
  with a \<open>concat es \<noteq> []\<close> have "frame_decompress S io = Some (concat es)" "io \<noteq> []" by (auto simp: lossless_def)
  with a \<open>concat es \<noteq> []\<close> have "lean_read_response C S p io = (case block_from_ssz C (concat es) of
      Some b \<Rightarrow> Ok (BlocksByRootResponse [b]) | None \<Rightarrow> Err SszDecodeFailed)"
    by (simp add: lean_read_response_def decode_response_def decompress_def protocol_names map_res_def
        split: option.split del: concat_eq_Nil_conv)
  with es show "\<exists>es. list_all2 (\<lambda>b e. block_to_ssz C b = Some e) bs' es \<and> lean_read_response C S p io =
        (case block_from_ssz C (concat es) of
           Some b \<Rightarrow> Ok (BlocksByRootResponse [b]) | None \<Rightarrow> Err SszDecodeFailed)" by blast
qed (auto simp: decode_request_def decode_response_def lean_read_response_def Let_def split: if_splits)

theorem req_resp_limits_witness:
  "decode_request wire_ssz sample_snappy blocks_by_root_protocol_v1 (255 # h256_bytes 5 @ h256_bytes 7) =
     Ok (BlocksByRootRequest [5, 7]) \<and> length [5, 7 :: h256] \<le> max_request_blocks \<and>
   decode_response wire_ssz sample_snappy blocks_by_root_protocol_v1 [255, 3] = Ok (BlocksByRootResponse [wire_block 3]) \<and>
   length [wire_block 3] \<le> 1 \<and>
   lean_write_response wire_ssz sample_snappy blocks_by_root_protocol_v1 (BlocksByRootResponse [wire_block 3, wire_block 4]) =
     Ok [255, 3, 4] \<and>
   lean_read_response wire_ssz sample_snappy blocks_by_root_protocol_v1 [255, 3, 4] \<noteq>
     Ok (BlocksByRootResponse [wire_block 3, wire_block 4]) \<and>
   lean_read_response wire_ssz sample_snappy blocks_by_root_protocol_v1 [255, 3, 4] = Err SszDecodeFailed"
proof -
  let ?p = blocks_by_root_protocol_v1 and ?bs = "[wire_block 3, wire_block 4]"
  have to: "block_to_ssz wire_ssz (wire_block x) = Some [x]" for x by (simp add: wire_ssz_def Let_def)
  have ne: "h256_bytes 5 \<noteq> []" by (auto dest: arg_cong[where f = length])
  have req: "decode_request wire_ssz sample_snappy ?p (255 # h256_bytes 5 @ h256_bytes 7) = Ok (BlocksByRootRequest [5, 7])"
    using lean_req.rd_wr[of wire_ssz sample_snappy ?p "BlocksByRootRequest [5, 7]" "255 # h256_bytes 5 @ h256_bytes 7"]
      wire_ssz_lossless ne
    by (simp add: max_request_blocks_def lean_write_request_def encode_request_def compress_def sample_snappy_def
        lean_read_request_def)
  have one: "decode_response wire_ssz sample_snappy ?p [255, 3] = Ok (BlocksByRootResponse [wire_block 3])"
    by (simp add: decode_response_def decompress_def sample_snappy_def protocol_names wire_ssz_def map_res_def)
  have two: "lean_write_response wire_ssz sample_snappy ?p (BlocksByRootResponse ?bs) = Ok [255, 3, 4]"
    by (simp add: lean_write_response_def encode_response_def to map_res_def compress_def sample_snappy_def)
  note l = req_resp_limits[of wire_ssz sample_snappy ?p]
  have "length [5, 7 :: h256] \<le> max_request_blocks" using l req by blast
  moreover have "length [wire_block 3] \<le> 1" using l one by blast
  moreover have "lean_read_response wire_ssz sample_snappy ?p [255, 3, 4] \<noteq> Ok (BlocksByRootResponse ?bs)"
    using l[of _ _ _ ?bs "[255, 3, 4]"] two by simp
  moreover have "lean_read_response wire_ssz sample_snappy ?p [255, 3, 4] = Err SszDecodeFailed"
    using l[of _ _ _ ?bs "[255, 3, 4]"] two wire_ssz_lossless
    by (auto simp: list_all2_Cons1 to) (simp add: wire_ssz_def)
  ultimately show ?thesis using req one two by blast
qed

end
