(* ===== verification/Metrics.thy ===== *)
theory Metrics
  imports Prelude
begin

text \<open>
  The crate \<^verbatim>\<open>metrics\<close>: the 32 Prometheus metrics of the client, their registration, and the calls that set and
  count.  The library \<^verbatim>\<open>prometheus\<close> is a parameter: \<open>prometheus_laws\<close> states what its documentation promises
  of names, labels, the registry and the values.  Bounds of histogram buckets are written in thousandths.
\<close>

section \<open>The library\<close>

datatype metric_kind = GaugeVec | IntGauge | Histogram | IntCounter | IntCounterVec | IntGaugeVec

record metric_opts =
  mo_kind :: metric_kind
  mo_name :: string
  mo_help :: string
  mo_labels :: "string list"
  mo_buckets :: "nat list"

text \<open>
  A handle \<open>'m\<close> is a metric or one of the children of a metric with labels; \<open>'w\<close> is the state of the default
  registry with all values.
\<close>

record ('m, 'w) prometheus_lib =
  pm_new :: "metric_opts \<Rightarrow> 'm res"
  pm_register :: "'m \<Rightarrow> 'w \<Rightarrow> 'w res"
  pm_child :: "'m \<Rightarrow> string list \<Rightarrow> 'm res"
  pm_inc :: "'m \<Rightarrow> 'w \<Rightarrow> 'w"
  pm_set :: "'m \<Rightarrow> int \<Rightarrow> 'w \<Rightarrow> 'w"
  pm_record :: "'m \<Rightarrow> 'w \<Rightarrow> 'w"

definition gauge_vec :: "('m, 'w) prometheus_lib \<Rightarrow> string \<Rightarrow> string \<Rightarrow> string list \<Rightarrow> 'm res" where
  "gauge_vec P name help labels =
     pm_new P \<lparr>mo_kind = GaugeVec, mo_name = name, mo_help = help, mo_labels = labels, mo_buckets = []\<rparr>"

definition int_gauge :: "('m, 'w) prometheus_lib \<Rightarrow> string \<Rightarrow> string \<Rightarrow> 'm res" where
  "int_gauge P name help =
     pm_new P \<lparr>mo_kind = IntGauge, mo_name = name, mo_help = help, mo_labels = [], mo_buckets = []\<rparr>"

definition histogram :: "('m, 'w) prometheus_lib \<Rightarrow> string \<Rightarrow> string \<Rightarrow> nat list \<Rightarrow> 'm res" where
  "histogram P name help buckets =
     pm_new P \<lparr>mo_kind = Histogram, mo_name = name, mo_help = help, mo_labels = [], mo_buckets = buckets\<rparr>"

definition int_counter :: "('m, 'w) prometheus_lib \<Rightarrow> string \<Rightarrow> string \<Rightarrow> 'm res" where
  "int_counter P name help =
     pm_new P \<lparr>mo_kind = IntCounter, mo_name = name, mo_help = help, mo_labels = [], mo_buckets = []\<rparr>"

definition int_counter_vec :: "('m, 'w) prometheus_lib \<Rightarrow> string \<Rightarrow> string \<Rightarrow> string list \<Rightarrow> 'm res" where
  "int_counter_vec P name help labels =
     pm_new P \<lparr>mo_kind = IntCounterVec, mo_name = name, mo_help = help, mo_labels = labels, mo_buckets = []\<rparr>"

definition int_gauge_vec :: "('m, 'w) prometheus_lib \<Rightarrow> string \<Rightarrow> string \<Rightarrow> string list \<Rightarrow> 'm res" where
  "int_gauge_vec P name help labels =
     pm_new P \<lparr>mo_kind = IntGaugeVec, mo_name = name, mo_help = help, mo_labels = labels, mo_buckets = []\<rparr>"

section \<open>The metrics\<close>

record 'm metrics =
  lean_node_info :: 'm
  lean_node_start_time_seconds :: 'm
  lean_pq_signature_attestation_signing_time_seconds :: 'm
  lean_pq_signature_attestation_verification_time_seconds :: 'm
  lean_pq_sig_aggregated_signatures_total :: 'm
  lean_pq_sig_attestations_in_aggregated_signatures_total :: 'm
  lean_pq_sig_attestation_signatures_building_time_seconds :: 'm
  lean_pq_sig_aggregated_signatures_verification_time_seconds :: 'm
  lean_pq_sig_aggregated_signatures_valid_total :: 'm
  lean_pq_sig_aggregated_signatures_invalid_total :: 'm
  lean_head_slot :: 'm
  lean_current_slot :: 'm
  lean_safe_target_slot :: 'm
  lean_fork_choice_block_processing_time_seconds :: 'm
  lean_attestations_valid_total :: 'm
  lean_attestations_invalid_total :: 'm
  lean_attestation_validation_time_seconds :: 'm
  lean_fork_choice_reorgs_total :: 'm
  lean_fork_choice_reorg_depth :: 'm
  lean_latest_justified_slot :: 'm
  lean_latest_finalized_slot :: 'm
  lean_finalizations_total :: 'm
  lean_state_transition_time_seconds :: 'm
  lean_state_transition_slots_processed_total :: 'm
  lean_state_transition_slots_processing_time_seconds :: 'm
  lean_state_transition_block_processing_time_seconds :: 'm
  lean_state_transition_attestations_processed_total :: 'm
  lean_state_transition_attestations_processing_time_seconds :: 'm
  lean_validators_count :: 'm
  lean_connected_peers :: 'm
  lean_peer_connection_events_total :: 'm
  lean_peer_disconnection_events_total :: 'm

definition metrics_new :: "('m, 'w) prometheus_lib \<Rightarrow> 'm metrics res" where
  "metrics_new P =
     and_then (gauge_vec P ''lean_node_info'' ''Node information'' [''name'', ''version'']) (\<lambda>m1.
     and_then (int_gauge P ''lean_node_start_time_seconds'' ''Start timestamp'') (\<lambda>m2.
     and_then (histogram P ''lean_pq_signature_attestation_signing_time_seconds''
         ''Time taken to sign an attestation'' [5, 10, 25, 50, 100, 1000]) (\<lambda>m3.
     and_then (histogram P ''lean_pq_signature_attestation_verification_time_seconds''
         ''Time taken to verify an attestation signature'' [5, 10, 25, 50, 100, 1000]) (\<lambda>m4.
     and_then (int_counter P ''lean_pq_sig_aggregated_signatures_total''
         ''Total number of aggregated signatures'') (\<lambda>m5.
     and_then (int_counter P ''lean_pq_sig_attestations_in_aggregated_signatures_total''
         ''Total number of attestations included into aggregated signatures'') (\<lambda>m6.
     and_then (histogram P ''lean_pq_sig_attestation_signatures_building_time_seconds''
         ''Time taken to verify an aggregated attestation signature'' [5, 10, 25, 50, 100, 1000]) (\<lambda>m7.
     and_then (histogram P ''lean_pq_sig_aggregated_signatures_verification_time_seconds''
         ''Time taken to verify an aggregated attestation signature'' [5, 10, 25, 50, 100, 1000]) (\<lambda>m8.
     and_then (int_counter P ''lean_pq_sig_aggregated_signatures_valid_total''
         ''On validate aggregated signature'') (\<lambda>m9.
     and_then (int_counter P ''lean_pq_sig_aggregated_signatures_invalid_total''
         ''Total number of invalid aggregated signatures'') (\<lambda>m10.
     and_then (int_gauge P ''lean_head_slot'' ''Latest slot of the lean chain'') (\<lambda>m11.
     and_then (int_gauge P ''lean_current_slot'' ''Current slot of the lean chain'') (\<lambda>m12.
     and_then (int_gauge P ''lean_safe_target_slot'' ''Safe target slot'') (\<lambda>m13.
     and_then (histogram P ''lean_fork_choice_block_processing_time_seconds''
         ''Time taken to process block'' [5, 10, 25, 50, 100, 1000]) (\<lambda>m14.
     and_then (int_counter_vec P ''lean_attestations_valid_total''
         ''Total number of valid attestations'' [''source'']) (\<lambda>m15.
     and_then (int_counter_vec P ''lean_attestations_invalid_total''
         ''Total number of invalid attestations'' [''source'']) (\<lambda>m16.
     and_then (histogram P ''lean_attestation_validation_time_seconds''
         ''Time taken to validate attestation'' [5, 10, 25, 50, 100, 1000]) (\<lambda>m17.
     and_then (int_counter P ''lean_fork_choice_reorgs_total'' ''Total number of fork choice reorgs'') (\<lambda>m18.
     and_then (histogram P ''lean_fork_choice_reorg_depth''
         ''Depth of fork choice reorgs (in blocks)'' [1000, 2000, 3000, 5000, 7000, 10000, 20000, 30000, 50000, 100000]) (\<lambda>m19.
     and_then (int_gauge P ''lean_latest_justified_slot'' ''Latest justified slot'') (\<lambda>m20.
     and_then (int_gauge P ''lean_latest_finalized_slot'' ''Latest finalized slot'') (\<lambda>m21.
     and_then (int_counter_vec P ''lean_finalizations_total''
         ''Total number of finalization attempts'' [''result'']) (\<lambda>m22.
     and_then (histogram P ''lean_state_transition_time_seconds''
         ''Time to process state transition'' [250, 500, 750, 1000, 1250, 1500, 2000, 2500, 3000, 4000]) (\<lambda>m23.
     and_then (int_counter P ''lean_state_transition_slots_processed_total''
         ''Total number of processed slots'') (\<lambda>m24.
     and_then (histogram P ''lean_state_transition_slots_processing_time_seconds''
         ''Time taken to process slots'' [5, 10, 25, 50, 100, 1000]) (\<lambda>m25.
     and_then (histogram P ''lean_state_transition_block_processing_time_seconds''
         ''Time taken to process block'' [5, 10, 25, 50, 100, 1000]) (\<lambda>m26.
     and_then (int_counter P ''lean_state_transition_attestations_processed_total''
         ''Total number of processed attestations'') (\<lambda>m27.
     and_then (histogram P ''lean_state_transition_attestations_processing_time_seconds''
         '' Time taken to process attestations'' [5, 10, 25, 50, 100, 1000]) (\<lambda>m28.
     and_then (int_gauge P ''lean_validators_count'' ''Number of validators managed by a node'') (\<lambda>m29.
     and_then (int_gauge_vec P ''lean_connected_peers'' ''Number of connected peers'' [''client'']) (\<lambda>m30.
     and_then (int_counter_vec P ''lean_peer_connection_events_total''
         ''Total number of peer connection events'' [''direction'', ''result'']) (\<lambda>m31.
     and_then (int_counter_vec P ''lean_peer_disconnection_events_total''
         ''Total number of peer disconnection events'' [''direction'', ''reason'']) (\<lambda>m32.
     Ok \<lparr>lean_node_info = m1,
       lean_node_start_time_seconds = m2,
       lean_pq_signature_attestation_signing_time_seconds = m3,
       lean_pq_signature_attestation_verification_time_seconds = m4,
       lean_pq_sig_aggregated_signatures_total = m5,
       lean_pq_sig_attestations_in_aggregated_signatures_total = m6,
       lean_pq_sig_attestation_signatures_building_time_seconds = m7,
       lean_pq_sig_aggregated_signatures_verification_time_seconds = m8,
       lean_pq_sig_aggregated_signatures_valid_total = m9,
       lean_pq_sig_aggregated_signatures_invalid_total = m10,
       lean_head_slot = m11,
       lean_current_slot = m12,
       lean_safe_target_slot = m13,
       lean_fork_choice_block_processing_time_seconds = m14,
       lean_attestations_valid_total = m15,
       lean_attestations_invalid_total = m16,
       lean_attestation_validation_time_seconds = m17,
       lean_fork_choice_reorgs_total = m18,
       lean_fork_choice_reorg_depth = m19,
       lean_latest_justified_slot = m20,
       lean_latest_finalized_slot = m21,
       lean_finalizations_total = m22,
       lean_state_transition_time_seconds = m23,
       lean_state_transition_slots_processed_total = m24,
       lean_state_transition_slots_processing_time_seconds = m25,
       lean_state_transition_block_processing_time_seconds = m26,
       lean_state_transition_attestations_processed_total = m27,
       lean_state_transition_attestations_processing_time_seconds = m28,
       lean_validators_count = m29,
       lean_connected_peers = m30,
       lean_peer_connection_events_total = m31,
       lean_peer_disconnection_events_total = m32\<rparr>))))))))))))))))))))))))))))))))"

text \<open>The metrics in the order in which they are registered.\<close>

definition lean_metrics :: "'m metrics \<Rightarrow> 'm list" where
  "lean_metrics m =
       [lean_node_info m,
        lean_node_start_time_seconds m,
        lean_pq_signature_attestation_signing_time_seconds m,
        lean_pq_signature_attestation_verification_time_seconds m,
        lean_pq_sig_aggregated_signatures_total m,
        lean_pq_sig_attestations_in_aggregated_signatures_total m,
        lean_pq_sig_attestation_signatures_building_time_seconds m,
        lean_pq_sig_aggregated_signatures_verification_time_seconds m,
        lean_pq_sig_aggregated_signatures_valid_total m,
        lean_pq_sig_aggregated_signatures_invalid_total m,
        lean_head_slot m,
        lean_current_slot m,
        lean_safe_target_slot m,
        lean_fork_choice_block_processing_time_seconds m,
        lean_attestations_valid_total m,
        lean_attestations_invalid_total m,
        lean_attestation_validation_time_seconds m,
        lean_fork_choice_reorgs_total m,
        lean_fork_choice_reorg_depth m,
        lean_latest_justified_slot m,
        lean_latest_finalized_slot m,
        lean_finalizations_total m,
        lean_state_transition_time_seconds m,
        lean_state_transition_slots_processed_total m,
        lean_state_transition_slots_processing_time_seconds m,
        lean_state_transition_block_processing_time_seconds m,
        lean_state_transition_attestations_processed_total m,
        lean_state_transition_attestations_processing_time_seconds m,
        lean_validators_count m,
        lean_connected_peers m,
        lean_peer_connection_events_total m,
        lean_peer_disconnection_events_total m]"

definition register_with_default_metrics :: "('m, 'w) prometheus_lib \<Rightarrow> 'm metrics \<Rightarrow> 'w \<Rightarrow> 'w res" where
  "register_with_default_metrics P m = for_each (pm_register P) (lean_metrics m)"

definition set_client_version ::
  "('m, 'w) prometheus_lib \<Rightarrow> 'm metrics \<Rightarrow> string \<Rightarrow> string \<Rightarrow> 'w \<Rightarrow> 'w res" where
  "set_client_version P m name version w =
     map_res (\<lambda>child. pm_set P child 1 w) (expect (pm_child P (lean_node_info m) [name, version]) InconsistentLabels)"

text \<open>A \<^verbatim>\<open>SystemTime\<close> is a number of nanoseconds relative to the epoch; the gauge holds an \<^verbatim>\<open>i64\<close>.\<close>

definition set_start_time :: "('m, 'w) prometheus_lib \<Rightarrow> 'm metrics \<Rightarrow> int \<Rightarrow> 'w \<Rightarrow> 'w res" where
  "set_start_time P m timestamp w =
     (if timestamp < 0 then Err TimestampBeforeEpoch
      else
        let seconds = timestamp div 1000000000 in
        if seconds < 2 ^ 63 then Ok (pm_set P (lean_node_start_time_seconds m) seconds w)
        else Err TimestampTooLarge)"

definition direction_label :: "bool \<Rightarrow> string" where
  "direction_label is_inbound = (if is_inbound then ''inbound'' else ''outbound'')"

definition register_peer_connection_success ::
  "('m, 'w) prometheus_lib \<Rightarrow> 'm metrics \<Rightarrow> bool \<Rightarrow> 'w \<Rightarrow> 'w res" where
  "register_peer_connection_success P m is_inbound w =
     map_res (\<lambda>metric. pm_inc P metric w)
       (pm_child P (lean_peer_connection_events_total m) [direction_label is_inbound, ''success''])"

definition register_peer_connection_failure ::
  "('m, 'w) prometheus_lib \<Rightarrow> 'm metrics \<Rightarrow> bool \<Rightarrow> 'w \<Rightarrow> 'w res" where
  "register_peer_connection_failure P m is_inbound w =
     map_res (\<lambda>metric. pm_inc P metric w)
       (pm_child P (lean_peer_connection_events_total m) [direction_label is_inbound, ''failure''])"

definition register_peer_connection_timeout ::
  "('m, 'w) prometheus_lib \<Rightarrow> 'm metrics \<Rightarrow> bool \<Rightarrow> 'w \<Rightarrow> 'w res" where
  "register_peer_connection_timeout P m is_inbound w =
     map_res (\<lambda>metric. pm_inc P metric w)
       (pm_child P (lean_peer_connection_events_total m) [direction_label is_inbound, ''timeout''])"

datatype disconnect_reason = ReasonTimeout | RemoteClose | LocalClose | ReasonError

fun reason_label :: "disconnect_reason \<Rightarrow> string" where
  "reason_label ReasonTimeout = ''timeout''"
| "reason_label RemoteClose = ''remote_close''"
| "reason_label LocalClose = ''local_close''"
| "reason_label ReasonError = ''error''"

definition register_peer_disconnect ::
  "('m, 'w) prometheus_lib \<Rightarrow> 'm metrics \<Rightarrow> bool \<Rightarrow> disconnect_reason \<Rightarrow> 'w \<Rightarrow> 'w res" where
  "register_peer_disconnect P m is_inbound reason w =
     map_res (\<lambda>metric. pm_inc P metric w)
       (pm_child P (lean_peer_disconnection_events_total m) [direction_label is_inbound, reason_label reason])"

section \<open>Helpers\<close>

text \<open>
  \<^verbatim>\<open>METRICS\<close> is empty unless metrics are enabled.  A value that cannot be computed or does not fit an \<^verbatim>\<open>i64\<close> is
  logged and leaves the gauge.
\<close>

definition set_gauge_u64 ::
  "('m, 'w) prometheus_lib \<Rightarrow> 'm metrics option \<Rightarrow> ('m metrics \<Rightarrow> 'm) \<Rightarrow> u64 res \<Rightarrow> 'w \<Rightarrow> 'w res" where
  "set_gauge_u64 P ms metric_getter value_getter w =
     (case ms of
        None \<Rightarrow> Ok w
      | Some m \<Rightarrow>
          (case value_getter of
             Ok v \<Rightarrow> Ok (if uint v < 2 ^ 63 then pm_set P (metric_getter m) (uint v) w else w)
           | Err e \<Rightarrow> Ok w
           | Panic p \<Rightarrow> Panic p
           | Diverge \<Rightarrow> Diverge))"

text \<open>A timer is the histogram it was started on.\<close>

definition stop_and_record :: "('m, 'w) prometheus_lib \<Rightarrow> 'm option \<Rightarrow> 'w \<Rightarrow> 'w" where
  "stop_and_record P timer w = (case timer of Some t \<Rightarrow> pm_record P t w | None \<Rightarrow> w)"

definition stop_and_discard :: "'m option \<Rightarrow> 'w \<Rightarrow> 'w" where
  "stop_and_discard timer w = w"

section \<open>Start-up\<close>

text \<open>
  The part of \<^verbatim>\<open>main\<close> that creates, registers and initializes the metrics; \<open>now\<close> is the system time.  The result
  is the content of \<^verbatim>\<open>METRICS\<close>.
\<close>

definition start_metrics ::
  "('m, 'w) prometheus_lib \<Rightarrow> bool \<Rightarrow> int \<Rightarrow> 'w \<Rightarrow> ('m metrics option \<times> 'w) res" where
  "start_metrics P enabled now w =
     (if \<not> enabled then Ok (None, w)
      else
        and_then (metrics_new P) (\<lambda>m.
        and_then (register_with_default_metrics P m w) (\<lambda>w.
        and_then (set_client_version P m ''grandine'' ''0.0.0'' w) (\<lambda>w.
        and_then (set_start_time P m now w) (\<lambda>w.
        Ok (Some m, w))))))"

section \<open>What the library promises\<close>

text \<open>
  The names the library accepts: letters, digits and underscores (a colon too in the name of a metric), not
  starting with a digit; the help text is not empty, labels are distinct, bounds of buckets increase.
\<close>

definition name_char :: "char \<Rightarrow> bool" where
  "name_char c \<longleftrightarrow> (let k = of_char c :: nat in 97 \<le> k \<and> k \<le> 122 \<or> 65 \<le> k \<and> k \<le> 90 \<or> k = 95)"

definition digit_char :: "char \<Rightarrow> bool" where
  "digit_char c \<longleftrightarrow> (let k = of_char c :: nat in 48 \<le> k \<and> k \<le> 57)"

definition valid_label :: "string \<Rightarrow> bool" where
  "valid_label s \<longleftrightarrow> s \<noteq> [] \<and> name_char (hd s) \<and> list_all (\<lambda>c. name_char c \<or> digit_char c) s"

definition valid_name :: "string \<Rightarrow> bool" where
  "valid_name s \<longleftrightarrow> valid_label (map (\<lambda>c. if c = CHR '':'' then CHR ''_'' else c) s)"

definition valid_opts :: "metric_opts \<Rightarrow> bool" where
  "valid_opts opts \<longleftrightarrow> valid_name (mo_name opts) \<and> mo_help opts \<noteq> [] \<and>
     list_all valid_label (mo_labels opts) \<and> distinct (mo_labels opts) \<and> sorted_wrt (<) (mo_buckets opts)"

text \<open>
  The view of the library that its laws are stated in: the options and the label values of a handle, the registered
  names and the value of every child.
\<close>

record ('m, 'w) prometheus_view =
  opts_of :: "'m \<Rightarrow> metric_opts"
  labels_of :: "'m \<Rightarrow> string list"
  registered :: "'w \<Rightarrow> string set"
  value_of :: "'w \<Rightarrow> string \<times> string list \<Rightarrow> int"

definition key_of :: "('m, 'w) prometheus_view \<Rightarrow> 'm \<Rightarrow> string \<times> string list" where
  "key_of V m = (mo_name (opts_of V m), labels_of V m)"

definition prometheus_laws :: "('m, 'w) prometheus_lib \<Rightarrow> ('m, 'w) prometheus_view \<Rightarrow> bool" where
  "prometheus_laws P V \<longleftrightarrow>
     (\<forall>opts. valid_opts opts \<longrightarrow> (\<exists>m. pm_new P opts = Ok m \<and> opts_of V m = opts \<and> labels_of V m = [])) \<and>
     (\<forall>m w. mo_name (opts_of V m) \<notin> registered V w \<longrightarrow>
        (\<exists>w'. pm_register P m w = Ok w' \<and> registered V w' = insert (mo_name (opts_of V m)) (registered V w) \<and>
           value_of V w' = value_of V w)) \<and>
     (\<forall>m ls. length ls = length (mo_labels (opts_of V m)) \<longrightarrow>
        (\<exists>c. pm_child P m ls = Ok c \<and> opts_of V c = opts_of V m \<and> labels_of V c = ls)) \<and>
     (\<forall>m v w. registered V (pm_set P m v w) = registered V w \<and>
        value_of V (pm_set P m v w) = (value_of V w)(key_of V m := v)) \<and>
     (\<forall>m w. registered V (pm_inc P m w) = registered V w \<and>
        value_of V (pm_inc P m w) = (value_of V w)(key_of V m := (value_of V w (key_of V m) + 1) mod 2 ^ 64))"

lemma prometheus_create:
  assumes "prometheus_laws P V"
  obtains new where "\<And>opts. valid_opts opts \<Longrightarrow> pm_new P opts = Ok (new opts)"
    and "\<And>opts. valid_opts opts \<Longrightarrow> opts_of V (new opts) = opts"
    and "\<And>opts. valid_opts opts \<Longrightarrow> labels_of V (new opts) = []"
proof -
  have "\<forall>opts. \<exists>m. valid_opts opts \<longrightarrow> pm_new P opts = Ok m \<and> opts_of V m = opts \<and> labels_of V m = []"
    using assms by (auto simp: prometheus_laws_def)
  then obtain new where "\<forall>opts. valid_opts opts \<longrightarrow>
      pm_new P opts = Ok (new opts) \<and> opts_of V (new opts) = opts \<and> labels_of V (new opts) = []"
    by metis
  then show ?thesis by (intro that) blast+
qed

lemma register_all:
  assumes "prometheus_laws P V" and "distinct (map (mo_name \<circ> opts_of V) ms)"
    and "registered V w \<inter> set (map (mo_name \<circ> opts_of V) ms) = {}"
  shows "\<exists>w'. for_each (pm_register P) ms w = Ok w' \<and> value_of V w' = value_of V w \<and>
    registered V w' = registered V w \<union> set (map (mo_name \<circ> opts_of V) ms)"
  using assms(2,3)
proof (induction ms arbitrary: w)
  case (Cons m ms)
  then have "mo_name (opts_of V m) \<notin> registered V w" by auto
  then obtain w1 where w1: "pm_register P m w = Ok w1" "value_of V w1 = value_of V w"
    "registered V w1 = insert (mo_name (opts_of V m)) (registered V w)"
    using assms(1) unfolding prometheus_laws_def by blast
  obtain w' where "for_each (pm_register P) ms w1 = Ok w'" "value_of V w' = value_of V w1"
    "registered V w' = registered V w1 \<union> set (map (mo_name \<circ> opts_of V) ms)"
    using Cons.IH[of w1] Cons.prems w1(3) by auto
  with w1 show ?case by auto
qed simp

text \<open>The names, as they appear on the page of metrics.\<close>

definition lean_names :: "string list" where
  "lean_names =
     [''lean_node_info'',
      ''lean_node_start_time_seconds'',
      ''lean_pq_signature_attestation_signing_time_seconds'',
      ''lean_pq_signature_attestation_verification_time_seconds'',
      ''lean_pq_sig_aggregated_signatures_total'',
      ''lean_pq_sig_attestations_in_aggregated_signatures_total'',
      ''lean_pq_sig_attestation_signatures_building_time_seconds'',
      ''lean_pq_sig_aggregated_signatures_verification_time_seconds'',
      ''lean_pq_sig_aggregated_signatures_valid_total'',
      ''lean_pq_sig_aggregated_signatures_invalid_total'',
      ''lean_head_slot'',
      ''lean_current_slot'',
      ''lean_safe_target_slot'',
      ''lean_fork_choice_block_processing_time_seconds'',
      ''lean_attestations_valid_total'',
      ''lean_attestations_invalid_total'',
      ''lean_attestation_validation_time_seconds'',
      ''lean_fork_choice_reorgs_total'',
      ''lean_fork_choice_reorg_depth'',
      ''lean_latest_justified_slot'',
      ''lean_latest_finalized_slot'',
      ''lean_finalizations_total'',
      ''lean_state_transition_time_seconds'',
      ''lean_state_transition_slots_processed_total'',
      ''lean_state_transition_slots_processing_time_seconds'',
      ''lean_state_transition_block_processing_time_seconds'',
      ''lean_state_transition_attestations_processed_total'',
      ''lean_state_transition_attestations_processing_time_seconds'',
      ''lean_validators_count'',
      ''lean_connected_peers'',
      ''lean_peer_connection_events_total'',
      ''lean_peer_disconnection_events_total'']"

lemma lean_names_distinct: "distinct lean_names" "length lean_names = 32"
  by (simp_all add: lean_names_def)

lemma lean_names_valid: "list_all valid_name lean_names"
  by (simp add: lean_names_def valid_name_def valid_label_def name_char_def digit_char_def)

lemma label_names_valid:
  "list_all valid_label [''name'', ''version'', ''source'', ''result'', ''client'', ''direction'', ''reason'']"
  by (simp add: valid_label_def name_char_def digit_char_def)

lemmas names_valid = lean_names_valid[unfolded lean_names_def list.pred_inject] label_names_valid[unfolded list.pred_inject]

lemma metrics_created:
  assumes "prometheus_laws P V"
  shows "\<exists>m. metrics_new P = Ok m \<and> map (mo_name \<circ> opts_of V) (lean_metrics m) = lean_names \<and>
    (\<forall>m' \<in> set (lean_metrics m). labels_of V m' = []) \<and>
    map (length \<circ> mo_labels \<circ> opts_of V) [lean_node_info m, lean_connected_peers m,
      lean_peer_connection_events_total m, lean_peer_disconnection_events_total m] = [2, 1, 2, 2]"
proof -
  obtain new where new: "\<And>opts. valid_opts opts \<Longrightarrow> pm_new P opts = Ok (new opts)"
    "\<And>opts. valid_opts opts \<Longrightarrow> opts_of V (new opts) = opts"
    "\<And>opts. valid_opts opts \<Longrightarrow> labels_of V (new opts) = []"
    by (rule prometheus_create[OF assms]) blast
  show ?thesis
    by (simp add: metrics_new_def gauge_vec_def int_gauge_def histogram_def int_counter_def int_counter_vec_def
      int_gauge_vec_def new valid_opts_def names_valid lean_metrics_def lean_names_def
      del: and_then_Ok cong: run_congs)
qed

lemma child_set:
  assumes "prometheus_laws P V" and "length ls = length (mo_labels (opts_of V m))"
  obtains c where "pm_child P m ls = Ok c" and "key_of V c = (mo_name (opts_of V m), ls)"
  using assms unfolding prometheus_laws_def key_of_def by metis

section \<open>Properties\<close>

definition sample_prometheus ::
  "(metric_opts \<times> string list, string list \<times> (string \<times> string list \<Rightarrow> int)) prometheus_lib" where
  "sample_prometheus = \<lparr>
     pm_new = (\<lambda>opts. if valid_opts opts then Ok (opts, []) else Err MetricRejected),
     pm_register = (\<lambda>(opts, ls) (ns, v).
       if mo_name opts \<in> set ns then Err AlreadyRegistered else Ok (mo_name opts # ns, v)),
     pm_child = (\<lambda>(opts, _) ls. if length ls = length (mo_labels opts) then Ok (opts, ls) else Err MetricRejected),
     pm_inc = (\<lambda>(opts, ls) (ns, v). (ns, v((mo_name opts, ls) := (v (mo_name opts, ls) + 1) mod 2 ^ 64))),
     pm_set = (\<lambda>(opts, ls) x (ns, v). (ns, v((mo_name opts, ls) := x))),
     pm_record = (\<lambda>m w. w)\<rparr>"

definition sample_view ::
  "(metric_opts \<times> string list, string list \<times> (string \<times> string list \<Rightarrow> int)) prometheus_view" where
  "sample_view = \<lparr>opts_of = fst, labels_of = snd, registered = (\<lambda>w. set (fst w)), value_of = snd\<rparr>"

lemma sample_prometheus_laws: "prometheus_laws sample_prometheus sample_view"
  by (auto simp: prometheus_laws_def sample_prometheus_def sample_view_def key_of_def)

text \<open>
  C33: enabling the metrics cannot fail.  If the library accepts valid options and names that are not taken, and none
  of the client's names is taken, then start-up with metrics creates all 32 metrics and registers them under their
  32 different names, the version gauge is 1 for this client and the start time is the current time in whole seconds;
  no other value changes.
\<close>

theorem metrics_registered:
  assumes "prometheus_laws P V" and "registered V w \<inter> set lean_names = {}"
    and "0 \<le> now" and "now div 1000000000 < 2 ^ 63"
  shows "\<exists>m w'. start_metrics P True now w = Ok (Some m, w') \<and>
    registered V w' = registered V w \<union> set lean_names \<and> card (set lean_names) = 32 \<and>
    value_of V w' = (value_of V w)((''lean_node_info'', [''grandine'', ''0.0.0'']) := 1,
      (''lean_node_start_time_seconds'', []) := now div 1000000000)"
proof -
  obtain m where m: "metrics_new P = Ok m" "map (mo_name \<circ> opts_of V) (lean_metrics m) = lean_names"
    "\<forall>m' \<in> set (lean_metrics m). labels_of V m' = []" "length (mo_labels (opts_of V (lean_node_info m))) = 2"
    using metrics_created[OF assms(1)] by auto
  have keys: "mo_name (opts_of V (lean_node_info m)) = ''lean_node_info''"
    "key_of V (lean_node_start_time_seconds m) = (''lean_node_start_time_seconds'', [])"
    using m(2,3) by (simp_all add: lean_metrics_def lean_names_def key_of_def)
  obtain w1 where w1: "register_with_default_metrics P m w = Ok w1" "value_of V w1 = value_of V w"
    "registered V w1 = registered V w \<union> set lean_names"
    using register_all[OF assms(1), of "lean_metrics m" w, unfolded m(2), OF lean_names_distinct(1) assms(2)]
    by (auto simp: register_with_default_metrics_def)
  obtain c where c: "pm_child P (lean_node_info m) [''grandine'', ''0.0.0''] = Ok c"
    "key_of V c = (''lean_node_info'', [''grandine'', ''0.0.0''])"
    using child_set[OF assms(1), of "[''grandine'', ''0.0.0'']" "lean_node_info m"] m(4) keys(1) by auto
  have set: "registered V (pm_set P h v u) = registered V u"
    "value_of V (pm_set P h v u) = (value_of V u)(key_of V h := v)" for h v u
    using assms(1) by (simp_all add: prometheus_laws_def)
  have "card (set lean_names) = 32" using distinct_card[OF lean_names_distinct(1)] lean_names_distinct(2) by simp
  with m(1) w1 c keys set assms(3,4) show ?thesis
    by (simp add: start_metrics_def set_client_version_def set_start_time_def expect_def map_res_def Let_def)
qed

theorem metrics_registered_witness:
  "\<exists>m w'. start_metrics sample_prometheus True 1700000000123456789 ([], \<lambda>_. 0) = Ok (Some m, w') \<and>
    registered sample_view w' = registered sample_view ([], \<lambda>_. 0) \<union> set lean_names \<and> card (set lean_names) = 32 \<and>
    value_of sample_view w' = (value_of sample_view ([], \<lambda>_. 0))((''lean_node_info'', [''grandine'', ''0.0.0'']) := 1,
      (''lean_node_start_time_seconds'', []) := 1700000000123456789 div 1000000000)"
  by (rule metrics_registered[OF sample_prometheus_laws]) (simp_all add: sample_view_def)

end
