(* ===== verification/Network_Service.thy ===== *)
theory Network_Service
  imports Node_Records Req_Resp Metrics
begin

text \<open>
  \<^verbatim>\<open>networking/src/network/service.rs\<close>: the network task.  Its own state is the table of peers and the shared
  count of connected peers; what it asks of the libp2p swarm and what it sends to the chain are the
  actions of a step.  Whether the swarm accepts a dial or a publication, and which peer is drawn at
  random, are arguments.
\<close>

section \<open>The service\<close>

record network_service_config =
  gossip_conf :: gossipsub_config
  socket_address :: ip_addr
  socket_port :: u16
  ns_discovery_port :: u16
  discovery_enabled :: bool
  ns_bootnodes :: static_bootnodes

fun bootnode_addrs :: "p2p_lib \<Rightarrow> bootnode \<Rightarrow> multiaddr list res" where
  "bootnode_addrs L (BootMultiaddr addr) = Ok [addr]"
| "bootnode_addrs L (BootEnr e) = multiaddr_quic L e"

text \<open>The addresses of every bootnode are computed for a warning, which needs the peer id of a record.\<close>

definition network_service_config_new ::
  "p2p_lib \<Rightarrow> gossipsub_config \<Rightarrow> ip_addr \<Rightarrow> u16 \<Rightarrow> u16 \<Rightarrow> bool \<Rightarrow> string list \<Rightarrow> network_service_config res" where
  "network_service_config_new L g address port discovery_port enabled args =
     (let bootnodes = concat (map (parse_bootnode_argument L) args) in
      and_then (map_collect (bootnode_addrs L) bootnodes) (\<lambda>_.
      Ok \<lparr>gossip_conf = g, socket_address = address, socket_port = port, ns_discovery_port = discovery_port,
        discovery_enabled = enabled, ns_bootnodes = static_bootnodes_new L bootnodes\<rparr>))"

definition enr_bootnodes :: "network_service_config \<Rightarrow> enr list" where
  "enr_bootnodes c = enrs (ns_bootnodes c)"

definition listen_multiaddr :: "network_service_config \<Rightarrow> multiaddr" where
  "listen_multiaddr c = addr_of_ip (socket_address c) @ [Udp (socket_port c), QuicV1]"

text \<open>The behaviours of the swarm, by what they are configured with.\<close>

record identify_config =
  ident_protocol_version :: string
  ident_public_key :: libp2p_key
  ident_agent_version :: string
  ident_cache_size :: nat

record connection_limits =
  max_pending_incoming :: "u32 option"
  max_pending_outgoing :: "u32 option"
  max_established_per_peer :: "u32 option"

record lean_network_behaviour =
  lb_identify :: identify_config
  lb_req_resp :: "(string \<times> protocol_support) list"
  lb_gossipsub :: gossipsub_config
  lb_connection_limits :: connection_limits

record network_service =
  network_config :: network_service_config
  swarm_behaviour :: lean_network_behaviour
  local_peer_id :: peer_id
  discovery :: "discovery_service option"
  peer_table :: "(peer_id, connection_state) hmap"
  peer_count_shared :: u64

text \<open>What is reported to the metrics, if there are any; the flag is \<^verbatim>\<open>is_inbound\<close>.\<close>

datatype peer_event = PeerConnectionSuccess bool | PeerConnectionFailure bool | PeerDisconnect bool disconnect_reason

datatype action =
    Dial multiaddr
  | SendRequest peer_id lean_request
  | SendResponse lean_response
  | Publish string bytes
  | ToChain chain_message
  | AddExternalAddress multiaddr
  | FindNode bytes
  | CountEvent peer_event

text \<open>What the libp2p swarm decides; \<open>configures\<close> tells whether it can be built for a configuration.\<close>

record swarm =
  configures :: "gossipsub_config \<Rightarrow> bool"
  listens :: "multiaddr \<Rightarrow> bool"
  subscribes :: "string \<Rightarrow> bool"
  dials :: "multiaddr \<Rightarrow> bool"
  publishes :: "string \<Rightarrow> bytes \<Rightarrow> bool"
  draw :: "peer_id list \<Rightarrow> peer_id"
  random_bytes :: "nat \<Rightarrow> bytes"

section \<open>Peers\<close>

definition addr_peer :: "multiaddr \<Rightarrow> peer_id option" where
  "addr_peer addr = (case List.find (\<lambda>p. case p of P2p _ \<Rightarrow> True | _ \<Rightarrow> False) addr of
     Some (P2p peer) \<Rightarrow> Some peer | _ \<Rightarrow> None)"

definition may_dial :: "connection_state option \<Rightarrow> bool" where
  "may_dial st \<longleftrightarrow> st = Some Disconnected \<or> st = Some Connecting \<or> st = None"

fun connect_to_peers :: "swarm \<Rightarrow> multiaddr list \<Rightarrow> network_service \<Rightarrow> network_service \<times> action list" where
  "connect_to_peers W [] n = (n, [])"
| "connect_to_peers W (addr # addrs) n =
     (case addr_peer addr of
        None \<Rightarrow> connect_to_peers W addrs n
      | Some peer \<Rightarrow>
          if peer \<noteq> local_peer_id n then
            if \<not> may_dial (hm_get (peer_table n) peer) then connect_to_peers W addrs n
            else if \<not> dials W addr then connect_to_peers W addrs n
            else
              let n' = n\<lparr>peer_table := hm_insert peer Connecting (peer_table n)\<rparr>;
                  (n'', acts) = connect_to_peers W addrs n' in
              (n'', Dial addr # acts)
          else connect_to_peers W addrs n)"

definition connected_peers :: "(peer_id, connection_state) hmap \<Rightarrow> peer_id list" where
  "connected_peers t = map fst (filter (\<lambda>(_, st). st = Connected) t)"

definition get_random_connected_peer :: "swarm \<Rightarrow> network_service \<Rightarrow> peer_id option" where
  "get_random_connected_peer W n =
     (let peers = connected_peers (peer_table n) in if peers = [] then None else Some (draw W peers))"

text \<open>After a connection was opened or closed: set the state and recount.\<close>

definition set_peer :: "peer_id \<Rightarrow> connection_state \<Rightarrow> network_service \<Rightarrow> network_service" where
  "set_peer peer st n =
     (let t = hm_insert peer st (peer_table n) in
      n\<lparr>peer_table := t,
        peer_count_shared := word_of_nat (length (filter (\<lambda>s. s = Connected) (hm_values t)))\<rparr>)"

definition send_status_request :: "peer_id \<Rightarrow> action list" where
  "send_status_request peer = [SendRequest peer (StatusRequest status_default)]"

definition send_blocks_by_root_request :: "peer_id \<Rightarrow> h256 list \<Rightarrow> action list" where
  "send_blocks_by_root_request peer roots =
     (if roots = [] then []
      else if length roots > max_request_blocks then []
      else [SendRequest peer (BlocksByRootRequest roots)])"

section \<open>Outbound requests\<close>

definition publish_to_topic :: "swarm \<Rightarrow> network_service \<Rightarrow> gossipsub_kind \<Rightarrow> bytes \<Rightarrow> action list res" where
  "publish_to_topic W n k data =
     and_then (ok_or (List.find (\<lambda>t. kind t = k) (topics (gossip_conf (network_config n)))) MissingTopic) (\<lambda>t.
     if publishes W (topic_to_string t) data then Ok [Publish (topic_to_string t) data] else Err PublishFailed)"

definition attempted :: "action list res \<Rightarrow> action list" where
  "attempted r = (case r of Ok acts \<Rightarrow> acts | _ \<Rightarrow> [])"

fun dispatch_outbound_request ::
  "ssz_codec \<Rightarrow> swarm \<Rightarrow> outbound_p2p_request \<Rightarrow> network_service \<Rightarrow> action list" where
  "dispatch_outbound_request C W (GossipBlockWithAttestation sb) n =
     (case block_to_ssz C sb of
        Some data \<Rightarrow> attempted (publish_to_topic W n BlockKind data)
      | None \<Rightarrow> [])"
| "dispatch_outbound_request C W (GossipAttestation a) n =
     (case attestation_to_ssz C a of
        Some data \<Rightarrow> attempted (publish_to_topic W n AttestationKind data)
      | None \<Rightarrow> [])"
| "dispatch_outbound_request C W (RequestBlocksByRoot roots) n =
     (case get_random_connected_peer W n of
        Some peer \<Rightarrow> send_blocks_by_root_request peer roots
      | None \<Rightarrow> [])"

section \<open>Events of the swarm\<close>

datatype gossipsub_event = Subscribed | Unsubscribed | GossipMessage raw_message | OtherGossip

datatype req_resp_event =
    ReceivedResponse peer_id lean_response
  | ReceivedRequest peer_id lean_request
  | OutboundFailure peer_id
  | InboundFailure peer_id
  | ResponseSent peer_id

datatype identify_event = IdentifyReceived peer_id | IdentifySent peer_id | IdentifyPushed peer_id | IdentifyError peer_id

text \<open>
  \<^verbatim>\<open>ConnectionError\<close> with the kinds of \<^verbatim>\<open>io::Error\<close> that the service tells apart.  The flag of a connection is
  \<^verbatim>\<open>endpoint.is_dialer()\<close>; an endpoint that is not the dialer is the listener.
\<close>

datatype io_error_kind = UnexpectedEof | ConnectionReset | TimedOut | OtherIoError

datatype connection_error = ConnectionIo io_error_kind | KeepAliveTimeout

datatype swarm_event =
    GossipsubEvent gossipsub_event
  | ReqRespEvent req_resp_event
  | IdentifyEvent identify_event
  | ConnectionLimitsEvent
  | ConnectionEstablished peer_id bool
  | ConnectionClosed peer_id "connection_error option" bool
  | IncomingConnection
  | Dialing "peer_id option"
  | NewListenAddr multiaddr
  | NewExternalAddrCandidate multiaddr
  | ExternalAddrConfirmed multiaddr
  | ExternalAddrExpired multiaddr
  | IncomingConnectionError
  | OutgoingConnectionError "peer_id option"
  | OtherSwarmEvent

datatype network_event =
    PeerConnectedIncoming peer_id | PeerConnectedOutgoing peer_id | PeerDisconnected peer_id
  | StatusEvent peer_id | Ping peer_id | MetaData peer_id | DisconnectPeer peer_id

fun handle_gossipsub_event :: "ssz_codec \<Rightarrow> gossipsub_event \<Rightarrow> action list" where
  "handle_gossipsub_event C (GossipMessage m) =
     (case message_decode C (msg_topic m) (msg_data m) of
        Ok (BlockMessage sb) \<Rightarrow> [ToChain (ProcessBlock sb False True)]
      | Ok (AttestationMessage a) \<Rightarrow> [ToChain (ProcessAttestation a False True)]
      | _ \<Rightarrow> [])"
| "handle_gossipsub_event C _ = []"

text \<open>Blocks that were asked for are not gossiped again; block requests are answered with no blocks.\<close>

fun handle_request_response_event :: "req_resp_event \<Rightarrow> action list" where
  "handle_request_response_event (ReceivedResponse peer (BlocksByRootResponse bs)) =
     map (\<lambda>b. ToChain (ProcessBlock b False False)) bs"
| "handle_request_response_event (ReceivedRequest peer (StatusRequest st)) = [SendResponse (StatusResponse status_default)]"
| "handle_request_response_event (ReceivedRequest peer (BlocksByRootRequest roots)) = [SendResponse (BlocksByRootResponse [])]"
| "handle_request_response_event _ = []"

fun handle_identify_event :: "identify_event \<Rightarrow> network_event option" where
  "handle_identify_event (IdentifyReceived peer) = None"
| "handle_identify_event (IdentifySent peer) = None"
| "handle_identify_event (IdentifyPushed peer) = None"
| "handle_identify_event (IdentifyError peer) = None"

fun close_reason :: "connection_error option \<Rightarrow> disconnect_reason" where
  "close_reason None = LocalClose"
| "close_reason (Some (ConnectionIo UnexpectedEof)) = RemoteClose"
| "close_reason (Some (ConnectionIo ConnectionReset)) = RemoteClose"
| "close_reason (Some (ConnectionIo TimedOut)) = ReasonTimeout"
| "close_reason (Some (ConnectionIo OtherIoError)) = ReasonError"
| "close_reason (Some KeepAliveTimeout) = ReasonTimeout"

fun parse_swarm_event ::
  "ssz_codec \<Rightarrow> swarm_event \<Rightarrow> network_service \<Rightarrow> network_service \<times> action list \<times> network_event option" where
  "parse_swarm_event C (GossipsubEvent e) n = (n, handle_gossipsub_event C e, None)"
| "parse_swarm_event C (ReqRespEvent e) n = (n, handle_request_response_event e, None)"
| "parse_swarm_event C (IdentifyEvent e) n = (n, [], handle_identify_event e)"
| "parse_swarm_event C ConnectionLimitsEvent n = (n, [], None)"
| "parse_swarm_event C (ConnectionEstablished peer is_dialer) n =
     (set_peer peer Connected n,
      (if is_dialer then send_status_request peer else []) @ [CountEvent (PeerConnectionSuccess (\<not> is_dialer))], None)"
| "parse_swarm_event C (ConnectionClosed peer cause is_dialer) n =
     (set_peer peer Disconnected n, [CountEvent (PeerDisconnect (\<not> is_dialer) (close_reason cause))],
      Some (PeerDisconnected peer))"
| "parse_swarm_event C IncomingConnection n = (n, [], None)"
| "parse_swarm_event C (Dialing peer) n = (n, [], map_option PeerConnectedOutgoing peer)"
| "parse_swarm_event C (NewListenAddr addr) n = (n, [], None)"
| "parse_swarm_event C (NewExternalAddrCandidate addr) n = (n, [AddExternalAddress addr], None)"
| "parse_swarm_event C (ExternalAddrConfirmed addr) n = (n, [], None)"
| "parse_swarm_event C (ExternalAddrExpired addr) n = (n, [], None)"
| "parse_swarm_event C IncomingConnectionError n = (n, [CountEvent (PeerConnectionFailure True)], None)"
| "parse_swarm_event C (OutgoingConnectionError peer) n = (n, [CountEvent (PeerConnectionFailure False)], None)"
| "parse_swarm_event C OtherSwarmEvent n = (n, [], None)"

section \<open>The loop\<close>

datatype service_event =
    ReconnectTick
  | DiscoveryTick
  | OutboundRequest outbound_p2p_request
  | SwarmEvent swarm_event
  | DiscoveredRecord "enr option"

fun service_step ::
  "p2p_lib \<Rightarrow> ssz_codec \<Rightarrow> swarm \<Rightarrow> service_event \<Rightarrow> network_service \<Rightarrow> network_service \<times> action list" where
  "service_step L C W ReconnectTick n = connect_to_peers W (multiaddrs (ns_bootnodes (network_config n))) n"
| "service_step L C W DiscoveryTick n =
     (n, case discovery n of Some d \<Rightarrow> [FindNode (find_random_peers (random_bytes W) d)] | None \<Rightarrow> [])"
| "service_step L C W (OutboundRequest r) n = (n, dispatch_outbound_request C W r n)"
| "service_step L C W (SwarmEvent e) n = (let (n', acts, _) = parse_swarm_event C e n in (n', acts))"
| "service_step L C W (DiscoveredRecord None) n = (n, [])"
| "service_step L C W (DiscoveredRecord (Some e)) n =
     (if discovery n = None then (n, [])
      else case enr_to_multiaddr L e of
        Some addr \<Rightarrow> connect_to_peers W [addr] n
      | None \<Rightarrow> (n, []))"

text \<open>A discovery service that cannot be started is left out; the shared counter is the caller's.\<close>

definition start_discovery :: "discv5_lib \<Rightarrow> network_service_config \<Rightarrow> libp2p_key \<Rightarrow> discovery_service option" where
  "start_discovery D c keypair =
     (if discovery_enabled c then
        case discovery_service_new D (with_bootnodes (enr_bootnodes c)
            (discovery_config_new (socket_address c) (ns_discovery_port c) (socket_port c))) keypair of
          Ok disc \<Rightarrow> Some disc
        | _ \<Rightarrow> None
      else None)"

fun subscribe_to_topics :: "swarm \<Rightarrow> gossipsub_topic list \<Rightarrow> unit res" where
  "subscribe_to_topics W [] = Ok ()"
| "subscribe_to_topics W (t # ts) =
     (if subscribes W (topic_to_string t) then subscribe_to_topics W ts else Err SubscribeFailed)"

definition build_identify :: "libp2p_key \<Rightarrow> identify_config" where
  "build_identify local_key =
     \<lparr>ident_protocol_version = ''eth2/1.0.0'', ident_public_key = local_key, ident_agent_version = ''0.0.1'',
      ident_cache_size = 0\<rparr>"

definition build_behaviour :: "swarm \<Rightarrow> libp2p_key \<Rightarrow> network_service_config \<Rightarrow> lean_network_behaviour res" where
  "build_behaviour W local_key c =
     (if \<not> configures W (gossip_conf c) then Err BehaviourFailed
      else Ok \<lparr>lb_identify = build_identify local_key,
        lb_req_resp = req_resp_build [status_protocol_v1, blocks_by_root_protocol_v1],
        lb_gossipsub = gossip_conf c,
        lb_connection_limits = \<lparr>max_pending_incoming = Some 5, max_pending_outgoing = Some 16,
          max_established_per_peer = Some 2\<rparr>\<rparr>)"

definition listen_on :: "swarm \<Rightarrow> multiaddr \<Rightarrow> unit res" where
  "listen_on W addr = (if listens W addr then Ok () else Err ListenFailed)"

definition new_with_keypair ::
  "p2p_lib \<Rightarrow> discv5_lib \<Rightarrow> swarm \<Rightarrow> network_service_config \<Rightarrow> u64 \<Rightarrow> libp2p_key \<Rightarrow> network_service res" where
  "new_with_keypair L D W c peer_count local_key =
     and_then (build_behaviour W local_key c) (\<lambda>behaviour.
     let service = \<lparr>network_config = c, swarm_behaviour = behaviour, local_peer_id = peer_id_from_key L local_key,
           discovery = start_discovery D c local_key, peer_table = [], peer_count_shared = peer_count\<rparr> in
     and_then (listen_on W (listen_multiaddr c)) (\<lambda>_.
     and_then (subscribe_to_topics W (topics (gossip_conf c))) (\<lambda>_.
     Ok service)))"

text \<open>\<^verbatim>\<open>new\<close> and \<^verbatim>\<open>new_with_peer_count\<close>, with the generated secp256k1 key as an argument.\<close>

definition new_with_peer_count ::
  "p2p_lib \<Rightarrow> discv5_lib \<Rightarrow> swarm \<Rightarrow> network_service_config \<Rightarrow> u64 \<Rightarrow> bytes \<Rightarrow> network_service res" where
  "new_with_peer_count L D W c peer_count generated = new_with_keypair L D W c peer_count (LibSecp256k1 generated)"

definition network_service_new ::
  "p2p_lib \<Rightarrow> discv5_lib \<Rightarrow> swarm \<Rightarrow> network_service_config \<Rightarrow> bytes \<Rightarrow> network_service res" where
  "network_service_new L D W c generated = new_with_peer_count L D W c 0 generated"

section \<open>The peer table\<close>

definition run_service ::
  "p2p_lib \<Rightarrow> ssz_codec \<Rightarrow> swarm \<Rightarrow> service_event list \<Rightarrow> network_service \<Rightarrow> network_service" where
  "run_service L C W es n = fold (\<lambda>e n. fst (service_step L C W e n)) es n"

text \<open>The connected peers, as a set.\<close>

definition connected_set :: "(peer_id, connection_state) hmap \<Rightarrow> peer_id set" where
  "connected_set t = {p. hm_get t p = Some Connected}"

lemma connected_count:
  assumes "hm_ok t"
  shows "length (filter (\<lambda>s. s = Connected) (hm_values t)) = card (connected_set t)"
    and "set (connected_peers t) = connected_set t"
proof -
  let ?f = "filter (\<lambda>(_, st). st = Connected) t"
  have "length (filter (\<lambda>s. s = Connected) (hm_values t)) = length ?f"
    by (simp add: hm_values_def filter_map comp_def case_prod_unfold)
  also have "\<dots> = card (fst ` set ?f)"
    using assms distinct_card[of "map fst ?f"] distinct_map_filter[of fst t] by (simp add: hm_ok_def)
  also have "fst ` set ?f = connected_set t"
    using assms by (auto simp: connected_set_def hm_in_get image_iff)
  finally show "length (filter (\<lambda>s. s = Connected) (hm_values t)) = card (connected_set t)" .
  show "set (connected_peers t) = connected_set t"
    using assms by (auto simp: connected_peers_def connected_set_def hm_in_get image_iff)
qed

definition service_ok :: "network_service \<Rightarrow> bool" where
  "service_ok n \<longleftrightarrow> hm_ok (peer_table n) \<and> peer_count_shared n = word_of_nat (card (connected_set (peer_table n)))"

lemma set_peer_ok: "service_ok n \<Longrightarrow> service_ok (set_peer peer st n)"
  by (simp add: service_ok_def set_peer_def Let_def connected_count(1))

lemma connect_keeps_connected:
  assumes "may_dial (hm_get t peer)"
  shows "connected_set (hm_insert peer Connecting t) = connected_set t"
  using assms by (auto simp: connected_set_def may_dial_def split: if_splits)

lemma connect_to_peers_keeps:
  assumes "connect_to_peers W addrs n = (n', acts)"
  shows "connected_set (peer_table n') = connected_set (peer_table n)"
    and "peer_count_shared n' = peer_count_shared n" and "hm_ok (peer_table n) \<Longrightarrow> hm_ok (peer_table n')"
    and "local_peer_id n' = local_peer_id n"
    and "act \<in> set acts \<Longrightarrow> \<exists>addr peer. act = Dial addr \<and> addr_peer addr = Some peer \<and>
      peer \<noteq> local_peer_id n \<and> peer \<notin> connected_set (peer_table n)"
proof -
  have "connected_set (peer_table n') = connected_set (peer_table n) \<and> peer_count_shared n' = peer_count_shared n \<and>
      (hm_ok (peer_table n) \<longrightarrow> hm_ok (peer_table n')) \<and> local_peer_id n' = local_peer_id n \<and>
      (\<forall>act \<in> set acts. \<exists>addr peer. act = Dial addr \<and> addr_peer addr = Some peer \<and>
        peer \<noteq> local_peer_id n \<and> peer \<notin> connected_set (peer_table n))"
    using assms
  proof (induction addrs arbitrary: n acts)
    case (Cons addr addrs)
    show ?case
    proof (cases "\<exists>peer. addr_peer addr = Some peer \<and> peer \<noteq> local_peer_id n \<and>
        may_dial (hm_get (peer_table n) peer) \<and> dials W addr")
      case True
      then obtain peer where peer: "addr_peer addr = Some peer" "peer \<noteq> local_peer_id n"
        "may_dial (hm_get (peer_table n) peer)" "dials W addr" by blast
      let ?n = "n\<lparr>peer_table := hm_insert peer Connecting (peer_table n)\<rparr>"
      obtain n1 acts1 where rest: "connect_to_peers W addrs ?n = (n1, acts1)" by fastforce
      with Cons.prems peer have eq: "n' = n1" "acts = Dial addr # acts1" by (simp_all add: Let_def)
      have "peer \<notin> connected_set (peer_table n)" using peer(3) by (auto simp: connected_set_def may_dial_def)
      with Cons.IH[OF rest[folded eq(1)]] peer eq(2) connect_keeps_connected[OF peer(3)] show ?thesis by auto
    next
      case False
      then have skip: "connect_to_peers W (addr # addrs) n = connect_to_peers W addrs n"
        by (auto split: option.split)
      with Cons.prems have "connect_to_peers W addrs n = (n', acts)" by simp
      then show ?thesis by (rule Cons.IH)
    qed
  qed simp
  then show "connected_set (peer_table n') = connected_set (peer_table n)"
    "peer_count_shared n' = peer_count_shared n" "hm_ok (peer_table n) \<Longrightarrow> hm_ok (peer_table n')"
    "local_peer_id n' = local_peer_id n"
    "act \<in> set acts \<Longrightarrow> \<exists>addr peer. act = Dial addr \<and> addr_peer addr = Some peer \<and>
      peer \<noteq> local_peer_id n \<and> peer \<notin> connected_set (peer_table n)" by auto
qed

lemma service_step_ok:
  assumes "service_ok n"
  shows "service_ok (fst (service_step L C W e n))"
proof -
  have dial: "service_ok (fst (connect_to_peers W addrs n))" for addrs
  proof -
    obtain n' acts where c: "connect_to_peers W addrs n = (n', acts)" by fastforce
    from connect_to_peers_keeps(1-3)[OF c] assms c show ?thesis by (simp add: service_ok_def)
  qed
  show ?thesis
  proof (cases e)
    case (SwarmEvent se)
    have "service_ok (fst (parse_swarm_event C se n))" using assms by (cases se) (simp_all add: set_peer_ok)
    then show ?thesis by (simp add: SwarmEvent case_prod_unfold Let_def)
  next
    case (DiscoveredRecord r)
    with dial assms show ?thesis by (cases r) (simp_all del: connect_to_peers.simps split: option.split)
  qed (use assms dial in simp_all)
qed

lemma run_service_ok: "service_ok n \<Longrightarrow> service_ok (run_service L C W es n)"
  unfolding run_service_def by (induction es arbitrary: n) (simp_all add: service_step_ok)

lemma new_with_keypair_ok: "new_with_keypair L D W c 0 key = Ok n \<Longrightarrow> service_ok n"
  by (auto simp: new_with_keypair_def service_ok_def hm_ok_def connected_set_def hm_get_def Let_def)

lemma published_only:
  "act \<in> set (attempted (publish_to_topic W n k data)) \<Longrightarrow> \<exists>t. act = Publish t data"
  by (cases "List.find (\<lambda>t. kind t = k) (topics (gossip_conf (network_config n)))")
    (simp_all add: publish_to_topic_def attempted_def split: if_splits)

lemma handled_messages:
  "act \<in> set (handle_gossipsub_event C (GossipMessage m)) \<Longrightarrow>
    (\<exists>sb. act = ToChain (ProcessBlock sb False True)) \<or> (\<exists>a. act = ToChain (ProcessAttestation a False True))"
  by (cases "message_decode C (msg_topic m) (msg_data m)") (auto split: gossipsub_message.splits)

section \<open>Properties\<close>

definition sample_network_config :: network_service_config where
  "sample_network_config = \<lparr>gossip_conf = set_topics (get_topics ''devnet0'') gossipsub_config_new,
     socket_address = V4 0, socket_port = 9001, ns_discovery_port = 9000, discovery_enabled = False,
     ns_bootnodes = \<lparr>multiaddrs = [[Ip4 7, Udp 9001, QuicV1, P2p [1]], [Ip4 8, Udp 9001, QuicV1, P2p [2]]], enrs = []\<rparr>\<rparr>"

definition sample_network :: network_service where
  "sample_network = \<lparr>network_config = sample_network_config,
     swarm_behaviour = \<lparr>lb_identify = build_identify (LibSecp256k1 []), lb_req_resp = build_default,
       lb_gossipsub = gossip_conf sample_network_config,
       lb_connection_limits = \<lparr>max_pending_incoming = Some 5, max_pending_outgoing = Some 16,
         max_established_per_peer = Some 2\<rparr>\<rparr>,
     local_peer_id = [0], discovery = None,
     peer_table = [([1], Connected)], peer_count_shared = 1\<rparr>"

definition sample_swarm :: swarm where
  "sample_swarm = \<lparr>configures = (\<lambda>g. True), listens = (\<lambda>a. True), subscribes = (\<lambda>t. True), dials = (\<lambda>a. True), publishes = (\<lambda>t d. True), draw = hd,
     random_bytes = (\<lambda>k. replicate k 0)\<rparr>"

definition sample_discv5 :: discv5_lib where
  "sample_discv5 = \<lparr>enr_fits = (\<lambda>e. True), discv5_creates = (\<lambda>e. True), discv5_accepts = (\<lambda>e. True),
     discv5_starts = (\<lambda>e. True)\<rparr>"

text \<open>
  C28: the number of connected peers that the node reports.  After any sequence of events of a service that was started
  with the counter at zero, the shared counter is the number of peers the table has as connected, whatever is dialled,
  discovered or requested.
\<close>

theorem peer_count_correct:
  assumes "new_with_keypair L D W c 0 key = Ok n"
  shows "peer_count_shared (run_service L C W es n) =
    word_of_nat (card {p. hm_get (peer_table (run_service L C W es n)) p = Some Connected})"
  using run_service_ok[OF new_with_keypair_ok[OF assms]] by (simp add: service_ok_def connected_set_def)

theorem peer_count_correct_witness:
  "\<exists>n. new_with_keypair sample_p2p sample_discv5 sample_swarm sample_network_config 0 (LibSecp256k1 []) = Ok n \<and>
    peer_count_shared (run_service sample_p2p sample_ssz sample_swarm
      [ReconnectTick, SwarmEvent (ConnectionEstablished [1] True)] n) =
    word_of_nat (card {p. hm_get (peer_table (run_service sample_p2p sample_ssz sample_swarm
      [ReconnectTick, SwarmEvent (ConnectionEstablished [1] True)] n)) p = Some Connected})"
proof -
  obtain n where n: "new_with_keypair sample_p2p sample_discv5 sample_swarm sample_network_config 0 (LibSecp256k1 []) = Ok n"
    by (simp add: new_with_keypair_def build_behaviour_def listen_on_def Let_def sample_swarm_def
      sample_network_config_def set_topics_def get_topics_def)
  with peer_count_correct[OF n] show ?thesis by blast
qed

text \<open>
  C27: what the service asks of the network.  It never dials itself or a connected peer, and it asks for blocks only
  from a connected peer, for at least one and at most 1024 of them, given that a drawn element is
  one of the list.  Every message it passes to the chain is untrusted, and blocks that were asked
  for are not to be gossiped again.
\<close>

theorem service_actions_safe:
  assumes "service_ok n" and "\<forall>ps. ps \<noteq> [] \<longrightarrow> draw W ps \<in> set ps" and "act \<in> set (snd (service_step L C W e n))"
  shows "case act of
      Dial addr \<Rightarrow> \<exists>peer. addr_peer addr = Some peer \<and> peer \<noteq> local_peer_id n \<and> hm_get (peer_table n) peer \<noteq> Some Connected
    | SendRequest peer (BlocksByRootRequest roots) \<Rightarrow>
        hm_get (peer_table n) peer = Some Connected \<and> 0 < length roots \<and> length roots \<le> max_request_blocks
    | ToChain (ProcessBlock sb trusted gossip) \<Rightarrow> \<not> trusted \<and>
        (gossip \<longleftrightarrow> (\<exists>m. e = SwarmEvent (GossipsubEvent (GossipMessage m))))
    | ToChain (ProcessAttestation a trusted gossip) \<Rightarrow> \<not> trusted \<and> gossip
    | _ \<Rightarrow> True"
proof -
  have dial: ?thesis if "act \<in> set (snd (connect_to_peers W addrs n))" for addrs
  proof -
    obtain n' acts where c: "connect_to_peers W addrs n = (n', acts)" by fastforce
    from connect_to_peers_keeps(5)[OF c, of act] that c show ?thesis by (auto simp: connected_set_def)
  qed
  show ?thesis
  proof (cases e)
    case ReconnectTick
    with assms(3) dial show ?thesis by simp
  next
    case DiscoveryTick
    with assms(3) show ?thesis by (auto split: option.splits)
  next
    case (OutboundRequest r)
    show ?thesis
    proof (cases r)
      case (RequestBlocksByRoot roots)
      with assms(3) OutboundRequest obtain peer where p: "get_random_connected_peer W n = Some peer"
        and a: "act = SendRequest peer (BlocksByRootRequest roots)" "roots \<noteq> []" "length roots \<le> max_request_blocks"
        by (cases "get_random_connected_peer W n") (auto simp: send_blocks_by_root_request_def split: if_splits)
      from p assms(2) have "peer \<in> set (connected_peers (peer_table n))"
        by (auto simp: get_random_connected_peer_def Let_def split: if_splits)
      with a assms(1) show ?thesis by (auto simp: connected_count(2) service_ok_def connected_set_def)
    qed (use assms(3) OutboundRequest in \<open>auto dest: published_only split: option.splits\<close>)
  next
    case (SwarmEvent se)
    have act: "act \<in> set (fst (snd (parse_swarm_event C se n)))" using assms(3) SwarmEvent by (simp add: case_prod_unfold Let_def)
    show ?thesis
    proof (cases se)
      case (GossipsubEvent g)
      with act SwarmEvent show ?thesis
        by (cases g) (auto simp del: handle_gossipsub_event.simps(1) dest!: handled_messages)
    next
      case (ReqRespEvent q)
      with act SwarmEvent show ?thesis by (cases q rule: handle_request_response_event.cases) auto
    qed (use act in \<open>auto simp: send_status_request_def split: if_splits\<close>)
  next
    case (DiscoveredRecord r)
    with assms(3) dial show ?thesis by (cases r) (simp_all del: connect_to_peers.simps split: option.splits if_splits)
  qed
qed

theorem service_actions_safe_witness:
  "snd (service_step sample_p2p sample_ssz sample_swarm ReconnectTick sample_network) = [Dial [Ip4 8, Udp 9001, QuicV1, P2p [2]]] \<and>
   (\<exists>peer. addr_peer [Ip4 8, Udp 9001, QuicV1, P2p [2]] = Some peer \<and> peer \<noteq> local_peer_id sample_network \<and>
      hm_get (peer_table sample_network) peer \<noteq> Some Connected)"
proof
  show acts: "snd (service_step sample_p2p sample_ssz sample_swarm ReconnectTick sample_network) =
      [Dial [Ip4 8, Udp 9001, QuicV1, P2p [2]]]"
    by (simp add: sample_network_def sample_network_config_def sample_swarm_def addr_peer_def may_dial_def hm_get_def hm_insert_def)
  have "connected_set [([1], Connected)] = {[1]}" by (auto simp: connected_set_def hm_get_def)
  then have ok: "service_ok sample_network" by (simp add: service_ok_def sample_network_def hm_ok_def)
  have draw: "\<forall>ps. ps \<noteq> [] \<longrightarrow> draw sample_swarm ps \<in> set ps" by (simp add: sample_swarm_def)
  have "Dial [Ip4 8, Udp 9001, QuicV1, P2p [2]] \<in>
      set (snd (service_step sample_p2p sample_ssz sample_swarm ReconnectTick sample_network))"
    unfolding acts by simp
  from service_actions_safe[OF ok draw this]
  show "\<exists>peer. addr_peer [Ip4 8, Udp 9001, QuicV1, P2p [2]] = Some peer \<and> peer \<noteq> local_peer_id sample_network \<and>
      hm_get (peer_table sample_network) peer \<noteq> Some Connected" by simp
qed

section \<open>Peers with two connections\<close>

text \<open>
  Two connections to one peer are allowed, but the table has one entry per peer: when one of them is
  closed, the peer counts as disconnected although the other one is open.
\<close>

lemma open_connection_forgotten:
  defines "after \<equiv> \<lambda>L C W n p. run_service L C W [SwarmEvent (ConnectionEstablished p True),
    SwarmEvent (ConnectionEstablished p False), SwarmEvent (ConnectionClosed p None True)] n"
  shows "hm_get (peer_table (after L C W n p)) p = Some Disconnected"
    and "hm_ok (peer_table n) \<Longrightarrow> p \<notin> set (connected_peers (peer_table (after L C W n p)))"
  by (simp_all add: after_def run_service_def set_peer_def Let_def connected_count(2) connected_set_def)

end
