(* ===== verification/Client.thy ===== *)
theory Client
  imports Node Network_Service
begin

text \<open>
  \<^verbatim>\<open>src/main.rs\<close> as a whole: the arguments, the start of the network service, and the running client, in which
  the chain task and the network task exchange messages over two unbounded channels.  A step of the
  client is a step of one of the tasks, in any interleaving.  What the network publishes is something
  that the chain task has accepted.
\<close>

section \<open>Start-up\<close>

record args =
  arg_address :: ip_addr
  arg_port :: u16
  arg_discovery_port :: u16
  disable_discovery :: bool
  arg_bootnodes :: "string list"
  arg_genesis :: "string option"
  arg_node_id :: "string option"
  validator_registry_path :: "string option"
  node_key :: "string option"
  hash_sig_key_dir :: "string option"

text \<open>The text of key files is ASCII.\<close>

definition is_whitespace :: "char \<Rightarrow> bool" where
  "is_whitespace c \<longleftrightarrow> of_char c \<in> {9, 10, 11, 12, 13, 32 :: nat}"

definition trim :: "string \<Rightarrow> string" where
  "trim s = rev (dropWhile is_whitespace (rev (dropWhile is_whitespace s)))"

text \<open>
  What start-up reads and computes with libraries: text files, the parsed genesis file, and the public key of
  a secp256k1 secret.
\<close>

record host =
  read_text :: "string \<Rightarrow> string option"
  read_genesis :: "string \<Rightarrow> genesis_config option"
  secp_public :: "bytes \<Rightarrow> bytes option"

definition load_node_key :: "host \<Rightarrow> xmss_lib \<Rightarrow> string \<Rightarrow> libp2p_key res" where
  "load_node_key E X path =
     and_then (ok_or (read_text E path) NodeKeyUnreadable) (\<lambda>text.
     and_then (ok_or (hex_decode X (trim text)) HexDecodeFailed) (\<lambda>bs.
     map_res LibSecp256k1 (ok_or (secp_public E bs) InvalidNodeKey)))"

definition client_network_config :: "p2p_lib \<Rightarrow> args \<Rightarrow> network_service_config res" where
  "client_network_config L a =
     network_service_config_new L (set_topics (get_topics ''devnet0'') gossipsub_config_new)
       (arg_address a) (arg_port a) (arg_discovery_port a) (\<not> disable_discovery a) (arg_bootnodes a)"

text \<open>\<open>generated\<close> is the key that is generated when no usable one is given.\<close>

definition start_network ::
  "host \<Rightarrow> xmss_lib \<Rightarrow> p2p_lib \<Rightarrow> discv5_lib \<Rightarrow> swarm \<Rightarrow> bytes \<Rightarrow> args \<Rightarrow> network_service res" where
  "start_network E X L D W generated a =
     and_then (client_network_config L a) (\<lambda>c.
      case node_key a of
        Some path \<Rightarrow>
          (case load_node_key E X path of
             Ok keypair \<Rightarrow> expect (new_with_keypair L D W c 0 keypair) NetworkServiceFailed
           | _ \<Rightarrow> expect (new_with_peer_count L D W c 0 generated) NetworkServiceFailed)
      | None \<Rightarrow> expect (new_with_peer_count L D W c 0 generated) NetworkServiceFailed)"

section \<open>The running client\<close>

text \<open>
  The channels hold the messages that were sent and not yet received.  A response to a block request is passed on by a
  task of its own: \<open>relays\<close> are the messages such tasks have still to send.
\<close>

record client =
  chain :: node_state
  net :: network_service
  to_chain :: "chain_message list"
  to_net :: "outbound_p2p_request list"
  relays :: "chain_message list list"

definition client_new :: "node_state \<Rightarrow> network_service \<Rightarrow> client" where
  "client_new nd n = \<lparr>chain = nd, net = n, to_chain = [], to_net = [], relays = []\<rparr>"

text \<open>\<^verbatim>\<open>main\<close> up to the start of the tasks: the validator service and the client.\<close>

definition client_start ::
  "host \<Rightarrow> files \<Rightarrow> xmss_lib \<Rightarrow> ssz_root \<Rightarrow> p2p_lib \<Rightarrow> discv5_lib \<Rightarrow> swarm \<Rightarrow> bytes \<Rightarrow> args \<Rightarrow>
   (validator_service option \<times> client) res" where
  "client_start E F X H L D W generated a =
     and_then (load_genesis (read_genesis E) X (arg_genesis a)) (\<lambda>(time, vs).
     and_then (generate_genesis_with_validators H time vs) (\<lambda>st.
     let store = genesis_store H time st;
         service = start_validator_service F X (arg_node_id a) (validator_registry_path a) (hash_sig_key_dir a)
           (word_of_nat (length (validators st))) in
     and_then (start_network E X L D W generated a) (\<lambda>n.
     Ok (service, client_new (node_new store) n))))"

definition sent :: "node_output list \<Rightarrow> outbound_p2p_request list" where
  "sent out = List.map_filter (\<lambda>r. case r of Send q \<Rightarrow> Some q | Print _ \<Rightarrow> None) out"

definition for_chain :: "action list \<Rightarrow> chain_message list" where
  "for_chain acts = List.map_filter (\<lambda>r. case r of ToChain m \<Rightarrow> Some m | _ \<Rightarrow> None) acts"

fun spawns :: "service_event \<Rightarrow> bool" where
  "spawns (SwarmEvent (ReqRespEvent (ReceivedResponse peer q))) = True"
| "spawns _ = False"

text \<open>
  The steps, with what the network task asks of the swarm.  The swarm answers differently from step to step; the
  number of peers is read when a tick begins.
\<close>

inductive client_step ::
  "(u64 set \<Rightarrow> u64) \<Rightarrow> xmss_lib \<Rightarrow> ssz_root \<Rightarrow> p2p_lib \<Rightarrow> ssz_codec \<Rightarrow> validator_service option \<Rightarrow>
   client \<Rightarrow> action list \<Rightarrow> client \<Rightarrow> bool"
  for first_of X H L C service where
  tick: "node_step first_of X H service (Tick now later (peer_count_shared (net c))) (chain c) = Ok (nd, out) \<Longrightarrow>
    client_step first_of X H L C service c [] (c\<lparr>chain := nd, to_net := to_net c @ sent out\<rparr>)"
| receive: "to_chain c = m # ms \<Longrightarrow> node_step first_of X H service (Receive m now) (chain c) = Ok (nd, out) \<Longrightarrow>
    client_step first_of X H L C service c [] (c\<lparr>chain := nd, to_chain := ms, to_net := to_net c @ sent out\<rparr>)"
| event: "(\<forall>q. e \<noteq> OutboundRequest q) \<Longrightarrow> \<not> spawns e \<Longrightarrow> service_step L C W e (net c) = (n, acts) \<Longrightarrow>
    client_step first_of X H L C service c acts (c\<lparr>net := n, to_chain := to_chain c @ for_chain acts\<rparr>)"
| response: "spawns e \<Longrightarrow> service_step L C W e (net c) = (n, acts) \<Longrightarrow>
    client_step first_of X H L C service c acts (c\<lparr>net := n, relays := for_chain acts # relays c\<rparr>)"
| dispatch: "to_net c = q # qs \<Longrightarrow> service_step L C W (OutboundRequest q) (net c) = (n, acts) \<Longrightarrow>
    client_step first_of X H L C service c acts (c\<lparr>net := n, to_net := qs\<rparr>)"
| relay: "relays c = before @ (m # ms) # after \<Longrightarrow>
    client_step first_of X H L C service c [] (c\<lparr>to_chain := to_chain c @ [m], relays := before @ ms # after\<rparr>)"

text \<open>Runs, with all actions in order.\<close>

inductive client_run ::
  "(u64 set \<Rightarrow> u64) \<Rightarrow> xmss_lib \<Rightarrow> ssz_root \<Rightarrow> p2p_lib \<Rightarrow> ssz_codec \<Rightarrow> validator_service option \<Rightarrow>
   client \<Rightarrow> action list \<Rightarrow> client \<Rightarrow> bool"
  for first_of X H L C service c where
  start: "client_run first_of X H L C service c [] c"
| step: "client_run first_of X H L C service c acts c1 \<Longrightarrow> client_step first_of X H L C service c1 acts' c2 \<Longrightarrow>
    client_run first_of X H L C service c (acts @ acts') c2"

section \<open>What the chain task sends\<close>

text \<open>
  A block to publish is in the store, an attestation to publish names blocks of the store, and a block is asked for by
  its one root, which is not zero.
\<close>

fun request_ok :: "ssz_root \<Rightarrow> store \<Rightarrow> outbound_p2p_request \<Rightarrow> bool" where
  "request_ok H s (GossipBlockWithAttestation sb) \<longleftrightarrow>
     hm_contains_key (blocks s) (root_block H (bwa_block (sb_message sb)))"
| "request_ok H s (GossipAttestation a) \<longleftrightarrow>
     hm_contains_key (blocks s) (cp_root (ad_source (sa_message a))) \<and>
     hm_contains_key (blocks s) (cp_root (ad_target (sa_message a))) \<and>
     hm_contains_key (blocks s) (cp_root (ad_head (sa_message a)))"
| "request_ok H s (RequestBlocksByRoot roots) \<longleftrightarrow> (\<exists>r. roots = [r] \<and> r \<noteq> 0)"

lemma request_ok_forward: "forward H s s' \<Longrightarrow> store_ok H s \<Longrightarrow> request_ok H s q \<Longrightarrow> request_ok H s' q"
  by (cases q) (auto simp: forward_def evolves_def)

definition sends_ok :: "ssz_root \<Rightarrow> store \<Rightarrow> node_output list \<Rightarrow> bool" where
  "sends_ok H s out \<longleftrightarrow> (\<forall>q. Send q \<in> set out \<longrightarrow> request_ok H s q)"

lemma sends_ok_Nil [simp]: "sends_ok H s []"
  by (simp add: sends_ok_def)

lemma on_block_Ok_known:
  assumes "root_determines_slot H" and "store_ok H s" and "on_block H s sb = (s', Ok ())"
  shows "hm_contains_key (blocks s') (root_block H (bwa_block (sb_message sb)))"
proof (cases "hm_contains_key (blocks s) (root_block H (bwa_block (sb_message sb)))")
  case True
  with assms(3) show ?thesis by (simp add: on_block_def Let_def)
next
  case False
  let ?r = "root_block H (bwa_block (sb_message sb))"
  from assms(3) False obtain s1 where p: "process_block_internal H sb ?r s = (s1, Ok ())"
    and q: "run_step s1 (process_pending_blocks H [?r] s1) = (s', Ok ())"
    by (auto simp: on_block_def Let_def split: if_splits)
  from process_block_internal_cases[OF assms(1,2) HOL.refl, of sb] p
  have s1: "evolves H s s1" "hm_contains_key (blocks s1) ?r" by auto
  with assms(2) have "store_ok H s1" by (simp add: evolves_def)
  with process_pending_blocks_evolves[OF assms(1)] q have "evolves H s1 s'"
    by (auto simp: run_step_def split: res.splits)
  with s1(2) \<open>store_ok H s1\<close> show ?thesis by (simp add: evolves_def)
qed

lemma on_attestation_sends:
  assumes "on_attestation H s a False = (s', Ok ())" and "store_ok H s"
  shows "request_ok H s' (GossipAttestation a)"
proof -
  have "request_ok H s (GossipAttestation a)"
    using on_attestation_Ok[of H s a False] assms(1)
    by (auto simp: validate_attestation_data_Ok hm_contains_key_def)
  moreover have "forward H s s'" using on_attestation_forward[of H s a False] assms(1) by simp
  ultimately show ?thesis using request_ok_forward assms(2) by blast
qed

lemma broadcast_sends:
  "broadcast_attestations H as s = Ok (s', out) \<Longrightarrow> store_ok H s \<Longrightarrow> sends_ok H s' out"
proof (induction as arbitrary: s out)
  case (Cons a as)
  obtain s1 x where a: "on_attestation H s a False = (s1, x)" by fastforce
  have ok1: "store_ok H s1" using forward_ok[OF on_attestation_forward[of H s a False]] a Cons.prems(2) by simp
  show ?case
  proof (cases x)
    case (Ok u)
    with Cons.prems(1) a obtain out1 where r: "broadcast_attestations H as s1 = Ok (s', out1)"
      "out = Send (GossipAttestation a) # out1" by auto
    have "request_ok H s1 (GossipAttestation a)" using on_attestation_sends a Ok Cons.prems(2) by simp
    then have "request_ok H s' (GossipAttestation a)"
      using request_ok_forward ok1 broadcast_attestations_Ok[OF r(1)] by blast
    with Cons.IH[OF r(1) ok1] r(2) show ?thesis by (auto simp: sends_ok_def)
  qed (use Cons a ok1 in auto)
qed simp

lemma own_block_sends:
  assumes "root_determines_slot H" and "store_ok H s" and "process_own_block H now s sb = Ok (s', out)"
  shows "sends_ok H s' out"
proof -
  from assms(3) obtain s1 where s1: "on_tick s now False = Ok s1"
    by (cases "on_tick s now False") (auto simp: process_own_block_def)
  obtain s2 x where b: "on_block H s1 sb = (s2, x)" by fastforce
  have "store_ok H s1" using forward_ok[OF on_tick_forward[OF s1] assms(2)] by simp
  from on_block_Ok_known[OF assms(1) this, of sb] assms(3) s1 b show ?thesis
    by (cases x) (auto simp: process_own_block_def sends_ok_def)
qed

lemma propose_sends:
  assumes "root_determines_slot H" and "store_ok H (nd_store nd)"
    and "propose first_of X H service c now nd = Ok (nd', out)"
  shows "sends_ok H (nd_store nd') out"
proof (cases "out = []")
  case False
  with assms(3) obtain vs i s1 sb s2 where
    b: "build_block_proposal first_of X H vs (nd_store nd) c i = (s1, Ok sb)"
    and own: "process_own_block H now s1 sb = Ok (s2, out)" "nd_store nd' = s2"
    by (auto simp: propose_def split: option.splits if_splits prod.splits res.splits)
  have "store_ok H s1" using forward_ok[OF build_block_proposal_forward[OF assms(1)] assms(2)] b by (metis fst_conv)
  from own_block_sends[OF assms(1) this own(1)] own(2) show ?thesis by simp
qed simp

lemma attest_sends:
  assumes "store_ok H (nd_store nd)" and "attest X H service c nd = Ok (nd', out)"
  shows "sends_ok H (nd_store nd') out"
proof (cases "out = []")
  case False
  with assms(2) obtain atts where "broadcast_attestations H atts (nd_store nd) = Ok (nd_store nd', out)"
    by (auto simp: attest_def split: option.splits if_splits)
  with broadcast_sends assms(1) show ?thesis by blast
qed simp

lemma node_step_sends:
  assumes ok: "node_ok H nd" and run: "node_step first_of X H service e nd = Ok (nd', out)"
  shows "sends_ok H (nd_store nd') out"
proof -
  have old: "root_determines_slot H" "store_ok H (nd_store nd)" using ok by (simp_all add: node_ok_def)
  show ?thesis
  proof (cases e)
    case (Tick now later peers)
    then have "node_tick first_of X H service now later peers nd = Ok (nd', out)" using run by simp
    then show ?thesis
    proof (rule node_tick_duty)
      fix s c nd2 nd3 pre out3
      assume s: "on_tick (nd_store nd) now False = Ok s" and nd2: "nd_store nd2 = s"
        and duty: "propose first_of X H service c later nd2 = Ok (nd3, out3) \<or>
          attest X H service c nd2 = Ok (nd3, out3) \<or> nd3 = nd2 \<and> out3 = []"
        and out: "\<forall>r \<in> set pre. \<exists>st. r = Print st" "out = pre @ out3" "nd_store nd' = nd_store nd3"
      have "store_ok H (nd_store nd2)" using forward_ok[OF on_tick_forward[OF s] old(2)] nd2 by simp
      with duty have "sends_ok H (nd_store nd3) out3"
        using propose_sends[OF old(1)] attest_sends by fastforce
      with out show ?thesis by (auto simp: sends_ok_def)
    qed
  next
    case (Receive m now)
    show ?thesis
    proof (cases m)
      case (ProcessBlock sb trusted gossip)
      with run Receive obtain s1 where s1: "on_tick (nd_store nd) now False = Ok s1"
        by (cases "on_tick (nd_store nd) now False") (auto simp: receive_block_def Let_def)
      obtain s2 x where b: "on_block H s1 sb = (s2, x)" by fastforce
      have "store_ok H s1" using forward_ok[OF on_tick_forward[OF s1] old(2)] by simp
      from on_block_Ok_known[OF old(1) this, of sb] run Receive ProcessBlock s1 b show ?thesis
        by (cases x) (auto simp: receive_block_def Let_def sends_ok_def split: if_splits)
    next
      case (ProcessAttestation a trusted gossip)
      obtain s2 x where b: "on_attestation H (nd_store nd) a False = (s2, x)" by fastforce
      with on_attestation_sends[of H "nd_store nd" a s2] old(2) run Receive ProcessAttestation show ?thesis
        by (cases x) (auto simp: receive_attestation_def sends_ok_def split: if_splits)
    qed
  qed
qed

section \<open>The invariant of the client\<close>

definition devnet_topics :: "network_service \<Rightarrow> bool" where
  "devnet_topics n \<longleftrightarrow> topics (gossip_conf (network_config n)) = get_topics ''devnet0''"

lemma connect_to_peers_config: "network_config (fst (connect_to_peers W addrs n)) = network_config n"
  by (induction addrs arbitrary: n) (simp_all add: Let_def case_prod_unfold split: option.split)

lemma set_peer_config [simp]: "network_config (set_peer p st n) = network_config n"
  by (simp add: set_peer_def Let_def)

lemma service_step_config: "network_config (fst (service_step L C W e n)) = network_config n"
proof (cases e)
  case (SwarmEvent se)
  then show ?thesis by (cases se) simp_all
next
  case (DiscoveredRecord r)
  then show ?thesis
    by (cases r) (simp_all add: connect_to_peers_config del: connect_to_peers.simps split: option.split)
qed (simp_all add: connect_to_peers_config)

definition client_ok :: "ssz_root \<Rightarrow> client \<Rightarrow> bool" where
  "client_ok H c \<longleftrightarrow> node_ok H (chain c) \<and> service_ok (net c) \<and> devnet_topics (net c) \<and>
     (\<forall>q \<in> set (to_net c). request_ok H (nd_store (chain c)) q)"

lemma set_sent: "set (sent out) = {q. Send q \<in> set out}"
  by (induction out) (auto simp: sent_def map_filter_simps split: node_output.splits)

lemma node_step_forward:
  assumes "node_ok H nd" and "node_step first_of X H service e nd = Ok (nd', out)"
  shows "forward H (nd_store nd) (nd_store nd')"
proof (cases e)
  case (Tick now later peers)
  show ?thesis using assms(1) assms(2)[unfolded Tick node_step.simps]
    by (rule node_tick_Ok) (blast intro: forward_trans)
next
  case (Receive m now)
  with receive_Ok[of H first_of X service m now nd nd' out] assms show ?thesis by (auto simp: node_ok_def)
qed

lemma chain_step_ok:
  assumes ok: "client_ok H c" and run: "node_step first_of X H service e (chain c) = Ok (nd, out)"
    and q: "q \<in> set (to_net c @ sent out)"
  shows "request_ok H (nd_store nd) q"
proof -
  have nd: "node_ok H (chain c)" using ok by (simp add: client_ok_def)
  from q consider "q \<in> set (to_net c)" | "Send q \<in> set out" by (auto simp: set_sent)
  then show ?thesis
  proof cases
    case 1
    then have "request_ok H (nd_store (chain c)) q" using ok by (simp add: client_ok_def)
    with request_ok_forward[OF node_step_forward[OF nd run]] nd show ?thesis by (simp add: node_ok_def)
  next
    case 2
    with node_step_sends[OF nd run] show ?thesis by (simp add: sends_ok_def)
  qed
qed

lemma net_step_ok:
  assumes "client_ok H c" and "service_step L C W e (net c) = (n, acts)"
  shows "service_ok n" and "devnet_topics n"
  using assms service_step_ok[of "net c" L C W e] service_step_config[of L C W e "net c"]
  by (simp_all add: client_ok_def devnet_topics_def)

lemma client_step_ok:
  assumes "client_step first_of X H L C service c acts c'" and "client_ok H c"
  shows "client_ok H c'" and "forward H (nd_store (chain c)) (nd_store (chain c'))"
proof -
  have "client_ok H c' \<and> forward H (nd_store (chain c)) (nd_store (chain c'))"
    using assms
  proof (induction rule: client_step.induct)
    case (tick now later c nd out)
    have nd: "node_ok H (chain c)" using tick.prems by (simp add: client_ok_def)
    from chain_step_ok[OF tick.prems tick.hyps] node_step_ok[OF nd tick.hyps] node_step_forward[OF nd tick.hyps] tick.prems
    show ?case by (simp add: client_ok_def)
  next
    case (receive c m ms now nd out)
    have nd: "node_ok H (chain c)" using receive.prems by (simp add: client_ok_def)
    from chain_step_ok[OF receive.prems receive.hyps(2)] node_step_ok[OF nd receive.hyps(2)]
      node_step_forward[OF nd receive.hyps(2)] receive.prems
    show ?case by (simp add: client_ok_def)
  next
    case (event e W c n acts)
    from net_step_ok[OF event.prems event.hyps(3)] event.prems show ?case by (simp add: client_ok_def)
  next
    case (response e W c n acts)
    from net_step_ok[OF response.prems response.hyps(2)] response.prems show ?case by (simp add: client_ok_def)
  next
    case (dispatch c q qs W n acts)
    from net_step_ok[OF dispatch.prems dispatch.hyps(2)] dispatch.prems dispatch.hyps(1)
    show ?case by (simp add: client_ok_def)
  next
    case (relay c before m ms after)
    then show ?case by (simp add: client_ok_def)
  qed
  then show "client_ok H c'" "forward H (nd_store (chain c)) (nd_store (chain c'))" by simp_all
qed

text \<open>What the network task puts on the wire.\<close>

definition block_topic_text :: string where
  "block_topic_text = topic_to_string \<lparr>fork = ''devnet0'', kind = BlockKind\<rparr>"

definition attestation_topic_text :: string where
  "attestation_topic_text = topic_to_string \<lparr>fork = ''devnet0'', kind = AttestationKind\<rparr>"

fun wire_ok :: "ssz_root \<Rightarrow> ssz_codec \<Rightarrow> store \<Rightarrow> action \<Rightarrow> bool" where
  "wire_ok H C s (Publish topic data) \<longleftrightarrow>
     (\<exists>sb. topic = block_topic_text \<and> block_to_ssz C sb = Some data \<and> request_ok H s (GossipBlockWithAttestation sb)) \<or>
     (\<exists>a. topic = attestation_topic_text \<and> attestation_to_ssz C a = Some data \<and> request_ok H s (GossipAttestation a))"
| "wire_ok H C s (SendRequest peer (BlocksByRootRequest roots)) \<longleftrightarrow> (\<exists>r. roots = [r] \<and> r \<noteq> 0)"
| "wire_ok H C s _ \<longleftrightarrow> True"

lemma wire_ok_forward: "forward H s s' \<Longrightarrow> store_ok H s \<Longrightarrow> wire_ok H C s act \<Longrightarrow> wire_ok H C s' act"
  by (cases "(H, C, s, act)" rule: wire_ok.cases) (auto dest: request_ok_forward simp del: request_ok.simps)

lemma devnet_publish:
  assumes "devnet_topics n" and "act \<in> set (attempted (publish_to_topic W n k data))"
  shows "act = Publish (topic_to_string \<lparr>fork = ''devnet0'', kind = k\<rparr>) data"
  using assms
  by (cases k) (simp_all add: devnet_topics_def get_topics_def publish_to_topic_def attempted_def split: if_splits)

lemma dispatch_wire:
  assumes "devnet_topics n" and "request_ok H s q" and "act \<in> set (dispatch_outbound_request C W q n)"
  shows "wire_ok H C s act"
proof (cases q)
  case (GossipBlockWithAttestation sb)
  with assms show ?thesis by (auto simp: block_topic_text_def dest!: devnet_publish split: option.splits)
next
  case (GossipAttestation a)
  with assms show ?thesis by (auto simp: attestation_topic_text_def dest!: devnet_publish split: option.splits)
next
  case (RequestBlocksByRoot roots)
  with assms show ?thesis by (auto simp: send_blocks_by_root_request_def split: option.splits if_splits)
qed

lemma other_wire:
  assumes "\<forall>q. e \<noteq> OutboundRequest q" and "act \<in> set (snd (service_step L C W e n))"
  shows "wire_ok H C s act"
proof -
  have dial: "wire_ok H C s act" if "act \<in> set (snd (connect_to_peers W addrs n))" for addrs
    using connect_to_peers_keeps(5)[OF prod.collapse[symmetric] that] by auto
  show ?thesis
  proof (cases e)
    case (SwarmEvent se)
    with assms(2) have act: "act \<in> set (fst (snd (parse_swarm_event C se n)))" by (simp add: case_prod_unfold Let_def)
    show ?thesis
    proof (cases se)
      case (GossipsubEvent g)
      with act show ?thesis
        by (cases g) (auto simp del: handle_gossipsub_event.simps(1) dest!: handled_messages)
    next
      case (ReqRespEvent q)
      with act show ?thesis by (cases q rule: handle_request_response_event.cases) auto
    qed (use act in \<open>auto simp: send_status_request_def split: if_splits\<close>)
  next
    case (DiscoveredRecord r)
    with assms(2) dial show ?thesis by (cases r) (simp_all del: connect_to_peers.simps split: option.splits if_splits)
  qed (use assms dial in \<open>auto split: option.splits\<close>)
qed

lemma client_step_wire:
  assumes "client_step first_of X H L C service c acts c'" and "client_ok H c" and "act \<in> set acts"
  shows "wire_ok H C (nd_store (chain c')) act"
  using assms
proof (induction rule: client_step.induct)
  case (event e W c n acts)
  with other_wire[of e act L C W "net c"] show ?case by simp
next
  case (response e W c n acts)
  then have "\<forall>q. e \<noteq> OutboundRequest q" by auto
  with response other_wire[of e act L C W "net c"] show ?case by simp
next
  case (dispatch c q qs W n acts)
  then have ok: "devnet_topics (net c)" "request_ok H (nd_store (chain c)) q" by (simp_all add: client_ok_def)
  have "act \<in> set (dispatch_outbound_request C W q (net c))" using dispatch.hyps(2) dispatch.prems(2) by auto
  from dispatch_wire[OF ok this] show ?case by simp
qed simp_all

lemma client_run_ok:
  assumes "client_run first_of X H L C service c acts c'" and "client_ok H c"
  shows "client_ok H c' \<and> (\<forall>act \<in> set acts. wire_ok H C (nd_store (chain c')) act) \<and>
    forward H (nd_store (chain c)) (nd_store (chain c'))"
  using assms
proof (induction rule: client_run.induct)
  case (step acts c1 acts' c2)
  then have ok: "client_ok H c1" and old: "\<forall>act \<in> set acts. wire_ok H C (nd_store (chain c1)) act" 
    and f: "forward H (nd_store (chain c)) (nd_store (chain c1))" by simp_all
  note s = client_step_ok[OF step.hyps(2) ok]
  have "store_ok H (nd_store (chain c1))" using ok by (simp add: client_ok_def node_ok_def)
  with old s(2) have "\<forall>act \<in> set acts. wire_ok H C (nd_store (chain c2)) act" by (blast intro: wire_ok_forward)
  with s client_step_wire[OF step.hyps(2) ok] f show ?case by (auto intro: forward_trans)
qed simp

text \<open>The client that \<^verbatim>\<open>main\<close> starts.\<close>

lemma client_new_ok:
  assumes "node_ok H nd" and "new_with_keypair L D W conf 0 key = Ok n"
    and "topics (gossip_conf conf) = get_topics ''devnet0''"
  shows "client_ok H (client_new nd n)"
proof -
  have "network_config n = conf" using assms(2) by (auto simp: new_with_keypair_def Let_def)
  with assms new_with_keypair_ok[OF assms(2)] show ?thesis by (simp add: client_ok_def client_new_def devnet_topics_def)
qed

lemma start_network_Ok:
  assumes "start_network E X L D W generated a = Ok n"
  shows "\<exists>conf key. client_network_config L a = Ok conf \<and> new_with_keypair L D W conf 0 key = Ok n"
proof -
  from assms obtain conf where conf: "client_network_config L a = Ok conf"
    and start: "(case node_key a of
        Some path \<Rightarrow>
          (case load_node_key E X path of
             Ok keypair \<Rightarrow> expect (new_with_keypair L D W conf 0 keypair) NetworkServiceFailed
           | _ \<Rightarrow> expect (new_with_peer_count L D W conf 0 generated) NetworkServiceFailed)
      | None \<Rightarrow> expect (new_with_peer_count L D W conf 0 generated) NetworkServiceFailed) = Ok n"
    by (auto simp: start_network_def)
  from start have "\<exists>key. new_with_keypair L D W conf 0 key = Ok n"
    by (auto simp: new_with_peer_count_def split: option.splits res.splits)
  with conf show ?thesis by blast
qed

lemma client_start_ok:
  assumes "root_determines_slot H" and "load_genesis (read_genesis E) X (arg_genesis a) = Ok (time, vs)"
    and "vs \<noteq> []" and "length vs \<le> validator_registry_limit"
    and "client_start E F X H L D W generated a = Ok (service, c)"
  shows "client_ok H c"
proof -
  from assms(2,5) obtain st n where st: "generate_genesis_with_validators H time vs = Ok st"
    and n: "start_network E X L D W generated a = Ok n" and c: "c = client_new (node_new (genesis_store H time st)) n"
    by (auto simp: client_start_def Let_def)
  obtain conf key where conf: "client_network_config L a = Ok conf" and new: "new_with_keypair L D W conf 0 key = Ok n"
    using start_network_Ok[OF n] by blast
  from conf have "topics (gossip_conf conf) = get_topics ''devnet0''"
    by (auto simp: client_network_config_def network_service_config_new_def set_topics_def Let_def)
  then show ?thesis
    unfolding c by (rule client_new_ok[OF node_new_ok[OF assms(1) st assms(3,4)] new])
qed

section \<open>Examples\<close>

definition sample_block_ssz :: ssz_codec where
  "sample_block_ssz = sample_ssz\<lparr>block_to_ssz := (\<lambda>sb. Some [7])\<rparr>"

lemma sample_network_started:
  obtains n where "new_with_keypair sample_p2p sample_discv5 sample_swarm sample_network_config 0 (LibSecp256k1 []) = Ok n"
    and "peer_count_shared n = 0" and "network_config n = sample_network_config"
  by (simp add: new_with_keypair_def build_behaviour_def listen_on_def Let_def sample_swarm_def sample_network_config_def
      set_topics_def get_topics_def)

text \<open>A client that proposes the block of slot 1 and publishes it.\<close>

lemma sample_client_run:
  obtains n c sb where "client_ok sample_root (client_new (node_new sample_store) n)"
    and "client_run Min lenient_lib sample_root sample_p2p sample_block_ssz (Some sample_keyed)
      (client_new (node_new sample_store) n) [Publish block_topic_text [7]] c"
proof -
  obtain n where n: "new_with_keypair sample_p2p sample_discv5 sample_swarm sample_network_config 0 (LibSecp256k1 []) = Ok n"
    and count: "peer_count_shared n = 0" and conf: "network_config n = sample_network_config"
    by (rule sample_network_started)
  have topics: "topics (gossip_conf sample_network_config) = get_topics ''devnet0''"
    by (simp add: sample_network_config_def set_topics_def)
  have nd: "node_ok sample_root (node_new sample_store)"
    using sample_store_ok sample_root_slot by (simp add: node_ok_def node_new_def reached_def)
  let ?c0 = "client_new (node_new sample_store) n"
  obtain nd1 sb pre where run: "trace (node_step Min lenient_lib sample_root (Some sample_keyed)) [Tick 4 4 0]
      (node_new sample_store) = Ok (nd1, [(Tick 4 4 0, pre @ [Send (GossipBlockWithAttestation sb)])])"
    and pre: "\<forall>r \<in> set pre. \<exists>st. r = Print st"
    by (rule sample_node_proposes)
  from run have tick: "node_step Min lenient_lib sample_root (Some sample_keyed) (Tick 4 4 (peer_count_shared (net ?c0)))
      (chain ?c0) = Ok (nd1, pre @ [Send (GossipBlockWithAttestation sb)])"
    by (auto simp: client_new_def count)
  have sent: "sent (pre @ [Send (GossipBlockWithAttestation sb)]) = [GossipBlockWithAttestation sb]"
    using pre by (induction pre) (auto simp: sent_def map_filter_simps)
  note first = client_step.tick[where L = sample_p2p and C = sample_block_ssz, OF tick]
  let ?c1 = "?c0\<lparr>chain := nd1, to_net := to_net ?c0 @ sent (pre @ [Send (GossipBlockWithAttestation sb)])\<rparr>"
  have queue: "to_net ?c1 = [GossipBlockWithAttestation sb]" by (simp add: client_new_def sent)
  have "service_step sample_p2p sample_block_ssz sample_swarm (OutboundRequest (GossipBlockWithAttestation sb)) (net ?c1) =
      (n, [Publish block_topic_text [7]])"
    by (simp add: client_new_def sample_block_ssz_def publish_to_topic_def conf topics get_topics_def attempted_def
        sample_swarm_def block_topic_text_def)
  note second = client_step.dispatch[OF queue this]
  from client_run.step[OF client_run.step[OF client_run.start first] second] that[OF client_new_ok[OF nd n topics]]
  show ?thesis by simp
qed

text \<open>The client without a genesis file.\<close>

definition sample_host :: host where
  "sample_host = \<lparr>read_text = (\<lambda>p. None), read_genesis = (\<lambda>p. None), secp_public = (\<lambda>b. None)\<rparr>"

definition sample_args :: args where
  "sample_args = \<lparr>arg_address = V4 0, arg_port = 8083, arg_discovery_port = 8084, disable_discovery = False,
     arg_bootnodes = [], arg_genesis = None, arg_node_id = None, validator_registry_path = None, node_key = Some ''key'',
     hash_sig_key_dir = None\<rparr>"

lemma sample_client_start:
  "\<exists>service c. client_start sample_host sample_files lenient_lib sample_root sample_p2p sample_discv5 sample_swarm [5]
    sample_args = Ok (service, c)"
  by (simp add: client_start_def sample_args_def load_genesis_def generate_genesis_with_validators_def push_validators_def
      push_all validator_registry_limit_def map_res_def start_network_def Let_def load_node_key_def sample_host_def
      new_with_peer_count_def new_with_keypair_def build_behaviour_def listen_on_def sample_swarm_def client_network_config_def
      network_service_config_new_def set_topics_def get_topics_def ok_or_def)

end
