(* ===== verification/Chain_Config.thy ===== *)
theory Chain_Config
  imports Fork_Choice
begin

text \<open>
  \<^verbatim>\<open>chain/src/config.rs\<close>: basis points and the devnet configuration, whose numbers are the constants that
  the fork choice and the containers are compiled with.
\<close>

section \<open>Basis points\<close>

datatype basis_point = BasisPoint u64

definition basis_point_max :: u64 where
  "basis_point_max = 10000"

definition basis_point_new :: "u64 \<Rightarrow> basis_point option" where
  "basis_point_new v = (if v \<le> basis_point_max then Some (BasisPoint v) else None)"

fun basis_point_get :: "basis_point \<Rightarrow> u64" where
  "basis_point_get (BasisPoint v) = v"

section \<open>The configuration\<close>

record chain_config =
  cc_intervals_per_slot :: u64
  slot_duration_ms :: u64
  second_per_slot :: u64
  cc_seconds_per_interval :: u64
  cc_justification_lookback_slots :: u64
  proposer_reorg_cutoff_bps :: basis_point
  vote_due_bps :: basis_point
  fast_confirm_due_bps :: basis_point
  view_freeze_cutoff_bps :: basis_point
  cc_historical_roots_limit :: u64
  cc_validator_registry_limit :: u64

definition devnet :: "chain_config res" where
  "devnet =
     (let duration = 4000;
          seconds = duration div 1000;
          intervals = 4 in
      and_then (or_panic (basis_point_new 2500) InvalidBasisPoints) (\<lambda>reorg.
      and_then (or_panic (basis_point_new 5000) InvalidBasisPoints) (\<lambda>vote.
      and_then (or_panic (basis_point_new 7500) InvalidBasisPoints) (\<lambda>confirm.
      and_then (or_panic (basis_point_new 7500) InvalidBasisPoints) (\<lambda>freeze.
      Ok \<lparr>cc_intervals_per_slot = intervals, slot_duration_ms = duration, second_per_slot = seconds,
          cc_seconds_per_interval = seconds div intervals, cc_justification_lookback_slots = 3,
          proposer_reorg_cutoff_bps = reorg, vote_due_bps = vote, fast_confirm_due_bps = confirm,
          view_freeze_cutoff_bps = freeze, cc_historical_roots_limit = push_bit 18 1,
          cc_validator_registry_limit = push_bit 12 1\<rparr>)))))"

text \<open>A basis point is a share of at most one.\<close>

lemma basis_point_new_Some: "basis_point_new v = Some p \<longleftrightarrow> p = BasisPoint v \<and> unat v \<le> 10000"
  by (auto simp: basis_point_new_def basis_point_max_def word_le_nat_alt)

text \<open>
  The devnet configuration exists, its numbers are the constants the other components use, an interval is a whole
  number of seconds and the deadlines of a slot are in order.
\<close>

lemma devnet_constants:
  obtains c where "devnet = Ok c"
    and "cc_intervals_per_slot c = intervals_per_slot" and "second_per_slot c = seconds_per_slot"
    and "cc_seconds_per_interval c = seconds_per_interval"
    and "unat (cc_justification_lookback_slots c) = justification_lookback_slots"
    and "unat (cc_historical_roots_limit c) = historical_roots_limit"
    and "unat (cc_validator_registry_limit c) = validator_registry_limit"
    and "cc_seconds_per_interval c * cc_intervals_per_slot c * 1000 = slot_duration_ms c"
    and "basis_point_get (proposer_reorg_cutoff_bps c) < basis_point_get (vote_due_bps c)"
    and "basis_point_get (vote_due_bps c) < basis_point_get (fast_confirm_due_bps c)"
    and "basis_point_get (fast_confirm_due_bps c) \<le> basis_point_get (view_freeze_cutoff_bps c)"
  by (simp add: devnet_def Let_def basis_point_new_def basis_point_max_def intervals_per_slot_def seconds_per_slot_def
      seconds_per_interval_def justification_lookback_slots_def historical_roots_limit_def validator_registry_limit_def
      or_panic_def)

end
