(* ===== verification/Serde_Helpers.thy ===== *)
theory Serde_Helpers
  imports Xmss
begin

text \<open>
  \<^verbatim>\<open>containers/src/serde_helpers.rs\<close>: the JSON form of the test vectors, in which a collection stands inside an
  object with the one field \<^verbatim>\<open>data\<close>.  A derived deserializer takes a struct from an object with its
  fields, each given once and others ignored, or from the array of its fields.  The SSZ coding of bit lists and the
  hex coding are library code.
\<close>

section \<open>JSON values\<close>

datatype json = JNull | JBool bool | JNumber int | JString string | JArray "json list" | JObject "(string \<times> json) list"

fun data_wrapper :: "(json \<Rightarrow> 'a res) \<Rightarrow> json \<Rightarrow> 'a res" where
  "data_wrapper d (JObject members) =
     (case filter (\<lambda>(k, _). k = ''data'') members of
        [(_, v)] \<Rightarrow> d v
      | _ \<Rightarrow> Err JsonMismatch)"
| "data_wrapper d (JArray [v]) = d v"
| "data_wrapper d _ = Err JsonMismatch"

definition wrapped :: "json \<Rightarrow> json" where
  "wrapped j = JObject [(''data'', j)]"

definition data_deserialize :: "(json \<Rightarrow> 'a res) \<Rightarrow> json \<Rightarrow> 'a res" where
  "data_deserialize d j = data_wrapper d j"

definition data_serialize :: "('a \<Rightarrow> json res) \<Rightarrow> 'a \<Rightarrow> json res" where
  "data_serialize f v = map_res wrapped (f v)"

text \<open>\<^verbatim>\<open>trim_start_matches("0x")\<close> strips the prefix as often as it is there.\<close>

fun trim_start_0x :: "string \<Rightarrow> string" where
  "trim_start_0x (a # b # s) = (if a = CHR ''0'' \<and> b = CHR ''x'' then trim_start_0x s else a # b # s)"
| "trim_start_0x s = s"

fun json_bools :: "json list \<Rightarrow> bool list res" where
  "json_bools [] = Ok []"
| "json_bools (JBool b # js) = map_res ((#) b) (json_bools js)"
| "json_bools _ = Err JsonMismatch"

section \<open>Bit lists\<close>

record bitlist_ssz =
  bits_write :: "bool list \<Rightarrow> bytes"
  bits_read :: "bytes \<Rightarrow> bool list option"

fun bitlist_data :: "xmss_lib \<Rightarrow> bitlist_ssz \<Rightarrow> json \<Rightarrow> bool list res" where
  "bitlist_data X B (JString s) =
     (let hex_str = trim_start_0x s in
      if hex_str = [] then Ok []
      else and_then (ok_or (hex_decode X hex_str) HexDecodeFailed) (\<lambda>bs. ok_or (bits_read B bs) BitListInvalid))"
| "bitlist_data X B (JArray js) = json_bools js"
| "bitlist_data X B _ = Err JsonMismatch"

definition bitlist_deserialize :: "xmss_lib \<Rightarrow> bitlist_ssz \<Rightarrow> json \<Rightarrow> bool list res" where
  "bitlist_deserialize X B j = data_wrapper (bitlist_data X B) j"

definition bitlist_serialize :: "xmss_lib \<Rightarrow> bitlist_ssz \<Rightarrow> bool list \<Rightarrow> json res" where
  "bitlist_serialize X B bits = Ok (wrapped (JString (''0x'' @ hex_encode X (bits_write B bits))))"

section \<open>Byte lists\<close>

fun byte_list_data :: "xmss_lib \<Rightarrow> nat \<Rightarrow> json \<Rightarrow> bytes res" where
  "byte_list_data X limit (JString s) =
     (let hex_str = trim_start_0x s in
      if hex_str = [] then Ok []
      else
        and_then (ok_or (hex_decode X hex_str) HexDecodeFailed) (\<lambda>bs.
        if length bs \<le> limit then Ok bs else Err ListFull))"
| "byte_list_data X limit _ = Err JsonMismatch"

definition byte_list_deserialize :: "xmss_lib \<Rightarrow> nat \<Rightarrow> json \<Rightarrow> bytes res" where
  "byte_list_deserialize X limit j = data_wrapper (byte_list_data X limit) j"

definition byte_list_serialize :: "xmss_lib \<Rightarrow> bytes \<Rightarrow> json res" where
  "byte_list_serialize X bs = Ok (JString (''0x'' @ hex_encode X bs))"

section \<open>Lists of attestations and of proofs\<close>

text \<open>The items are read by \<open>d\<close> and pushed one by one into a list of at most 4096.\<close>

fun json_items :: "(json \<Rightarrow> 'a res) \<Rightarrow> json \<Rightarrow> 'a list res" where
  "json_items d (JArray js) = map_collect d js"
| "json_items d _ = Err JsonMismatch"

definition push_items :: "'a list \<Rightarrow> 'a list res" where
  "push_items items = for_each (\<lambda>x out. plist_push validator_registry_limit out x) items []"

definition attestation_signatures_deserialize ::
  "(json \<Rightarrow> aggregated_signature_proof res) \<Rightarrow> json \<Rightarrow> aggregated_signature_proof list res" where
  "attestation_signatures_deserialize d j = and_then (data_wrapper (json_items d) j) push_items"

definition attestation_signatures_serialize :: "aggregated_signature_proof list \<Rightarrow> json res" where
  "attestation_signatures_serialize v = Err SerializationUnsupported"

definition aggregated_attestations_deserialize ::
  "(json \<Rightarrow> aggregated_attestation res) \<Rightarrow> json \<Rightarrow> aggregated_attestation list res" where
  "aggregated_attestations_deserialize d j = and_then (data_wrapper (json_items d) j) push_items"

definition aggregated_attestations_serialize :: "aggregated_attestation list \<Rightarrow> json res" where
  "aggregated_attestations_serialize v = Err SerializationUnsupported"

section \<open>What is read back\<close>

lemma data_wrapper_wrapped [simp]: "data_wrapper d (wrapped j) = d j"
  by (simp add: wrapped_def)

lemma trim_start_0x_no_x: "CHR ''x'' \<notin> set s \<Longrightarrow> trim_start_0x s = s"
  by (cases s rule: trim_start_0x.cases) auto

text \<open>The wrapper is read back when its content is.\<close>

lemma data_roundtrip: "f v = Ok j \<Longrightarrow> d j = Ok v \<Longrightarrow> data_serialize f v = Ok w \<Longrightarrow> data_deserialize d w = Ok v"
  by (auto simp: data_serialize_def data_deserialize_def)

text \<open>A bit list is read back as it was written; an array of truth values is read as it stands.\<close>

lemma bitlist_roundtrip:
  assumes "\<And>bs. hex_decode X (hex_encode X bs) = Some bs" and "\<And>bs. CHR ''x'' \<notin> set (hex_encode X bs)"
    and "\<And>bs. hex_encode X bs = [] \<longleftrightarrow> bs = []"
    and "bits_write B bits \<noteq> []" and "bits_read B (bits_write B bits) = Some bits"
    and "bitlist_serialize X B bits = Ok j"
  shows "bitlist_deserialize X B j = Ok bits"
proof -
  have "j = wrapped (JString (''0x'' @ hex_encode X (bits_write B bits)))"
    using assms(6) by (simp add: bitlist_serialize_def)
  with assms(1,3-5) trim_start_0x_no_x[OF assms(2)] show ?thesis
    by (simp add: bitlist_deserialize_def)
qed

lemma json_bools_map: "json_bools (map JBool bits) = Ok bits"
  by (induction bits) simp_all

lemma bitlist_from_bools: "bitlist_deserialize X B (wrapped (JArray (map JBool bits))) = Ok bits"
  by (simp add: bitlist_deserialize_def json_bools_map)

text \<open>
  \<^verbatim>\<open>byte_list\<close> writes a bare string and reads only wrapped ones: nothing that it writes is read back.
\<close>

lemma byte_list_not_read_back:
  "byte_list_serialize X bs = Ok j \<Longrightarrow> byte_list_deserialize X limit j = Err JsonMismatch"
  by (auto simp: byte_list_serialize_def byte_list_deserialize_def)

text \<open>Lists of up to 4096 items are read whole, longer ones refused.\<close>

lemma push_items_Ok: "push_items items = (if length items \<le> validator_registry_limit then Ok items else Err ListFull)"
proof -
  have "for_each (\<lambda>x out. plist_push n out x) items out =
      (if length out + length items \<le> n \<or> items = [] then Ok (out @ items) else Err ListFull)" for n out
    by (induction items arbitrary: out) (auto simp: plist_push_def)
  then show ?thesis by (auto simp: push_items_def)
qed

lemma attestation_signatures_from_array:
  assumes "map_collect d js = Ok items"
  shows "attestation_signatures_deserialize d (wrapped (JArray js)) =
    (if length items \<le> validator_registry_limit then Ok items else Err ListFull)"
  using assms by (simp add: attestation_signatures_deserialize_def push_items_Ok)

lemma aggregated_attestations_from_array:
  assumes "map_collect d js = Ok items"
  shows "aggregated_attestations_deserialize d (wrapped (JArray js)) =
    (if length items \<le> validator_registry_limit then Ok items else Err ListFull)"
  using assms by (simp add: aggregated_attestations_deserialize_def push_items_Ok)

end
