(* ===== verification/Xmss_Serde.thy ===== *)
theory Xmss_Serde
  imports Serde_Helpers
begin

text \<open>
  The other forms of keys and signatures in the crate \<^verbatim>\<open>xmss\<close>: SSZ for public keys, JSON for public keys, signatures
  and aggregated signatures, the conversions from library values, and the generation of key pairs.  Merkleization
  and key generation are library code and arguments of the definitions.
\<close>

section \<open>Derived deserializers\<close>

text \<open>
  A struct is read from an object that has each field once, others ignored, or from the array of its fields.
\<close>

fun struct_members :: "string list \<Rightarrow> json \<Rightarrow> json list res" where
  "struct_members names (JObject members) =
     map_collect (\<lambda>name. case filter (\<lambda>(k, _). k = name) members of [(_, v)] \<Rightarrow> Ok v | _ \<Rightarrow> Err JsonMismatch) names"
| "struct_members names (JArray js) = (if length js = length names then Ok js else Err JsonMismatch)"
| "struct_members names _ = Err JsonMismatch"

fun json_u32 :: "json \<Rightarrow> u32 res" where
  "json_u32 (JNumber i) = (if 0 \<le> i \<and> i < 2 ^ 32 then Ok (word_of_int i) else Err JsonMismatch)"
| "json_u32 _ = Err JsonMismatch"

fun json_string :: "json \<Rightarrow> string res" where
  "json_string (JString s) = Ok s"
| "json_string _ = Err JsonMismatch"

definition u32_list_json :: "json \<Rightarrow> u32 list res" where
  "u32_list_json j = data_wrapper (json_items json_u32) j"

definition u32_lists_json :: "json \<Rightarrow> u32 list list res" where
  "u32_lists_json j = data_wrapper (json_items u32_list_json) j"

section \<open>Public keys\<close>

definition public_key_ssz_size :: nat where
  "public_key_ssz_size = 52"

definition public_key_from_ssz_unchecked :: "bytes \<Rightarrow> public_key res" where
  "public_key_from_ssz_unchecked bs = (if length bs = public_key_ssz_size then Ok (PublicKey bs) else Panic BadEncoding)"

text \<open>\<^verbatim>\<open>copy_from_slice\<close> panics unless the lengths agree.\<close>

definition public_key_write_fixed :: "public_key \<Rightarrow> bytes \<Rightarrow> bytes res" where
  "public_key_write_fixed k bs = (if length bs = length (pk_bytes k) then Ok (pk_bytes k) else Panic BadEncoding)"

definition public_key_hash_tree_root :: "(bytes \<Rightarrow> h256) \<Rightarrow> public_key \<Rightarrow> h256" where
  "public_key_hash_tree_root merkleize_bytes k = merkleize_bytes (pk_bytes k)"

definition public_key_from_lean :: "bytes \<Rightarrow> public_key res" where
  "public_key_from_lean bs = (if length bs = 52 then Ok (PublicKey bs) else Panic BadEncoding)"

definition public_key_try_from :: "xmss_lib \<Rightarrow> bytes \<Rightarrow> public_key res" where
  "public_key_try_from X bs = public_key_new X bs"

definition public_key_debug :: "xmss_lib \<Rightarrow> public_key \<Rightarrow> string" where
  "public_key_debug X k = ''0x'' @ hex_encode X (pk_bytes k)"

definition public_key_serialize :: "xmss_lib \<Rightarrow> public_key \<Rightarrow> json res" where
  "public_key_serialize X k = Ok (JString (public_key_to_string X k))"

fun public_key_deserialize :: "xmss_lib \<Rightarrow> json \<Rightarrow> public_key res" where
  "public_key_deserialize X (JString s) = public_key_from_str X s"
| "public_key_deserialize X _ = Err JsonMismatch"

section \<open>Secret keys\<close>

definition secret_key_from_lean :: "bytes \<Rightarrow> secret_key" where
  "secret_key_from_lean bs = SecretKey bs"

definition generate_key_pair ::
  "('rng \<Rightarrow> nat \<Rightarrow> nat \<Rightarrow> (bytes \<times> bytes) \<times> 'rng) \<Rightarrow> 'rng \<Rightarrow> u32 \<Rightarrow> u32 \<Rightarrow>
   ((public_key \<times> secret_key) \<times> 'rng) res" where
  "generate_key_pair key_gen rng activation_epoch num_active_epochs =
     (let ((public_key, secret_key), rng') = key_gen rng (unat activation_epoch) (unat num_active_epochs) in
      map_res (\<lambda>pk. ((pk, secret_key_from_lean secret_key), rng')) (public_key_from_lean public_key))"

section \<open>Signatures\<close>

definition signature_try_from :: "xmss_lib \<Rightarrow> bytes \<Rightarrow> signature res" where
  "signature_try_from X bs = signature_new X bs"

definition signature_debug :: "xmss_lib \<Rightarrow> signature \<Rightarrow> string" where
  "signature_debug X s = ''0x'' @ hex_encode X (sig_bytes s)"

definition signature_serialize :: "xmss_lib \<Rightarrow> signature \<Rightarrow> json res" where
  "signature_serialize X s = Ok (JString (signature_to_string X s))"

text \<open>The fields of the JSON form, which \<open>signature_deserialize\<close> then lays out.\<close>

definition xmss_path_json :: "json \<Rightarrow> u32 list list res" where
  "xmss_path_json j = and_then (struct_members [''siblings''] j) (\<lambda>vs. u32_lists_json (hd vs))"

definition xmss_signature_json :: "json \<Rightarrow> xmss_signature res" where
  "xmss_signature_json j =
     and_then (struct_members [''path'', ''rho'', ''hashes''] j) (\<lambda>vs.
     and_then (xmss_path_json (vs ! 0)) (\<lambda>path.
     and_then (u32_list_json (vs ! 1)) (\<lambda>rho_data.
     and_then (u32_lists_json (vs ! 2)) (\<lambda>hashes_data.
     Ok \<lparr>siblings = path, rho = rho_data, hashes = hashes_data\<rparr>))))"

definition signature_from_json :: "xmss_lib \<Rightarrow> json \<Rightarrow> signature res" where
  "signature_from_json X j = and_then (xmss_signature_json j) (signature_deserialize X)"

section \<open>Aggregated signatures\<close>

definition aggregated_signature_is_empty :: "aggregated_signature \<Rightarrow> bool" where
  "aggregated_signature_is_empty a \<longleftrightarrow> as_bytes a = []"

definition aggregated_signature_serialize :: "xmss_lib \<Rightarrow> aggregated_signature \<Rightarrow> json res" where
  "aggregated_signature_serialize X a = Ok (JString (aggregated_signature_to_string X a))"

definition aggregated_signature_deserialize :: "xmss_lib \<Rightarrow> json \<Rightarrow> aggregated_signature res" where
  "aggregated_signature_deserialize X j = and_then (data_wrapper json_string j) (aggregated_signature_from_str X)"

text \<open>
  \<^verbatim>\<open>Once::call_once\<close>: the flag tells whether the set-up was done, \<open>setup\<close> is the library's set-up of the prover or
  the verifier.
\<close>

definition call_once :: "('w \<Rightarrow> 'w) \<Rightarrow> bool \<times> 'w \<Rightarrow> bool \<times> 'w" where
  "call_once setup s = (case s of (ready, w) \<Rightarrow> if ready then (ready, w) else (True, setup w))"

definition setup_prover :: "('w \<Rightarrow> 'w) \<Rightarrow> bool \<times> 'w \<Rightarrow> bool \<times> 'w" where
  "setup_prover xmss_aggregation_setup_prover = call_once xmss_aggregation_setup_prover"

definition setup_verifier :: "('w \<Rightarrow> 'w) \<Rightarrow> bool \<times> 'w \<Rightarrow> bool \<times> 'w" where
  "setup_verifier xmss_aggregation_setup_verifier = call_once xmss_aggregation_setup_verifier"

text \<open>However often they are called, the set-up runs once.\<close>

lemma call_once_repeated: "(call_once setup ^^ Suc k) s = call_once setup s"
  by (induction k) (auto simp: call_once_def split: prod.splits)

section \<open>What is read back\<close>

text \<open>The wrapper of \<open>Serde_Helpers\<close> is the struct with the one field \<^verbatim>\<open>data\<close>.\<close>

lemma data_wrapper_struct: "data_wrapper d j = and_then (struct_members [''data''] j) (\<lambda>vs. d (hd vs))"
  by (cases "(d, j)" rule: data_wrapper.cases) (auto split: list.splits)

definition u32_json :: "u32 \<Rightarrow> json" where
  "u32_json v = JNumber (uint v)"

definition u32s_json :: "u32 list \<Rightarrow> json" where
  "u32s_json vs = wrapped (JArray (map u32_json vs))"

definition xmss_signature_value :: "xmss_signature \<Rightarrow> json" where
  "xmss_signature_value s =
     JObject [(''path'', JObject [(''siblings'', wrapped (JArray (map u32s_json (siblings s))))]),
       (''rho'', u32s_json (rho s)), (''hashes'', wrapped (JArray (map u32s_json (hashes s))))]"

lemma map_collect_inverse: "(\<And>x. d (f x) = Ok x) \<Longrightarrow> map_collect d (map f xs) = Ok xs"
  by (induction xs) (simp_all add: map_res_def)

lemma json_u32_u32: "json_u32 (u32_json v) = Ok v"
proof -
  have "uint v < 2 ^ LENGTH(32)" by (rule unsigned_less)
  then show ?thesis by (simp add: u32_json_def)
qed

lemma u32_list_json_u32s: "u32_list_json (u32s_json vs) = Ok vs"
  by (simp add: u32_list_json_def u32s_json_def map_collect_inverse json_u32_u32)

text \<open>The JSON form of the test vectors is read field by field.\<close>

lemma xmss_signature_json_value: "xmss_signature_json (xmss_signature_value s) = Ok s"
  by (simp add: xmss_signature_json_def xmss_signature_value_def xmss_path_json_def u32_lists_json_def
      map_collect_inverse u32_list_json_u32s map_res_def)

section \<open>Properties\<close>

text \<open>
  C32: which forms of a key or signature are read back.  A public key that the library accepts survives printing and
  parsing, JSON and SSZ; a signature or an aggregated signature survives printing and parsing, but the JSON that
  is written for it is refused by the reader, which expects the structured form of the test vectors.
\<close>

theorem key_forms_read_back:
  assumes "\<And>bs. hex_decode X (hex_encode X bs) = Some bs"
    and "pk_decodes X (pk_bytes k)" and "length (pk_bytes k) = 52"
    and "sig_decodes X (sig_bytes s)" and "length (sig_bytes s) = 3112"
    and "agg_decodes X (as_bytes a)" and "length (as_bytes a) \<le> aggregated_signature_size_limit"
  shows "public_key_from_str X (public_key_to_string X k) = Ok k \<and>
    and_then (public_key_serialize X k) (public_key_deserialize X) = Ok k \<and>
    and_then (public_key_write_fixed k (replicate public_key_ssz_size 0)) public_key_from_ssz_unchecked = Ok k \<and>
    signature_from_str X (signature_to_string X s) = Ok s \<and>
    and_then (signature_serialize X s) (signature_from_json X) = Err JsonMismatch \<and>
    aggregated_signature_from_str X (aggregated_signature_to_string X a) = Ok a \<and>
    and_then (aggregated_signature_serialize X a) (aggregated_signature_deserialize X) = Err JsonMismatch"
  using key_text_roundtrip[OF assms] assms(3)
  by (simp add: public_key_serialize_def public_key_write_fixed_def public_key_from_ssz_unchecked_def
      public_key_ssz_size_def signature_serialize_def signature_from_json_def xmss_signature_json_def
      aggregated_signature_serialize_def aggregated_signature_deserialize_def)

theorem key_forms_read_back_witness:
  "public_key_from_str sample_lib (public_key_to_string sample_lib public_key_default) = Ok public_key_default \<and>
   and_then (public_key_serialize sample_lib public_key_default) (public_key_deserialize sample_lib) = Ok public_key_default \<and>
   and_then (signature_serialize sample_lib signature_default) (signature_from_json sample_lib) = Err JsonMismatch"
  using key_forms_read_back[OF sample_hex, of public_key_default signature_default "AggregatedSignature []"]
  by (simp add: sample_lib_def public_key_default_def signature_default_def aggregated_signature_size_limit_def)

end
