(* ===== verification/Finality.thy ===== *)
theory Finality
  imports State_Properties
begin

text \<open>
  Progress of finality: attestations that name slots of the history and known validators are processed
  without an error, and the votes of two thirds of the validators for a justifiable target justify it and,
  when no justifiable slot lies between, finalize their source.  Attestations without participants, and ones from
  a source too far back, hit the asserts of the loop instead.
\<close>

section \<open>Attestations that cannot fail\<close>

definition valid_vote :: "state \<Rightarrow> aggregated_attestation \<Rightarrow> bool" where
  "valid_vote st a \<longleftrightarrow> harmless st a \<and>
     unat (cp_slot (ad_source (aa_data a))) < length (historical_block_hashes st) \<and>
     unat (cp_slot (ad_target (aa_data a))) < length (historical_block_hashes st) \<and>
     (\<forall>i \<in> set (set_bit_indices (aa_bits a)). unat i < length (validators st))"

lemma tracked_slot:
  assumes "loop_ok st l" and "unat s < length (historical_block_hashes st)"
    and lim: "length (historical_block_hashes st) \<le> historical_roots_limit"
  shows "is_slot_justified (al_justified_slots l) (al_finalized_slot l) s =
    Ok (justified_at (al_justified_slots l) (al_finalized_slot l) (unat s))"
proof -
  have "length (al_justified_slots l) = length (historical_block_hashes st) - 1 - unat (al_finalized_slot l)"
    using assms(1) by (simp add: loop_ok_def Let_def)
  with assms(2) jw.query[OF loop_ok_no_wrap[OF assms(1) lim], of "al_justified_slots l" s] show ?thesis
    by (auto simp: justified_at_def)
qed

lemma attestation_counts_valid:
  assumes ok: "loop_ok st l" and lim: "length (historical_block_hashes st) \<le> historical_roots_limit"
    and "valid_vote st a"
  shows "\<exists>b. attestation_counts st l a = Ok b"
proof -
  let ?s = "cp_slot (ad_source (aa_data a))" and ?t = "cp_slot (ad_target (aa_data a))"
  let ?fin = "cp_slot (st_latest_finalized st)"
  have le: "?fin \<le> al_finalized_slot l" using ok by (simp add: loop_ok_def Let_def)
  have slots: "unat ?s < length (historical_block_hashes st)" "unat ?t < length (historical_block_hashes st)"
    using assms(3) by (simp_all add: valid_vote_def)
  have "\<exists>b. is_justifiable_after ?t ?fin = Ok b"
    if "\<not> justified_at (al_justified_slots l) (al_finalized_slot l) (unat ?t)"
    using that le by (intro is_justifiable_after_total) (auto simp: justified_at_def word_nat)
  with slots show ?thesis
    by (auto simp: attestation_counts_def Let_def tracked_slot[OF ok _ lim] plist_get_def map_res_def)
qed

lemma process_attestation_valid:
  assumes "length (historical_block_hashes st) \<le> historical_roots_limit"
    and "roots_indexed (historical_block_hashes st) (cp_slot (st_latest_finalized st)) rts"
    and "loop_ok st l" and "valid_vote st a"
  shows "\<exists>l'. process_attestation st rts a l = Ok l' \<and> loop_ok st l'"
proof -
  obtain b where "attestation_counts st l a = Ok b" using attestation_counts_valid[OF assms(3,1,4)] by blast
  with assms(4) show ?thesis
    by (cases rule: process_attestation_cases[OF assms(1-3), of a]) (auto simp: valid_vote_def harmless_def)
qed

section \<open>What a step keeps\<close>

lemma try_finalize_keeps:
  assumes fin: "try_finalize st rts source target l = Ok l'" and le: "al_finalized_slot l \<le> al_finalized_slot l'"
    and j: "justified_at (al_justified_slots l) (al_finalized_slot l) s"
  shows "justified_at (al_justified_slots l') (al_finalized_slot l') s"
  using fin
proof (cases rule: try_finalize_Ok_cases)
  case Same
  with j show ?thesis by simp
next
  case Back
  with le have "cp_slot source = al_finalized_slot l" by simp
  with Back j show ?thesis by simp
next
  case (Forward js p)
  let ?f = "al_finalized_slot l" and ?s = "cp_slot source" and ?js = "al_justified_slots l"
  have d: "unat (?s - ?f) = unat ?s - unat ?f" using Forward(1) by (simp add: unat_sub_le)
  have "?s - ?f \<noteq> 0" using Forward(1) by auto
  with Forward(2) d have "unat ?s - unat ?f \<le> length ?js" by (auto simp: shift_window_def)
  from jw.holds_at_shift[OF _ this Forward(2), of s] Forward(1,3) j show ?thesis by (simp add: word_nat)
qed

lemma process_attestation_justified:
  assumes lim: "length (historical_block_hashes st) \<le> historical_roots_limit"
    and rts: "roots_indexed (historical_block_hashes st) (cp_slot (st_latest_finalized st)) rts"
    and ok: "loop_ok st l" and step: "process_attestation st rts a l = Ok l'"
  shows "justified_at (al_justified_slots l) (al_finalized_slot l) s \<Longrightarrow>
      justified_at (al_justified_slots l') (al_finalized_slot l') s"
    and "justified_at (al_justified_slots l') (al_finalized_slot l') s \<Longrightarrow> unat (al_finalized_slot l') < s \<Longrightarrow>
      justified_at (al_justified_slots l) (al_finalized_slot l) s \<or> s = unat (cp_slot (ad_target (aa_data a)))"
proof -
  note nw = loop_ok_no_wrap[OF ok lim]
  have le: "al_finalized_slot l \<le> al_finalized_slot l'" by (rule process_attestation_keeps(2)[OF lim rts ok step])
  have hm: "hm_ok (al_justifications l)" using ok by (simp add: loop_ok_def votes_ok_def Let_def)
  have "(justified_at (al_justified_slots l) (al_finalized_slot l) s \<longrightarrow>
      justified_at (al_justified_slots l') (al_finalized_slot l') s) \<and>
    (justified_at (al_justified_slots l') (al_finalized_slot l') s \<longrightarrow> unat (al_finalized_slot l') < s \<longrightarrow>
      justified_at (al_justified_slots l) (al_finalized_slot l) s \<or> s = unat (cp_slot (ad_target (aa_data a))))"
    using step
  proof (cases rule: process_attestation_Ok_cases)
    case (Justify m votes js)
    have "unat (al_finalized_slot l) < unat (cp_slot (ad_target (aa_data a)))"
      using attestation_counts_True(2)[OF nw Justify(1)] by (simp add: word_nat)
    note mark = jw.holds_at_mark[OF nw this Justify(5), simplified]
    show ?thesis
      using try_finalize_keeps[OF Justify(6), of s] try_finalize_shrinks(2)[OF Justify(6), of s]
        record_votes_Ok(1)[OF hm Justify(2)] mark[of s] le by auto
  qed simp_all
  then show "justified_at (al_justified_slots l) (al_finalized_slot l) s \<Longrightarrow>
      justified_at (al_justified_slots l') (al_finalized_slot l') s"
    "justified_at (al_justified_slots l') (al_finalized_slot l') s \<Longrightarrow> unat (al_finalized_slot l') < s \<Longrightarrow>
      justified_at (al_justified_slots l) (al_finalized_slot l) s \<or> s = unat (cp_slot (ad_target (aa_data a)))"
    by blast+
qed

section \<open>The vote of two thirds\<close>

definition participants_of :: "aggregated_attestation \<Rightarrow> nat set" where
  "participants_of a = unat ` set (set_bit_indices (aa_bits a))"

text \<open>A vote that the filters of the loop let through as long as its target is not justified.\<close>

definition decisive :: "state \<Rightarrow> aggregated_attestation \<Rightarrow> bool" where
  "decisive st a \<longleftrightarrow>
     (let source = ad_source (aa_data a); target = ad_target (aa_data a); hist = historical_block_hashes st in
      on_chain hist source \<and> on_chain hist target \<and> cp_root source \<noteq> 0 \<and> cp_root target \<noteq> 0 \<and>
      cp_slot source < cp_slot target \<and>
      is_justifiable_after (cp_slot target) (cp_slot (st_latest_finalized st)) = Ok True \<and>
      2 * length (validators st) \<le> 3 * card (participants_of a))"

text \<open>The filters alone, without the number of participants.\<close>

definition well_formed_vote :: "state \<Rightarrow> aggregated_attestation \<Rightarrow> bool" where
  "well_formed_vote st a \<longleftrightarrow>
     (let source = ad_source (aa_data a); target = ad_target (aa_data a); hist = historical_block_hashes st in
      on_chain hist source \<and> on_chain hist target \<and> cp_root source \<noteq> 0 \<and> cp_root target \<noteq> 0 \<and>
      cp_slot source < cp_slot target \<and>
      is_justifiable_after (cp_slot target) (cp_slot (st_latest_finalized st)) = Ok True)"

lemma decisive_iff:
  "decisive st a \<longleftrightarrow> well_formed_vote st a \<and> 2 * length (validators st) \<le> 3 * card (participants_of a)"
  by (auto simp: decisive_def well_formed_vote_def Let_def)

lemma well_formed_counts:
  assumes ok: "loop_ok st l" and lim: "length (historical_block_hashes st) \<le> historical_roots_limit"
    and "well_formed_vote st a"
    and "justified_at (al_justified_slots l) (al_finalized_slot l) (unat (cp_slot (ad_source (aa_data a))))"
    and "\<not> justified_at (al_justified_slots l) (al_finalized_slot l) (unat (cp_slot (ad_target (aa_data a))))"
  shows "attestation_counts st l a = Ok True"
  using assms(3-5)
  by (auto simp: well_formed_vote_def attestation_counts_def Let_def tracked_slot[OF ok _ lim] on_chain_def
      plist_get_def map_res_def)

lemma decisive_counts:
  assumes "loop_ok st l" and "length (historical_block_hashes st) \<le> historical_roots_limit"
    and "decisive st a"
    and "justified_at (al_justified_slots l) (al_finalized_slot l) (unat (cp_slot (ad_source (aa_data a))))"
    and "\<not> justified_at (al_justified_slots l) (al_finalized_slot l) (unat (cp_slot (ad_target (aa_data a))))"
  shows "attestation_counts st l a = Ok True"
  using assms well_formed_counts by (simp add: decisive_iff)

lemma decisive_supermajority:
  assumes ok: "loop_ok st l" and "decisive st a" and nv: "length (validators st) \<le> validator_registry_limit"
    and m: "record_votes (length (validators st)) (cp_root (ad_target (aa_data a))) (aa_bits a) (al_justifications l) = Ok m"
    and v: "hm_get m (cp_root (ad_target (aa_data a))) = Some votes"
  shows "supermajority (length (validators st)) votes"
proof -
  let ?n = "length (validators st)" and ?r = "cp_root (ad_target (aa_data a))"
  let ?old = "votes_of ?n ?r (al_justifications l)"
  have hm: "hm_ok (al_justifications l)" and len: "length ?old = ?n"
    using ok by (auto simp: loop_ok_def votes_ok_def votes_of_def Let_def split: option.splits)
  note r = record_votes_Ok[OF hm m]
  have votes: "votes = add_votes (set_bit_indices (aa_bits a)) ?old" using r(2) v by simp
  have "participants_of a \<subseteq> voters_in votes"
    using r(3) len by (auto simp: participants_of_def voters_in_def votes nth_add_votes)
  then have "card (participants_of a) \<le> card (voters_in votes)" by (simp add: card_mono)
  with assms(2) have "2 * ?n \<le> 3 * card (voters_in votes)" by (simp add: decisive_def Let_def)
  with supermajority_iff[of votes ?n] len nv show ?thesis by (simp add: votes)
qed

lemma decisive_step:
  assumes lim: "length (historical_block_hashes st) \<le> historical_roots_limit"
    and nv: "length (validators st) \<le> validator_registry_limit"
    and rts: "roots_indexed (historical_block_hashes st) (cp_slot (st_latest_finalized st)) rts"
    and ok: "loop_ok st l" and step: "process_attestation st rts a l = Ok l'" and dec: "decisive st a"
    and src: "justified_at (al_justified_slots l) (al_finalized_slot l) (unat (cp_slot (ad_source (aa_data a))))"
  shows "justified_at (al_justified_slots l') (al_finalized_slot l') (unat (cp_slot (ad_target (aa_data a))))"
    and "\<not> justified_at (al_justified_slots l) (al_finalized_slot l) (unat (cp_slot (ad_target (aa_data a)))) \<Longrightarrow>
      any_justifiable (cp_slot (st_latest_finalized st))
        [unat (cp_slot (ad_source (aa_data a)) + 1)..<unat (cp_slot (ad_target (aa_data a)))] \<noteq> Ok True \<Longrightarrow>
      al_finalized_slot l' = cp_slot (ad_source (aa_data a))"
proof -
  let ?s = "cp_slot (ad_source (aa_data a))" and ?t = "cp_slot (ad_target (aa_data a))"
  let ?any = "any_justifiable (cp_slot (st_latest_finalized st)) [unat (?s + 1)..<unat ?t]"
  have "justified_at (al_justified_slots l') (al_finalized_slot l') (unat ?t) \<and> (?any \<noteq> Ok True \<longrightarrow> al_finalized_slot l' = ?s)"
    if nj: "\<not> justified_at (al_justified_slots l) (al_finalized_slot l) (unat ?t)"
    using step
  proof (cases rule: process_attestation_Ok_cases)
    case Skip
    with decisive_counts[OF ok lim dec src nj] show ?thesis by simp
  next
    case (Votes m votes)
    with decisive_supermajority[OF ok dec nv Votes(2,3)] show ?thesis by simp
  next
    case (Justify m votes js)
    note nw = loop_ok_no_wrap[OF ok lim]
    have "unat (al_finalized_slot l) < unat ?t"
      using attestation_counts_True(2)[OF nw Justify(1)] by (simp add: word_nat)
    note mark = jw.holds_at_mark[OF nw this Justify(5), simplified]
    have "justified_at (al_justified_slots l') (al_finalized_slot l') (unat ?t)"
      using try_finalize_keeps[OF Justify(6), of "unat ?t"] mark process_attestation_keeps(2)[OF lim rts ok step] by simp
    moreover from Justify(6) have "?any \<noteq> Ok True \<longrightarrow> al_finalized_slot l' = ?s"
      by (cases rule: try_finalize_Ok_cases) simp_all
    ultimately show ?thesis by blast
  qed
  with process_attestation_justified(1)[OF lim rts ok step]
  show "justified_at (al_justified_slots l') (al_finalized_slot l') (unat ?t)"
    "\<not> justified_at (al_justified_slots l) (al_finalized_slot l) (unat ?t) \<Longrightarrow> ?any \<noteq> Ok True \<Longrightarrow> al_finalized_slot l' = ?s"
    by blast+
qed

section \<open>The loop as a whole\<close>

lemma any_justifiable_between:
  assumes "s < t" and "\<forall>c. s < c \<and> c < t \<longrightarrow> is_justifiable_after c f \<noteq> Ok True"
  shows "any_justifiable f [unat (s + 1)..<unat t] \<noteq> Ok True"
proof
  assume "any_justifiable f [unat (s + 1)..<unat t] = Ok True"
  then obtain c where c: "unat (s + 1) \<le> c" "c < unat t" "is_justifiable_after (word_of_nat c) f = Ok True"
    using any_justifiable_Ok[of f "[unat (s + 1)..<unat t]" True] by auto
  then have "unat (word_of_nat c :: u64) = c"
    using unat_u64_less[of t] by (intro unat_word_of_nat) simp
  with c assms unat_add_one[OF assms(1)] show False by (auto simp: word_nat)
qed

text \<open>Attestations that are all valid run through, and a slot they do not target is not newly justified.\<close>

lemma valid_votes_run:
  assumes lim: "length (historical_block_hashes st) \<le> historical_roots_limit"
    and rts: "roots_indexed (historical_block_hashes st) (cp_slot (st_latest_finalized st)) rts"
    and "\<forall>a \<in> set atts. valid_vote st a" and "loop_ok st l"
  obtains l' where "for_each (process_attestation st rts) atts l = Ok l'" and "loop_ok st l'"
    and "al_finalized_slot l \<le> al_finalized_slot l'"
    and "\<And>s. justified_at (al_justified_slots l) (al_finalized_slot l) s \<Longrightarrow>
      justified_at (al_justified_slots l') (al_finalized_slot l') s"
    and "\<And>s. \<not> justified_at (al_justified_slots l) (al_finalized_slot l) s \<Longrightarrow>
      \<forall>a \<in> set atts. unat (cp_slot (ad_target (aa_data a))) \<noteq> s \<Longrightarrow>
      justified_at (al_justified_slots l') (al_finalized_slot l') s \<Longrightarrow> s \<le> unat (al_finalized_slot l')"
proof -
  obtain l' where run: "for_each (process_attestation st rts) atts l = Ok l'"
    using for_each_Ok[of atts "loop_ok st" "process_attestation st rts" l]
      process_attestation_valid[OF lim rts] assms(3,4) by blast
  define P where "P k \<longleftrightarrow> loop_ok st k \<and> al_finalized_slot l \<le> al_finalized_slot k \<and>
    (\<forall>s. justified_at (al_justified_slots l) (al_finalized_slot l) s \<longrightarrow>
      justified_at (al_justified_slots k) (al_finalized_slot k) s) \<and>
    (\<forall>s. \<not> justified_at (al_justified_slots l) (al_finalized_slot l) s \<longrightarrow>
      (\<forall>a \<in> set atts. unat (cp_slot (ad_target (aa_data a))) \<noteq> s) \<longrightarrow>
      justified_at (al_justified_slots k) (al_finalized_slot k) s \<longrightarrow> s \<le> unat (al_finalized_slot k))" for k
  have "P l'"
  proof (rule for_each_invariant[OF run, where P = P])
    show "P l" using assms(4) by (simp add: P_def)
    fix a k k' assume a: "a \<in> set atts" and k: "P k" and step: "process_attestation st rts a k = Ok k'"
    have ok: "loop_ok st k" using k by (simp add: P_def)
    note keep = process_attestation_keeps[OF lim rts ok step]
    have "s \<le> unat (al_finalized_slot k')"
      if "\<not> justified_at (al_justified_slots l) (al_finalized_slot l) s"
        and "\<forall>a \<in> set atts. unat (cp_slot (ad_target (aa_data a))) \<noteq> s"
        and "justified_at (al_justified_slots k') (al_finalized_slot k') s" for s
    proof (rule ccontr)
      assume "\<not> s \<le> unat (al_finalized_slot k')"
      with process_attestation_justified(2)[OF lim rts ok step that(3)] that(2) a
      have "justified_at (al_justified_slots k) (al_finalized_slot k) s" by auto
      with k that have "s \<le> unat (al_finalized_slot k)" by (simp add: P_def)
      with \<open>\<not> s \<le> _\<close> keep(2) show False by (simp add: word_nat)
    qed
    with keep k process_attestation_justified(1)[OF lim rts ok step] show "P k'" by (auto simp: P_def)
  qed
  with run that show ?thesis by (auto simp: P_def)
qed

section \<open>The asserts of the loop\<close>

text \<open>The loop up to a given attestation, read off the state after the attestations before it.\<close>

lemma process_attestations_split:
  assumes wf: "wf_state st" and ne: "historical_block_hashes st \<noteq> []" and pre: "process_attestations st pre = Ok st'"
  obtains rts l where "roots_indexed (historical_block_hashes st) (cp_slot (st_latest_finalized st)) rts"
    and "for_each (process_attestation st rts) pre (loop_start st) = Ok l" and "loop_ok st l"
    and "justified_slots st' = al_justified_slots l" and "cp_slot (st_latest_finalized st') = al_finalized_slot l"
    and "\<And>a post p. process_attestation st rts a l = Panic p \<Longrightarrow> process_attestations st (pre @ a # post) = Panic p"
proof -
  have lim: "length (historical_block_hashes st) \<le> historical_roots_limit"
    using wf by (simp add: wf_state_def wf_chain_def Let_def)
  obtain rts where rts: "roots_indexed (historical_block_hashes st) (cp_slot (st_latest_finalized st)) rts"
    and eq: "\<And>atts. process_attestations st atts =
      and_then (for_each (process_attestation st rts) atts (loop_start st))
        (\<lambda>l. map_res (\<lambda>(roots, bits).
          st\<lparr>justifications_roots := roots, justifications_validators := bits,
             justified_slots := al_justified_slots l,
             st_latest_justified := al_latest_justified l,
             st_latest_finalized := al_latest_finalized l\<rparr>)
          (flatten_justifications (al_justifications l)))"
    using process_attestations_loops[OF wf ne] by blast
  from pre obtain l where l: "for_each (process_attestation st rts) pre (loop_start st) = Ok l"
    and st': "justified_slots st' = al_justified_slots l" "st_latest_finalized st' = al_latest_finalized l"
    by (auto simp: eq map_res_def split: res.splits)
  have ok: "loop_ok st l"
    by (rule for_each_invariant[OF l, where P = "loop_ok st"])
       (auto intro: loop_start_ok[OF wf ne] process_attestation_keeps(1)[OF lim rts])
  show ?thesis
    by (rule that[OF rts l ok st'(1)]) (use ok st'(2) in \<open>simp_all add: eq for_each_append l loop_ok_def Let_def\<close>)
qed

lemma vote_asserts:
  assumes lim: "length (historical_block_hashes st) \<le> historical_roots_limit"
    and nv: "length (validators st) \<le> validator_registry_limit"
    and rts: "roots_indexed (historical_block_hashes st) (cp_slot (st_latest_finalized st)) rts"
    and ok: "loop_ok st l" and counts: "attestation_counts st l a = Ok True"
  shows "set_bit_indices (aa_bits a) = [] \<Longrightarrow> process_attestation st rts a l = Panic NoValidatorReferenced"
    and "set_bit_indices (aa_bits a) \<noteq> [] \<Longrightarrow>
      \<forall>i \<in> set (set_bit_indices (aa_bits a)). unat i < length (validators st) \<Longrightarrow> decisive st a \<Longrightarrow>
      unat (cp_slot (ad_source (aa_data a))) + 1 < unat (cp_slot (st_latest_finalized st)) \<Longrightarrow>
      process_attestation st rts a l = Panic CandidateBeforeFinalized"
proof -
  show "process_attestation st rts a l = Panic NoValidatorReferenced" if "set_bit_indices (aa_bits a) = []"
    using that counts by (simp add: process_attestation_def record_votes_def to_validator_indices_def Let_def)
  show "process_attestation st rts a l = Panic CandidateBeforeFinalized"
    if ids: "set_bit_indices (aa_bits a) \<noteq> []" "\<forall>i \<in> set (set_bit_indices (aa_bits a)). unat i < length (validators st)"
      and dec: "decisive st a"
      and old: "unat (cp_slot (ad_source (aa_data a))) + 1 < unat (cp_slot (st_latest_finalized st))"
  proof (cases rule: record_votes_outcome[OF ok, of "cp_root (ad_target (aa_data a))" "aa_bits a"])
    case (1 m votes)
    note sup = decisive_supermajority[OF ok dec nv 1]
    note c = attestation_counts_True[OF loop_ok_no_wrap[OF ok lim] counts]
    have "cp_slot (st_latest_finalized st) < cp_slot (ad_target (aa_data a))"
      using ok c(2) by (auto simp: loop_ok_def Let_def)
    note any = any_justifiable_old[OF c(5) this old]
    show ?thesis
    proof (cases rule: justify_outcome[OF lim rts ok counts 1 sup])
      case (1 l')
      from 1(1) show ?thesis
        by (cases rule: process_attestation_Ok_cases) (use counts \<open>record_votes _ _ _ _ = _\<close> \<open>hm_get _ _ = _\<close> sup any
          in \<open>simp_all add: try_finalize_def\<close>)
    qed
  qed (use ids in simp_all)
qed

section \<open>Properties\<close>

text \<open>
  C5: the votes of two thirds of the validators justify their target and finalize their source.  Let the
  attestations of a block name slots of the history and known validators, and let one of them carry two
  thirds of the validators from a justified source to a justifiable target, both on the history.  Then
  processing succeeds and the target's slot is justified afterwards, whatever stands before and after it in
  the block; and if the target was not justified yet, no earlier attestation of the block has the same target
  slot and no justifiable slot lies strictly between source and target, the source is finalized.
\<close>

theorem supermajority_justifies:
  assumes "wf_state st" and "historical_block_hashes st \<noteq> []"
    and "\<forall>b \<in> set (pre @ a # post). valid_vote st b" and "decisive st a"
    and "justified_at (justified_slots st) (cp_slot (st_latest_finalized st)) (unat (cp_slot (ad_source (aa_data a))))"
  shows "\<exists>st'. process_attestations st (pre @ a # post) = Ok st' \<and>
    justified_at (justified_slots st') (cp_slot (st_latest_finalized st')) (unat (cp_slot (ad_target (aa_data a)))) \<and>
    (\<not> justified_at (justified_slots st) (cp_slot (st_latest_finalized st)) (unat (cp_slot (ad_target (aa_data a)))) \<and>
     (\<forall>b \<in> set pre. cp_slot (ad_target (aa_data b)) \<noteq> cp_slot (ad_target (aa_data a))) \<and>
     (\<forall>c. cp_slot (ad_source (aa_data a)) < c \<and> c < cp_slot (ad_target (aa_data a)) \<longrightarrow>
        is_justifiable_after c (cp_slot (st_latest_finalized st)) \<noteq> Ok True)
     \<longrightarrow> cp_slot (ad_source (aa_data a)) \<le> cp_slot (st_latest_finalized st'))"
proof -
  let ?s = "cp_slot (ad_source (aa_data a))" and ?t = "cp_slot (ad_target (aa_data a))"
  let ?j = "\<lambda>l. justified_at (al_justified_slots l) (al_finalized_slot l)"
  have lim: "length (historical_block_hashes st) \<le> historical_roots_limit"
    and nv: "length (validators st) \<le> validator_registry_limit"
    using assms(1) by (simp_all add: wf_state_def wf_chain_def wf_votes_def Let_def)
  obtain rts where rts: "roots_indexed (historical_block_hashes st) (cp_slot (st_latest_finalized st)) rts"
    and run: "\<And>l. for_each (process_attestation st rts) (pre @ a # post) (loop_start st) = Ok l \<Longrightarrow>
      loop_ok st l \<and> process_attestations st (pre @ a # post) = Ok (loop_end st l)"
    using process_attestations_runs[OF assms(1,2)] by blast
  have valid: "\<forall>b \<in> set pre. valid_vote st b" "valid_vote st a" "\<forall>b \<in> set post. valid_vote st b"
    using assms(3) by auto
  obtain l where l: "for_each (process_attestation st rts) pre (loop_start st) = Ok l" "loop_ok st l"
    and keep: "\<And>s. ?j (loop_start st) s \<Longrightarrow> ?j l s"
    and fresh: "\<And>s. \<not> ?j (loop_start st) s \<Longrightarrow> \<forall>a \<in> set pre. unat (cp_slot (ad_target (aa_data a))) \<noteq> s \<Longrightarrow>
      ?j l s \<Longrightarrow> s \<le> unat (al_finalized_slot l)"
    by (rule valid_votes_run[OF lim rts valid(1) loop_start_ok[OF assms(1,2)]]) blast
  obtain k where k: "process_attestation st rts a l = Ok k" "loop_ok st k"
    using process_attestation_valid[OF lim rts l(2) valid(2)] by blast
  obtain m where m: "for_each (process_attestation st rts) post k = Ok m" "al_finalized_slot k \<le> al_finalized_slot m"
    and keep': "\<And>s. ?j k s \<Longrightarrow> ?j m s"
    by (rule valid_votes_run[OF lim rts valid(3) k(2)]) blast
  have end_: "loop_ok st m" "process_attestations st (pre @ a # post) = Ok (loop_end st m)"
    using run[of m] l(1) k(1) m(1) by (simp_all add: for_each_append)
  have src: "?j l (unat ?s)" using keep assms(5) by (simp add: loop_start_def)
  note dec = decisive_step[OF lim nv rts l(2) k(1) assms(4) src]
  have st: "?s < ?t" using assms(4) by (simp add: decisive_def Let_def)
  have "?s \<le> al_finalized_slot m"
    if "\<not> ?j (loop_start st) (unat ?t)" "\<forall>b \<in> set pre. cp_slot (ad_target (aa_data b)) \<noteq> ?t"
      and "\<forall>c. ?s < c \<and> c < ?t \<longrightarrow> is_justifiable_after c (cp_slot (st_latest_finalized st)) \<noteq> Ok True"
  proof (cases "?j l (unat ?t)")
    case True
    moreover have "\<forall>b \<in> set pre. unat (cp_slot (ad_target (aa_data b))) \<noteq> unat ?t"
      using that(2) by (simp add: word_unat_eq_iff)
    ultimately have "?t \<le> al_finalized_slot l" using fresh[OF that(1)] by (simp add: word_nat)
    with st m(2) process_attestation_keeps(2)[OF lim rts l(2) k(1)] show ?thesis by simp
  next
    case False
    with dec(2) any_justifiable_between[OF st that(3)] m(2) show ?thesis by simp
  qed
  with end_ dec(1) keep' show ?thesis
    by (intro exI[of _ "loop_end st m"]) (auto simp: loop_end_def loop_start_def loop_ok_def Let_def)
qed

theorem supermajority_justifies_witness:
  "\<exists>st'. process_attestations sample_finalized ([vote_for (checkpoint_at 3 2) (checkpoint_at 5 4) [False, True]] @
      vote_for (checkpoint_at 3 2) (checkpoint_at 4 3) [True, True, True, False] # []) = Ok st' \<and>
    justified_at (justified_slots st') (cp_slot (st_latest_finalized st')) 3"
proof -
  let ?pre = "[vote_for (checkpoint_at 3 2) (checkpoint_at 5 4) [False, True]]"
  let ?a = "vote_for (checkpoint_at 3 2) (checkpoint_at 4 3) [True, True, True, False]"
  have "historical_block_hashes sample_finalized \<noteq> []" by (simp add: sample_finalized_def)
  moreover have "\<forall>b \<in> set (?pre @ ?a # []). valid_vote sample_finalized b"
    by (auto simp: sample_defs valid_vote_def harmless_def set_bit_indices_def genesis_with_list_def
        less_Suc_eq)
  moreover have "is_justifiable_after 3 2 = Ok True" by (simp add: run_simps)
  then have "decisive sample_finalized ?a"
    by (simp add: sample_defs decisive_def participants_of_def on_chain_def set_bit_indices_def genesis_with_list_def)
  moreover have "justified_at (justified_slots sample_finalized) (cp_slot (st_latest_finalized sample_finalized))
      (unat (cp_slot (ad_source (aa_data ?a))))"
    by (simp add: sample_defs justified_at_def)
  ultimately obtain st' where "process_attestations sample_finalized (?pre @ ?a # []) = Ok st'"
    and "justified_at (justified_slots st') (cp_slot (st_latest_finalized st')) (unat (cp_slot (ad_target (aa_data ?a))))"
    using supermajority_justifies[OF sample_finalized_wf] by blast
  then show ?thesis by (auto simp: vote_for_def checkpoint_at_def)
qed

text \<open>
  C34: the two \<^verbatim>\<open>assert!\<close>s of the loop are reached by attestations that the filters let through.  Let a
  block's attestations up to some point be processed, and let the next one lead from a justified source to a
  justifiable target that is not justified yet, both on the history.  If it has no participants,
  \<^verbatim>\<open>to_validator_indices\<close> panics; if two thirds of the validators take part and its source lies more than one
  slot before the finalized slot of the state, \<^verbatim>\<open>is_justifiable_after\<close> panics on the slot after the source.
  The whole block then panics, whatever follows.
\<close>

theorem attestation_asserts_reached:
  assumes "wf_state st" and "historical_block_hashes st \<noteq> []" and "process_attestations st pre = Ok st'"
    and "well_formed_vote st a"
    and "justified_at (justified_slots st') (cp_slot (st_latest_finalized st')) (unat (cp_slot (ad_source (aa_data a))))"
    and "\<not> justified_at (justified_slots st') (cp_slot (st_latest_finalized st')) (unat (cp_slot (ad_target (aa_data a))))"
  shows "(set_bit_indices (aa_bits a) = [] \<longrightarrow>
      process_attestations st (pre @ a # post) = Panic NoValidatorReferenced) \<and>
    (set_bit_indices (aa_bits a) \<noteq> [] \<and> (\<forall>i \<in> set (set_bit_indices (aa_bits a)). unat i < length (validators st)) \<and>
     2 * length (validators st) \<le> 3 * card (participants_of a) \<and>
     unat (cp_slot (ad_source (aa_data a))) + 1 < unat (cp_slot (st_latest_finalized st)) \<longrightarrow>
      process_attestations st (pre @ a # post) = Panic CandidateBeforeFinalized)"
proof -
  have lim: "length (historical_block_hashes st) \<le> historical_roots_limit"
    and nv: "length (validators st) \<le> validator_registry_limit"
    using assms(1) by (simp_all add: wf_state_def wf_chain_def wf_votes_def Let_def)
  obtain rts l where rts: "roots_indexed (historical_block_hashes st) (cp_slot (st_latest_finalized st)) rts"
    and l: "for_each (process_attestation st rts) pre (loop_start st) = Ok l" "loop_ok st l"
    and at: "justified_slots st' = al_justified_slots l" "cp_slot (st_latest_finalized st') = al_finalized_slot l"
    and all: "\<And>p. process_attestation st rts a l = Panic p \<Longrightarrow> process_attestations st (pre @ a # post) = Panic p"
    by (rule process_attestations_split[OF assms(1-3)]) blast
  have counts: "attestation_counts st l a = Ok True"
    using well_formed_counts[OF l(2) lim assms(4)] assms(5,6) by (simp add: at)
  show ?thesis
    using vote_asserts[OF lim nv rts l(2) counts] all assms(4) by (auto simp: decisive_iff)
qed

theorem attestation_asserts_reached_witness:
  "process_attestations sample_finalized ([vote_for (checkpoint_at 3 2) (checkpoint_at 5 4) [False, True]] @
      vote_for (checkpoint_at 3 2) (checkpoint_at 4 3) [False, False] # []) = Panic NoValidatorReferenced \<and>
   process_attestations sample_finalized ([] @
      vote_for (checkpoint_at 1 0) (checkpoint_at 4 3) [True, True, True, False] # [vote_for (checkpoint_at 3 2) (checkpoint_at 9 9) []]) =
     Panic CandidateBeforeFinalized"
proof -
  let ?p = "[vote_for (checkpoint_at 3 2) (checkpoint_at 5 4) [False, True]]"
  let ?e = "vote_for (checkpoint_at 3 2) (checkpoint_at 4 3) [False, False]"
  let ?o = "vote_for (checkpoint_at 1 0) (checkpoint_at 4 3) [True, True, True, False]"
  let ?x = "vote_for (checkpoint_at 3 2) (checkpoint_at 9 9) []"
  have ne: "historical_block_hashes sample_finalized \<noteq> []" by (simp add: sample_finalized_def)
  have wfv: "well_formed_vote sample_finalized ?e" "well_formed_vote sample_finalized ?o"
    by (simp_all add: sample_defs well_formed_vote_def on_chain_def genesis_with_list_def run_simps)
  obtain st1 where st1: "process_attestations sample_finalized ?p = Ok st1"
      "justified_slots st1 = justified_slots sample_finalized"
      "st_latest_finalized st1 = st_latest_finalized sample_finalized"
    by (simp add: run_simps sample_defs del: outcome_iffs cong: run_congs)
  have st0: "process_attestations sample_finalized [] = Ok sample_finalized"
    by (simp add: run_simps sample_defs del: outcome_iffs cong: run_congs)
  have j: "justified_at [False, False] 2 2" "justified_at [False, False] 2 0" "\<not> justified_at [False, False] 2 3"
    by (simp_all add: justified_at_def window_slots_def)
  have e: "set_bit_indices (aa_bits ?e) = []" by (simp add: vote_for_def set_bit_indices_def)
  have o: "set_bit_indices (aa_bits ?o) = [0, 1, 2]" by (simp add: vote_for_def set_bit_indices_def)
  have n: "length (validators sample_finalized) = 4" "cp_slot (st_latest_finalized sample_finalized) = 2"
    "justified_slots sample_finalized = [False, False]"
    by (simp_all add: sample_defs genesis_with_list_def)
  have "process_attestations sample_finalized (?p @ ?e # []) = Panic NoValidatorReferenced"
    using attestation_asserts_reached[OF sample_finalized_wf ne st1(1) wfv(1), of "[]"] e j
    by (simp add: st1 n vote_for_def checkpoint_at_def)
  moreover have "process_attestations sample_finalized ([] @ ?o # [?x]) = Panic CandidateBeforeFinalized"
    using attestation_asserts_reached[OF sample_finalized_wf ne st0 wfv(2), of "[?x]"] o j
    by (simp add: n participants_of_def vote_for_def checkpoint_at_def)
  ultimately show ?thesis by blast
qed

end
