(* ===== verification/Accountability.thy ===== *)
theory Accountability
  imports Finality
begin

text \<open>
  Accountability over whole chains.  The votes that justified or finalized a checkpoint of a chain are in the
  blocks of that chain: nothing but the attestations of accepted blocks ever enters the stored votes, and a
  checkpoint after genesis has two thirds of the validators among them.  Two chains of one genesis state
  therefore share a third of the validators behind any two of their checkpoints.
\<close>

section \<open>Chains with their votes\<close>

text \<open>The states that accepted blocks make of a start state, with all attestations of these blocks.\<close>

inductive chain_votes :: "ssz_root \<Rightarrow> state \<Rightarrow> aggregated_attestation list \<Rightarrow> state \<Rightarrow> bool"
  for H :: ssz_root and start :: state where
  start: "chain_votes H start [] start"
| block: "chain_votes H start votes st \<Longrightarrow> state_transition H st sb valid = Ok st' \<Longrightarrow>
    chain_votes H start (votes @ attestations (b_body (bwa_block (sb_message sb)))) st'"

lemma chain_votes_reachable: "(\<exists>votes. chain_votes H start votes st) \<longleftrightarrow> reachable H start st"
proof
  assume "\<exists>votes. chain_votes H start votes st"
  then obtain votes where "chain_votes H start votes st" by blast
  then show "reachable H start st" by induction (auto intro: reachable.intros)
next
  assume "reachable H start st"
  then show "\<exists>votes. chain_votes H start votes st" by induction (auto intro: chain_votes.intros)
qed

definition attesters :: "nat \<Rightarrow> aggregated_attestation list \<Rightarrow> h256 \<Rightarrow> nat set" where
  "attesters n votes root =
     {i. i < n \<and> (\<exists>a \<in> set votes. cp_root (ad_target (aa_data a)) = root \<and> i \<in> participants_of a)}"

definition backed :: "nat \<Rightarrow> aggregated_attestation list \<Rightarrow> h256 list \<Rightarrow> nat \<Rightarrow> bool" where
  "backed n votes hist s \<longleftrightarrow> (\<exists>t. on_chain hist t \<and> unat (cp_slot t) = s \<and> 2 * n \<le> 3 * card (attesters n votes (cp_root t)))"

lemma finite_attesters [simp]: "finite (attesters n votes r)"
  by (simp add: attesters_def)

lemma attesters_append: "attesters n votes r \<subseteq> attesters n (votes @ more_votes) r"
  by (auto simp: attesters_def)

lemma backed_extend:
  assumes "backed n votes hist s"
  shows "backed n (votes @ more_votes) (hist @ more_hist) s"
proof -
  obtain t where "on_chain hist t" "unat (cp_slot t) = s" "2 * n \<le> 3 * card (attesters n votes (cp_root t))"
    using assms by (auto simp: backed_def)
  moreover have "card (attesters n votes (cp_root t)) \<le> card (attesters n (votes @ more_votes) (cp_root t))"
    by (intro card_mono attesters_append) simp
  ultimately show ?thesis using on_chain_append by (fastforce simp: backed_def)
qed

text \<open>Every vote that a state stores, and every slot it takes for justified or finalized, is accounted for.\<close>

definition accounted :: "aggregated_attestation list \<Rightarrow> state \<Rightarrow> bool" where
  "accounted votes st \<longleftrightarrow>
     (let n = length (validators st); hist = historical_block_hashes st; f = cp_slot (st_latest_finalized st) in
      (\<forall>r v. hm_get (stored_votes st) r = Some v \<longrightarrow> voters_in v \<subseteq> attesters n votes r) \<and>
      (\<forall>s. unat f < s \<and> justified_at (justified_slots st) f s \<longrightarrow> backed n votes hist s) \<and>
      (f \<noteq> 0 \<longrightarrow> backed n votes hist (unat f)))"

section \<open>Reading the votes back\<close>

lemma chunk_of_concat:
  assumes "\<forall>xs \<in> set xss. length xs = n" and "i < length xss"
  shows "take n (drop (i * n) (concat xss)) = xss ! i"
  using assms
proof (induction xss arbitrary: i)
  case (Cons xs xss)
  show ?case
  proof (cases i)
    case 0
    with Cons.prems show ?thesis by simp
  next
    case (Suc j)
    with Cons show ?thesis by simp
  qed
qed simp

lemma stored_votes_loop_end:
  assumes "loop_ok st l" and "hm_get (stored_votes (loop_end st l)) r = Some v"
  shows "hm_get (al_justifications l) r = Some v"
proof -
  let ?m = "al_justifications l" and ?n = "length (validators st)"
  let ?roots = "sort (hm_keys (al_justifications l))"
  let ?lists = "map (\<lambda>r. the (hm_get ?m r)) ?roots"
  have get: "\<exists>w. hm_get ?m q = Some w \<and> length w = ?n" if q: "q \<in> set ?roots" for q
  proof -
    obtain w where "hm_get ?m q = Some w"
      using q hm_contains_key_keys[of ?m q] by (cases "hm_get ?m q") (simp_all add: hm_contains_key_def)
    with assms(1) show ?thesis by (auto simp: loop_ok_def votes_ok_def Let_def)
  qed
  from hm_get_in[OF assms(2)] obtain i where "(i, r) \<in> set (List.enumerate 0 ?roots)"
    and v: "v = take ?n (drop (i * ?n) (concat ?lists))"
    by (auto simp: stored_votes_def loop_end_def Let_def)
  then have i: "i < length ?roots" and r: "r = ?roots ! i" by (auto simp: in_set_enumerate_eq)
  have "\<forall>xs \<in> set ?lists. length xs = ?n" using get by fastforce
  then have "v = the (hm_get ?m r)" using i r v chunk_of_concat[of ?lists ?n i] by simp
  moreover have "r \<in> set ?roots" unfolding r using i by (rule nth_mem)
  then obtain w where "hm_get ?m r = Some w" using get by blast
  ultimately show ?thesis by simp
qed

section \<open>The attestations of a block\<close>

lemma finalized_source_step:
  assumes lim: "length (historical_block_hashes st) \<le> historical_roots_limit"
    and rts: "roots_indexed (historical_block_hashes st) (cp_slot (st_latest_finalized st)) rts"
    and ok: "loop_ok st l" and step: "process_attestation st rts a l = Ok l'"
  shows "al_finalized_slot l' = al_finalized_slot l \<or>
    unat (al_finalized_slot l) < unat (al_finalized_slot l') \<and>
    justified_at (al_justified_slots l) (al_finalized_slot l) (unat (al_finalized_slot l'))"
  using step
proof (cases rule: process_attestation_Ok_cases)
  case (Justify m votes js)
  note c = attestation_counts_True[OF loop_ok_no_wrap[OF ok lim] Justify(1)]
  have le: "al_finalized_slot l \<le> al_finalized_slot l'" by (rule process_attestation_keeps(2)[OF lim rts ok step])
  from Justify(6) have "al_finalized_slot l' = al_finalized_slot l \<or> al_finalized_slot l' = cp_slot (ad_source (aa_data a))"
    by (cases rule: try_finalize_Ok_cases) simp_all
  with c(1) le show ?thesis by (auto simp: word_nat word_unat_eq_iff)
qed simp_all

lemma voters_attesters:
  assumes "accounted votes st"
  shows "voters st atts r \<subseteq> attesters (length (validators st)) (votes @ atts) r"
proof
  let ?n = "length (validators st)"
  fix i assume "i \<in> voters st atts r"
  then have "i < ?n" and "(\<exists>v. hm_get (stored_votes st) r = Some v \<and> i \<in> voters_in v) \<or>
      (\<exists>a \<in> set atts. cp_root (ad_target (aa_data a)) = r \<and> i \<in> participants_of a)"
    by (auto simp: voters_def participants_of_def voters_in_def)
  moreover have "voters_in v \<subseteq> attesters ?n votes r" if "hm_get (stored_votes st) r = Some v" for v
    using assms that by (simp add: accounted_def Let_def)
  ultimately have "i \<in> attesters ?n votes r \<or> i \<in> attesters ?n atts r"
    by (auto simp: attesters_def)
  then show "i \<in> attesters ?n (votes @ atts) r" by (auto simp: attesters_def)
qed

lemma supported_backed:
  assumes "accounted votes st" and "supported st atts s"
  shows "backed (length (validators st)) (votes @ atts) (historical_block_hashes st) s"
proof -
  let ?n = "length (validators st)"
  obtain t where t: "on_chain (historical_block_hashes st) t" "unat (cp_slot t) = s"
    "2 * ?n \<le> 3 * card (voters st atts (cp_root t))"
    using assms(2) by (auto simp: supported_def)
  have "card (voters st atts (cp_root t)) \<le> card (attesters ?n (votes @ atts) (cp_root t))"
    by (intro card_mono voters_attesters[OF assms(1)]) simp
  with t show ?thesis unfolding backed_def by (intro exI[of _ t]) simp
qed

lemma process_attestations_accounted:
  assumes wf: "wf_state st" and ne: "historical_block_hashes st \<noteq> []" and acc: "accounted votes st"
    and run: "process_attestations st atts = Ok st'"
  shows "accounted (votes @ atts) st'"
proof -
  let ?n = "length (validators st)" and ?hist = "historical_block_hashes st"
  let ?f = "cp_slot (st_latest_finalized st)"
  let ?backed = "backed ?n (votes @ atts) ?hist"
  have lim: "length ?hist \<le> historical_roots_limit"
    using wf by (simp add: wf_state_def wf_chain_def Let_def)
  have old: "?backed s" if "backed ?n votes ?hist s" for s using backed_extend[OF that, of atts "[]"] by simp
  have just: "?backed s" if "votes_supported st atts l" "loop_ok st l" "unat (al_finalized_slot l) < s"
      "justified_at (al_justified_slots l) (al_finalized_slot l) s" for l s
  proof -
    have "unat ?f < s" using that(2,3) by (auto simp: loop_ok_def Let_def word_nat)
    moreover have "justified_at (justified_slots st) ?f s \<or> supported st atts s"
      using that by (simp add: votes_supported_def)
    ultimately show ?thesis using acc old supported_backed[OF acc] by (auto simp: accounted_def Let_def)
  qed
  define P where "P l \<longleftrightarrow> votes_supported st atts l \<and> (al_finalized_slot l \<noteq> 0 \<longrightarrow> ?backed (unat (al_finalized_slot l)))" for l
  obtain l where l: "loop_ok st l" "P l" and st': "st' = loop_end st l"
  proof (rule process_attestations_invariant[OF wf ne run, where P = P])
    show "P (loop_start st)"
      using votes_supported_start[OF wf] acc old by (simp add: P_def loop_start_def accounted_def Let_def)
    fix rts a l l' assume rts: "roots_indexed ?hist ?f rts" and a: "a \<in> set atts" and ok: "loop_ok st l"
      and "P l" and step: "process_attestation st rts a l = Ok l'"
    then show "P l'"
      using votes_supported_step[OF lim _ rts ok _ a step] finalized_source_step[OF lim rts ok step] just[OF _ ok] wf
      by (auto simp: P_def wf_state_def wf_votes_def Let_def)
  qed blast
  have "voters_in v \<subseteq> attesters ?n (votes @ atts) r" if "hm_get (stored_votes st') r = Some v" for r v
  proof -
    have "hm_get (al_justifications l) r = Some v" using stored_votes_loop_end[OF l(1)] that by (simp add: st')
    with l(2) have "voters_in v \<subseteq> voters st atts r" by (simp add: P_def votes_supported_def)
    then show ?thesis using voters_attesters[OF acc] by blast
  qed
  moreover have "st_latest_finalized st' = al_latest_finalized l" "validators st' = validators st"
    "historical_block_hashes st' = ?hist" "justified_slots st' = al_justified_slots l"
    by (simp_all add: st' loop_end_def Let_def)
  moreover have "cp_slot (al_latest_finalized l) = al_finalized_slot l" using l(1) by (simp add: loop_ok_def Let_def)
  ultimately show ?thesis using just[of l] l by (simp add: accounted_def P_def Let_def)
qed

section \<open>Whole chains\<close>

lemma state_transition_accounted:
  assumes "wf_state st" and "accounted votes st" and "state_transition H st sb valid = Ok st'"
  shows "accounted (votes @ attestations (b_body (bwa_block (sb_message sb)))) st' \<and>
    length (validators st') = length (validators st)"
proof -
  let ?b = "bwa_block (sb_message sb)"
  from assms(3) obtain st1 st2 where 1: "process_slots H st (b_slot ?b) = Ok st1"
    and 2: "process_block_header H st1 ?b = Ok st2"
    and 3: "process_attestations st2 (attestations (b_body ?b)) = Ok st'"
    by (auto simp: state_transition_def process_block_def Let_def split: if_splits)
  have s: "same_chain st st1" "wf_state st1"
    using process_slots_advances[OF assms(1) 1] by (simp_all add: advances_def)
  note h = process_block_header_Ok(5)[OF 2 s(2)] and w = process_block_header_wf[OF s(2) 2]
  have same: "stored_votes st1 = stored_votes st" "validators st1 = validators st"
    "historical_block_hashes st1 = historical_block_hashes st" "justified_slots st1 = justified_slots st"
    "st_latest_finalized st1 = st_latest_finalized st"
    using s(1) by (auto simp: same_chain_def stored_votes_def)
  have "stored_votes st2 = stored_votes st1" by (simp add: h stored_votes_def)
  moreover have "validators st2 = validators st1" by (simp add: h)
  moreover obtain hs where "historical_block_hashes st2 = historical_block_hashes st1 @ hs" by (simp add: h)
  moreover obtain k where "justified_slots st2 = justified_slots st1 @ replicate k False" by (simp add: h)
  ultimately have "accounted votes st2"
    using assms(2) w(4) same backed_extend[of _ votes _ _ "[]" hs] by (simp add: accounted_def Let_def)
  moreover have "validators st' = validators st2"
    by (rule process_attestations_Ok[OF w(1,2) 3]) (simp add: loop_end_def Let_def)
  ultimately show ?thesis
    using process_attestations_accounted[OF w(1,2) _ 3] same \<open>validators st2 = validators st1\<close> by simp
qed

lemma chain_votes_accounted:
  assumes "chain_votes H start votes st" and "wf_state start" and "accounted [] start"
  shows "wf_state st \<and> accounted votes st \<and> length (validators st) = length (validators start)"
  using assms
proof (induction rule: chain_votes.induct)
  case (block votes st sb valid st')
  then have wf: "wf_state st" and acc: "accounted votes st" by simp_all
  have "wf_state st'" using state_transition_advances[OF wf block.hyps(2)] by (simp add: advances_def)
  with state_transition_accounted[OF wf acc block.hyps(2)] block show ?case by simp
qed simp

lemma genesis_accounted:
  assumes "generate_genesis_with_validators H time vs = Ok st" and "vs \<noteq> []"
    and "length vs \<le> validator_registry_limit"
  shows "accounted [] st \<and> length (validators st) = length vs"
proof -
  have "st = genesis_with_list H time vs"
    using assms push_all[of "[]" vs validator_registry_limit]
    by (simp add: generate_genesis_with_validators_def push_validators_def map_res_def)
  then show ?thesis
    by (simp add: accounted_def genesis_with_list_def stored_votes_def hm_get_def justified_at_def window_slots_def
        Let_def)
qed

lemma checkpoint_backed:
  assumes "wf_state st" and "accounted votes st" and t: "t \<in> {st_latest_justified st, st_latest_finalized st}"
    and "cp_slot t \<noteq> 0"
  shows "2 * length (validators st) \<le> 3 * card (attesters (length (validators st)) votes (cp_root t))"
proof -
  let ?f = "cp_slot (st_latest_finalized st)" and ?j = "cp_slot (st_latest_justified st)"
  have wf: "wf_chain st" using assms(1) by (simp add: wf_state_def)
  then have "historical_block_hashes st \<noteq> []" using assms(3,4) by (auto simp: wf_chain_def Let_def)
  with wf have on: "on_chain (historical_block_hashes st) t"
    using t by (auto simp: wf_chain_def Let_def)
  have "?f \<le> ?j" "justified_at (justified_slots st) ?f (unat ?j)" using wf by (auto simp: wf_chain_def Let_def)
  with assms(2-4) have "backed (length (validators st)) votes (historical_block_hashes st) (unat (cp_slot t))"
    by (cases "?f = ?j") (auto simp: accounted_def Let_def word_nat word_unat_eq_iff)
  then obtain u where "on_chain (historical_block_hashes st) u" "unat (cp_slot u) = unat (cp_slot t)"
    "2 * length (validators st) \<le> 3 * card (attesters (length (validators st)) votes (cp_root u))"
    by (auto simp: backed_def)
  with on show ?thesis by (auto simp: on_chain_def)
qed

lemma two_thirds_intersect:
  assumes "A \<subseteq> {..<n}" and "B \<subseteq> {..<n}" and "2 * n \<le> 3 * card A" and "2 * n \<le> 3 * card B"
  shows "n \<le> 3 * card (A \<inter> B)"
proof -
  have fin: "finite A" "finite B" using assms(1,2) finite_subset by blast+
  have "card (A \<union> B) \<le> n" using assms(1,2) card_mono[of "{..<n}" "A \<union> B"] by simp
  moreover have "card A + card B = card (A \<union> B) + card (A \<inter> B)" by (rule card_Un_Int[OF fin])
  ultimately show ?thesis using assms(3,4) by linarith
qed

lemma sample_chain_votes:
  "chain_votes sample_root sample_genesis (attestations (b_body sample_block_2)) sample_state_2"
  "chain_votes sample_root sample_genesis
     (attestations (b_body sample_block_2) @ attestations (b_body sample_block_3)) sample_state_3"
proof -
  have 1: "chain_votes sample_root sample_genesis [] sample_state_1"
    using chain_votes.block[OF chain_votes.start sample_step_1] by (simp add: sealed_def sample_block_1_def)
  show 2: "chain_votes sample_root sample_genesis (attestations (b_body sample_block_2)) sample_state_2"
    using chain_votes.block[OF 1 sample_step_2] by (simp add: sealed_def)
  show "chain_votes sample_root sample_genesis
     (attestations (b_body sample_block_2) @ attestations (b_body sample_block_3)) sample_state_3"
    using chain_votes.block[OF 2 sample_step_3] by (simp add: sealed_def)
qed

section \<open>Properties\<close>

text \<open>
  C4: checkpoints are accountable.  Take two chains of accepted blocks from one genesis state, and of each the
  latest justified or the latest finalized checkpoint, after slot 0.  At least a third of the validators have
  attested to both blocks as targets, in attestations that the blocks of the respective chain contain.  So when
  the chains justify different blocks of one slot, a third of the validators voted twice for that slot, and the
  two chains hold the evidence.
\<close>

theorem checkpoints_accountable:
  assumes "generate_genesis_with_validators H time vs = Ok genesis" and "vs \<noteq> []"
    and "length vs \<le> validator_registry_limit"
    and "chain_votes H genesis votes1 st1" and "chain_votes H genesis votes2 st2"
    and "t1 \<in> {st_latest_justified st1, st_latest_finalized st1}" and "cp_slot t1 \<noteq> 0"
    and "t2 \<in> {st_latest_justified st2, st_latest_finalized st2}" and "cp_slot t2 \<noteq> 0"
  shows "length vs \<le> 3 * card {i. i < length vs \<and>
    (\<exists>a \<in> set votes1. cp_root (ad_target (aa_data a)) = cp_root t1 \<and> i \<in> participants_of a) \<and>
    (\<exists>a \<in> set votes2. cp_root (ad_target (aa_data a)) = cp_root t2 \<and> i \<in> participants_of a)}"
proof -
  let ?n = "length vs"
  note wf = genesis_wf[OF assms(1-3)] and acc = genesis_accounted[OF assms(1-3)]
  have "2 * ?n \<le> 3 * card (attesters ?n votes1 (cp_root t1))" "2 * ?n \<le> 3 * card (attesters ?n votes2 (cp_root t2))"
    using chain_votes_accounted[OF assms(4) wf] chain_votes_accounted[OF assms(5) wf] acc
      checkpoint_backed[OF _ _ assms(6,7), of votes1] checkpoint_backed[OF _ _ assms(8,9), of votes2] by simp_all
  moreover have "attesters ?n votes r \<subseteq> {..<?n}" for votes r by (auto simp: attesters_def)
  ultimately have "?n \<le> 3 * card (attesters ?n votes1 (cp_root t1) \<inter> attesters ?n votes2 (cp_root t2))"
    by (intro two_thirds_intersect)
  also have "attesters ?n votes1 (cp_root t1) \<inter> attesters ?n votes2 (cp_root t2) = {i. i < ?n \<and>
    (\<exists>a \<in> set votes1. cp_root (ad_target (aa_data a)) = cp_root t1 \<and> i \<in> participants_of a) \<and>
    (\<exists>a \<in> set votes2. cp_root (ad_target (aa_data a)) = cp_root t2 \<and> i \<in> participants_of a)}"
    by (auto simp: attesters_def)
  finally show ?thesis .
qed

theorem checkpoints_accountable_witness:
  "length sample_validators \<le> 3 * card {i. i < length sample_validators \<and>
    (\<exists>a \<in> set (attestations (b_body sample_block_2)).
      cp_root (ad_target (aa_data a)) = cp_root (st_latest_justified sample_state_2) \<and> i \<in> participants_of a) \<and>
    (\<exists>a \<in> set (attestations (b_body sample_block_2) @ attestations (b_body sample_block_3)).
      cp_root (ad_target (aa_data a)) = cp_root (st_latest_justified sample_state_3) \<and> i \<in> participants_of a)}"
  by (rule checkpoints_accountable[OF sample_genesis_generated _ _ sample_chain_votes])
     (simp_all add: sample_validators_def validator_registry_limit_def sample_state_2_def sample_state_3_def
        checkpoint_at_def)

end
