(* ===== verification/Peer_Metrics.thy ===== *)
theory Peer_Metrics
  imports Network_Service
begin

text \<open>
  The network service and the metrics together: the events that the service reports reach the counters of
  \<^verbatim>\<open>metrics.rs\<close>, and the counters hold the numbers of connections, failures and disconnections.
\<close>

section \<open>Reporting\<close>

fun count_event :: "('m, 'w) prometheus_lib \<Rightarrow> 'm metrics \<Rightarrow> peer_event \<Rightarrow> 'w \<Rightarrow> 'w res" where
  "count_event P m (PeerConnectionSuccess is_inbound) w = register_peer_connection_success P m is_inbound w"
| "count_event P m (PeerConnectionFailure is_inbound) w = register_peer_connection_failure P m is_inbound w"
| "count_event P m (PeerDisconnect is_inbound reason) w = register_peer_disconnect P m is_inbound reason w"

text \<open>\<^verbatim>\<open>METRICS.get().map(...)\<close>: the outcome of the call is dropped.\<close>

fun report :: "('m, 'w) prometheus_lib \<Rightarrow> 'm metrics option \<Rightarrow> action \<Rightarrow> 'w \<Rightarrow> 'w" where
  "report P (Some m) (CountEvent e) w = (case count_event P m e w of Ok w' \<Rightarrow> w' | _ \<Rightarrow> w)"
| "report P ms act w = w"

definition run_reported ::
  "p2p_lib \<Rightarrow> ssz_codec \<Rightarrow> swarm \<Rightarrow> ('m, 'w) prometheus_lib \<Rightarrow> 'm metrics option \<Rightarrow> service_event list \<Rightarrow>
   network_service \<times> 'w \<Rightarrow> network_service \<times> 'w" where
  "run_reported L C W P ms es s =
     fold (\<lambda>e (n, w). let (n', acts) = service_step L C W e n in (n', fold (report P ms) acts w)) es s"

text \<open>The metric of \<^verbatim>\<open>PeerCount::new\<close>.\<close>

definition report_peer_count ::
  "('m, 'w) prometheus_lib \<Rightarrow> 'm metrics option \<Rightarrow> peer_count \<Rightarrow> 'w \<Rightarrow> 'w res" where
  "report_peer_count P ms pc w =
     (case ms of
        None \<Rightarrow> Ok w
      | Some m \<Rightarrow>
          if uint (connected pc) < 2 ^ 63
          then map_res (\<lambda>child. pm_set P child (uint (connected pc)) w)
            (expect (pm_child P (lean_connected_peers m) [''unknown'']) InconsistentLabels)
          else Ok w)"

section \<open>What is counted\<close>

text \<open>The counter of a reported event, and the event that something the service handles is reported as.\<close>

fun event_key :: "peer_event \<Rightarrow> string \<times> string list" where
  "event_key (PeerConnectionSuccess b) = (''lean_peer_connection_events_total'', [direction_label b, ''success''])"
| "event_key (PeerConnectionFailure b) = (''lean_peer_connection_events_total'', [direction_label b, ''failure''])"
| "event_key (PeerDisconnect b r) = (''lean_peer_disconnection_events_total'', [direction_label b, reason_label r])"

fun reported_as :: "service_event \<Rightarrow> peer_event option" where
  "reported_as (SwarmEvent (ConnectionEstablished peer is_dialer)) = Some (PeerConnectionSuccess (\<not> is_dialer))"
| "reported_as (SwarmEvent (ConnectionClosed peer cause is_dialer)) = Some (PeerDisconnect (\<not> is_dialer) (close_reason cause))"
| "reported_as (SwarmEvent IncomingConnectionError) = Some (PeerConnectionFailure True)"
| "reported_as (SwarmEvent (OutgoingConnectionError peer)) = Some (PeerConnectionFailure False)"
| "reported_as e = None"

lemma event_key_inject: "event_key e = event_key e' \<longleftrightarrow> e = e'"
proof -
  have "direction_label b = direction_label c \<longleftrightarrow> b = c" for b c by (simp add: direction_label_def)
  moreover have "reason_label r = reason_label q \<longleftrightarrow> r = q" for r q by (cases r; cases q) simp_all
  ultimately show ?thesis by (cases e; cases e') simp_all
qed

lemma report_counts:
  assumes "prometheus_laws P V" and "metrics_new P = Ok m"
  shows "value_of V (report P (Some m) (CountEvent e) w) =
    (value_of V w)(event_key e := (value_of V w (event_key e) + 1) mod 2 ^ 64)"
proof -
  let ?c = "lean_peer_connection_events_total m" and ?d = "lean_peer_disconnection_events_total m"
  have names: "mo_name (opts_of V ?c) = ''lean_peer_connection_events_total''"
    "mo_name (opts_of V ?d) = ''lean_peer_disconnection_events_total''"
    and labels: "length (mo_labels (opts_of V ?c)) = 2" "length (mo_labels (opts_of V ?d)) = 2"
    using metrics_created[OF assms(1)] assms(2) by (auto simp: lean_metrics_def lean_names_def)
  have inc: "value_of V (pm_inc P h w) = (value_of V w)(key_of V h := (value_of V w (key_of V h) + 1) mod 2 ^ 64)" for h
    using assms(1) by (simp add: prometheus_laws_def)
  have child: "\<exists>h. pm_child P ?c [l1, l2] = Ok h \<and> key_of V h = (''lean_peer_connection_events_total'', [l1, l2])"
    "\<exists>h. pm_child P ?d [l1, l2] = Ok h \<and> key_of V h = (''lean_peer_disconnection_events_total'', [l1, l2])" for l1 l2
    using child_set[OF assms(1), of "[l1, l2]" ?c] child_set[OF assms(1), of "[l1, l2]" ?d] names labels
    by (metis length_Cons list.size(3) numeral_2_eq_2)+
  show ?thesis
  proof (cases e)
    case (PeerConnectionSuccess b)
    with child(1)[of "direction_label b" "''success''"] inc show ?thesis
      by (auto simp: register_peer_connection_success_def map_res_def)
  next
    case (PeerConnectionFailure b)
    with child(1)[of "direction_label b" "''failure''"] inc show ?thesis
      by (auto simp: register_peer_connection_failure_def map_res_def)
  next
    case (PeerDisconnect b r)
    with child(2)[of "direction_label b" "reason_label r"] inc show ?thesis
      by (auto simp: register_peer_disconnect_def map_res_def)
  qed
qed

section \<open>What the service reports\<close>

fun counted :: "action \<Rightarrow> peer_event option" where
  "counted (CountEvent e) = Some e"
| "counted act = None"

lemma report_ignores: "counted act = None \<Longrightarrow> report P ms act w = w"
  by (cases act; cases ms) simp_all

lemma fold_report: "fold (report P ms) acts w = fold (\<lambda>e. report P ms (CountEvent e)) (List.map_filter counted acts) w"
proof (induction acts arbitrary: w)
  case (Cons act acts)
  then show ?case by (cases act) (simp_all add: map_filter_simps report_ignores)
qed (simp add: map_filter_simps)

lemma nothing_counted: "(\<And>act. act \<in> set acts \<Longrightarrow> counted act = None) \<Longrightarrow> List.map_filter counted acts = []"
  by (induction acts) (simp_all add: map_filter_simps)

lemma service_step_reports:
  "List.map_filter counted (snd (service_step L C W e n)) = (case reported_as e of Some p \<Rightarrow> [p] | None \<Rightarrow> [])"
proof -
  have dial: "List.map_filter counted (snd (connect_to_peers W addrs n)) = []" for addrs
    using connect_to_peers_keeps(5)[OF prod.collapse[symmetric]] by (intro nothing_counted) fastforce
  show ?thesis
  proof (cases e)
    case (OutboundRequest r)
    have "counted act = None" if "act \<in> set (dispatch_outbound_request C W r n)" for act
      using that by (cases r) (auto simp: send_blocks_by_root_request_def dest!: published_only split: option.splits if_splits)
    with OutboundRequest show ?thesis by (simp add: nothing_counted)
  next
    case (SwarmEvent se)
    show ?thesis
    proof (cases se)
      case (GossipsubEvent g)
      have "counted act = None" if "act \<in> set (handle_gossipsub_event C g)" for act
        using that by (cases g) (auto simp del: handle_gossipsub_event.simps(1) dest!: handled_messages)
      with SwarmEvent GossipsubEvent show ?thesis by (simp add: nothing_counted)
    next
      case (ReqRespEvent q)
      have "counted act = None" if "act \<in> set (handle_request_response_event q)" for act
        using that by (cases q rule: handle_request_response_event.cases) auto
      with SwarmEvent ReqRespEvent show ?thesis by (simp add: nothing_counted)
    qed (simp_all add: SwarmEvent map_filter_simps send_status_request_def)
  next
    case (DiscoveredRecord r)
    with dial show ?thesis
      by (cases r) (simp_all del: connect_to_peers.simps add: map_filter_simps split: option.splits)
  qed (simp_all add: dial map_filter_simps split: option.splits)
qed

lemma report_step:
  assumes "prometheus_laws P V" and "metrics_new P = Ok m"
  shows "value_of V (fold (report P (Some m)) (snd (service_step L C W s n)) w) (event_key e) mod 2 ^ 64 =
    (value_of V w (event_key e) + (if reported_as s = Some e then 1 else 0)) mod 2 ^ 64"
  by (simp add: fold_report service_step_reports report_counts[OF assms] event_key_inject del: report.simps
      split: option.splits)

section \<open>Properties\<close>

text \<open>
  C29: the counters of the peer events count the events.  Whatever the service handles, the counter of each direction
  and result has grown by the number of connections opened, connections that failed, or connections closed for
  that reason, up to the wrap-around of the 64-bit counter; and reporting does not change what the service does.
\<close>

theorem peer_events_counted:
  assumes "prometheus_laws P V" and "metrics_new P = Ok m"
  shows "value_of V (snd (run_reported L C W P (Some m) es (n, w))) (event_key e) mod 2 ^ 64 =
      (value_of V w (event_key e) + int (length (filter (\<lambda>s. reported_as s = Some e) es))) mod 2 ^ 64 \<and>
    fst (run_reported L C W P (Some m) es (n, w)) = run_service L C W es n"
proof (induction es arbitrary: n w)
  case Nil
  then show ?case by (simp add: run_reported_def run_service_def)
next
  case (Cons s es)
  obtain n' acts where step: "service_step L C W s n = (n', acts)" by fastforce
  let ?w = "fold (report P (Some m)) acts w" and ?c = "int (length (filter (\<lambda>s. reported_as s = Some e) es))"
  have run: "run_reported L C W P (Some m) (s # es) (n, w) = run_reported L C W P (Some m) es (n', ?w)"
    by (simp add: run_reported_def step)
  have "value_of V (snd (run_reported L C W P (Some m) es (n', ?w))) (event_key e) mod 2 ^ 64 =
      (value_of V ?w (event_key e) mod 2 ^ 64 + ?c) mod 2 ^ 64"
    using Cons.IH[of n' ?w] by (simp add: mod_add_left_eq)
  also have "value_of V ?w (event_key e) mod 2 ^ 64 =
      (value_of V w (event_key e) + (if reported_as s = Some e then 1 else 0)) mod 2 ^ 64"
    using report_step[OF assms, of L C W s n w e] by (simp add: step)
  also have "((value_of V w (event_key e) + (if reported_as s = Some e then 1 else 0)) mod 2 ^ 64 + ?c) mod 2 ^ 64 =
      (value_of V w (event_key e) + int (length (filter (\<lambda>s. reported_as s = Some e) (s # es)))) mod 2 ^ 64"
    by (simp only: mod_add_left_eq) (simp add: add.assoc)
  finally show ?case using Cons.IH[of n' ?w] by (simp add: run run_service_def step)
qed

theorem peer_events_counted_witness:
  "\<exists>m. metrics_new sample_prometheus = Ok m \<and>
    value_of sample_view (snd (run_reported sample_p2p sample_ssz sample_swarm sample_prometheus (Some m)
      [SwarmEvent (ConnectionEstablished [1] True), SwarmEvent IncomingConnectionError,
       SwarmEvent (ConnectionEstablished [2] True)] (sample_network, ([], \<lambda>_. 0))))
      (event_key (PeerConnectionSuccess False)) mod 2 ^ 64 = 2"
proof -
  obtain m where m: "metrics_new sample_prometheus = Ok m" using metrics_created[OF sample_prometheus_laws] by blast
  have "value_of sample_view ([], \<lambda>_. 0) k = 0" for k by (simp add: sample_view_def)
  with conjunct1[OF peer_events_counted[OF sample_prometheus_laws m, of sample_p2p sample_ssz sample_swarm
      "[SwarmEvent (ConnectionEstablished [1] True), SwarmEvent IncomingConnectionError,
        SwarmEvent (ConnectionEstablished [2] True)]" sample_network "([], \<lambda>_. 0)" "PeerConnectionSuccess False"]] m
  show ?thesis by auto
qed

end
