(* ===== verification/Http_Api.thy ===== *)
theory Http_Api
  imports Metrics Node_Records
begin

text \<open>
  The crate \<^verbatim>\<open>http_api\<close> and \<^verbatim>\<open>metrics/src/server.rs\<close>: the configuration of the HTTP server, its routes and the page
  of metrics.  Sockets, the router of \<^verbatim>\<open>axum\<close> and the text encoder of \<^verbatim>\<open>prometheus\<close> are library code: a router is
  the list of its routes, the encoder an argument.
\<close>

section \<open>The page of metrics\<close>

record metrics_server_config =
  metrics_timeout :: u64
  metrics_flag :: bool

text \<open>1000 seconds, in milliseconds.\<close>

definition metrics_server_config_default :: metrics_server_config where
  "metrics_server_config_default = \<lparr>metrics_timeout = 1000 * 1000, metrics_flag = False\<rparr>"

definition metrics_server_enabled :: "metrics_server_config \<Rightarrow> bool" where
  "metrics_server_enabled c = metrics_flag c"

record http_response =
  status_code :: nat
  response_body :: string

datatype api_error = InternalApiError

fun error_response :: "api_error \<Rightarrow> http_response" where
  "error_response InternalApiError = \<lparr>status_code = 500, response_body = []\<rparr>"

text \<open>A route with the timeout that the middleware puts on its requests, in milliseconds.\<close>

record route =
  route_path :: string
  route_timeout :: "u64 option"

definition metrics_module :: "metrics_server_config \<Rightarrow> route list" where
  "metrics_module c = [\<lparr>route_path = ''/metrics'', route_timeout = Some (metrics_timeout c)\<rparr>]"

definition get_metrics :: "('w \<Rightarrow> string option) \<Rightarrow> 'w \<Rightarrow> api_error + string" where
  "get_metrics encode w = (case encode w of Some page \<Rightarrow> Inr page | None \<Rightarrow> Inl InternalApiError)"

section \<open>The server\<close>

record http_server_config =
  http_address :: ip_addr
  http_port :: u16
  http_metrics :: metrics_server_config

definition default_http_port :: u16 where
  "default_http_port = 8080"

definition http_server_address :: "http_server_config \<Rightarrow> ip_addr \<times> u16" where
  "http_server_address c = (http_address c, http_port c)"

definition http_metrics_enabled :: "http_server_config \<Rightarrow> bool" where
  "http_metrics_enabled c = metrics_server_enabled (http_metrics c)"

definition normal_routes :: "http_server_config \<Rightarrow> route list" where
  "normal_routes c = (if http_metrics_enabled c then metrics_module (http_metrics c) else [])"

text \<open>\<open>binds\<close> tells whether the address can be bound; the result is the address and the routes that are served.\<close>

definition run_server :: "(ip_addr \<times> u16 \<Rightarrow> bool) \<Rightarrow> http_server_config \<Rightarrow> ((ip_addr \<times> u16) \<times> route list) res" where
  "run_server binds c =
     (let router = normal_routes c in
      if binds (http_server_address c) then Ok (http_server_address c, router) else Err ListenFailed)"

text \<open>What a served router answers to a request.\<close>

definition respond :: "('w \<Rightarrow> string option) \<Rightarrow> 'w \<Rightarrow> route list \<Rightarrow> string \<Rightarrow> http_response" where
  "respond encode w router path =
     (if \<exists>r \<in> set router. route_path r = path
      then (case get_metrics encode w of
          Inr page \<Rightarrow> \<lparr>status_code = 200, response_body = page\<rparr>
        | Inl e \<Rightarrow> error_response e)
      else \<lparr>status_code = 404, response_body = []\<rparr>)"

section \<open>Properties\<close>

text \<open>
  The page of metrics is served exactly when there are metrics.  With the configuration that also decides whether
  metrics are created at start-up, a request for \<^verbatim>\<open>/metrics\<close> is answered with the encoded page if the metrics exist
  (or with an internal error if it cannot be encoded) and is not found otherwise; nothing else is ever served.
\<close>

theorem metrics_page_served:
  assumes "start_metrics P (http_metrics_enabled c) now w = Ok (ms, w')"
    and "run_server binds c = Ok (address, router)"
  shows "respond encode u router path =
    (if ms \<noteq> None \<and> path = ''/metrics''
     then (case encode u of
         Some page \<Rightarrow> \<lparr>status_code = 200, response_body = page\<rparr>
       | None \<Rightarrow> \<lparr>status_code = 500, response_body = []\<rparr>)
     else \<lparr>status_code = 404, response_body = []\<rparr>)"
proof -
  have "router = normal_routes c" using assms(2) by (auto simp: run_server_def Let_def split: if_splits)
  moreover have "ms \<noteq> None \<longleftrightarrow> http_metrics_enabled c"
    using assms(1) by (auto simp: start_metrics_def split: if_splits)
  ultimately show ?thesis
    by (auto simp: respond_def normal_routes_def metrics_module_def get_metrics_def split: option.splits)
qed

theorem metrics_page_served_witness:
  "respond (\<lambda>_. Some ''page'') () [] ''/metrics'' = \<lparr>status_code = 404, response_body = []\<rparr>"
  using metrics_page_served[of sample_prometheus
      "\<lparr>http_address = V4 2130706433, http_port = default_http_port, http_metrics = metrics_server_config_default\<rparr>"
      0 "([], \<lambda>_. 0)" None "([], \<lambda>_. 0)" "\<lambda>_. True" "(V4 2130706433, default_http_port)" "[]" "\<lambda>_. Some ''page''" "()"
      "''/metrics''"]
  by (simp add: http_metrics_enabled_def metrics_server_enabled_def metrics_server_config_default_def start_metrics_def
      run_server_def normal_routes_def http_server_address_def)

end
