(* ===== verification/Spec2Isabelle.thy ===== *)
theory Spec2Isabelle
  imports Client Chain_Config Xmss_Serde Accountability Peer_Metrics Http_Api
begin

text \<open>
  A verification development of the lean consensus client, the Rust workspace under \<^verbatim>\<open>src/lean_client\<close>: a
  proof-of-stake client in which validators propose blocks in slots of four seconds and vote on them with
  hash-based signatures, finality follows the 3SF-mini rules and the head LMD-GHOST.

  \<^bold>\<open>The program and its model.\<close>  The parts of the program, from the bottom up, and the theories that model them:

  \<^item> \<open>Prelude\<close>, \<open>HashMaps\<close>, \<open>Float64\<close>: outcomes of Rust code (\<open>Ok\<close>, \<open>Err\<close>, \<open>Panic\<close>, \<open>Diverge\<close>), hash maps
    as association lists in iteration order, square roots of 64-bit floating point numbers.
  \<^item> \<open>Slots\<close>, \<open>Containers\<close>, \<open>Attestations\<close>: \<^verbatim>\<open>containers/src/slot.rs\<close>, the records of the crate \<^verbatim>\<open>containers\<close>, and the
    aggregation of attestations (\<^verbatim>\<open>attestation.rs\<close>).
  \<^item> \<open>State_Transition\<close>: \<^verbatim>\<open>containers/src/state.rs\<close>, genesis, slot and block processing, justification and
    finalization.  \<open>Justified_Window\<close> shows that the bit list of justified slots implements a set (locale
    \<open>justified_window\<close> and its interpretation), \<open>Justification\<close> and \<open>State_Invariants\<close> hold the invariant
    \<open>wf_state\<close>, \<open>State_Properties\<close> the properties of finality.  \<open>Finality\<close> shows that the votes of two thirds
    of the validators make progress, \<open>Accountability\<close> follows the votes through whole chains.
  \<^item> \<open>Xmss\<close>, \<open>Xmss_Serde\<close>: the crate \<^verbatim>\<open>xmss\<close>, keys, signatures, and their texts, JSON and SSZ.  \<open>Block_Building\<close>: \<^verbatim>\<open>build_block\<close> and
    \<^verbatim>\<open>verify_signatures\<close>.
  \<^item> \<open>Fork_Choice\<close>, \<open>Handlers\<close>: \<^verbatim>\<open>fork_choice/src/store.rs\<close> and \<^verbatim>\<open>handlers.rs\<close>.  \<open>Ghost\<close> relates the head
    selection to the LMD-GHOST rule, \<open>Store_Invariants\<close> holds the invariant \<open>store_ok\<close> of the store,
    \<open>Block_Queue\<close> the treatment of blocks without a parent, \<open>Votes\<close> that of attestations, \<open>Store_Runs\<close> what sequences
    of blocks, attestations and clock ticks reach, as the relation \<open>store_run\<close>.
  \<^item> \<open>Chain_Config\<close>: \<^verbatim>\<open>chain/src/config.rs\<close>.  \<open>Serde_Helpers\<close>: \<^verbatim>\<open>containers/src/serde_helpers.rs\<close>.
  \<^item> \<open>Validator\<close>: the crate \<^verbatim>\<open>validator\<close>, configuration, keys, proposals and attestations.
  \<^item> \<open>Gossip\<close>, \<open>Req_Resp\<close>, \<open>Node_Records\<close>, \<open>Network_Service\<close>: the crate \<^verbatim>\<open>networking\<close>, topics and messages, the
    request/response codecs, node records with discovery and bootnodes, and the network task.
  \<^item> \<open>Metrics\<close>: \<^verbatim>\<open>metrics/src/metrics.rs\<close> and \<^verbatim>\<open>helpers.rs\<close>, the 32 metrics and their registration.  \<open>Peer_Metrics\<close>: what
    the network task reports to them.  \<open>Http_Api\<close>: \<^verbatim>\<open>metrics/src/server.rs\<close> and the crate \<^verbatim>\<open>http_api\<close>.
  \<^item> \<open>Node\<close>: the chain task of \<^verbatim>\<open>src/main.rs\<close>.  \<open>Client\<close>: start-up, and the chain task and the network task running
    side by side, as the step relation \<open>client_step\<close>.

  A struct is a record, an enum a datatype, a \<^verbatim>\<open>u64\<close> a 64-bit word with the wrap-around of a release build, a
  function that mutates a store a function from the store to the new store and an outcome; each panic and each
  early return of the source is a branch.

  \<^bold>\<open>Code outside the repository\<close> is an argument: \<open>ssz_root\<close> (the hash tree roots), \<open>xmss_lib\<close> (leansig, lean-multisig
  and hex), \<open>first_of\<close> (the element a hash set yields first), \<open>files\<close> and \<open>host\<close> (the file system), \<open>ssz_codec\<close>,
  \<open>bitlist_ssz\<close> and \<open>snappy\<close> (encodings), \<open>p2p_lib\<close>, \<open>discv5_lib\<close> and \<open>swarm\<close> (libp2p and discv5),
  \<open>prometheus_lib\<close> (prometheus).  What is assumed of
  it is a hypothesis of the theorem concerned: \<open>root_determines_slot\<close>, that blocks with the same root have the
  same slot, for the store; that decoding inverts encoding, for round trips; that a randomly drawn element is
  one of the list, for requests; \<open>prometheus_laws\<close>, that valid options are accepted, names that are not taken can be
  registered and a counter counts, for the metrics.

  \<^bold>\<open>What is shown.\<close>
  \<^item> State transition: states reached by accepted blocks are well formed; finalization never goes back and
    finalized blocks stay in the history; a slot is justified only by two thirds of the validators, and the votes
    of two thirds do justify and finalize; the latest checkpoints of two chains share a third of the validators,
    and the chains hold their votes; the lists of a state stay within the limits of their types; attestations
    are processed without panic except on two kinds of input, and on these the panic is proved; the flat encoding of
    the votes is read back.
  \<^item> Blocks: a block that is built is accepted; no block is built when the attesters of some data are known partly from
    gossip and partly from proofs; which blocks the signature check accepts.
  \<^item> Fork choice: the head is the GHOST head, whatever the order of the hash maps; the walks to the attestation target
    end, with a panic when the finalized block has overtaken the safe target; every handler keeps the invariant of the store; the clock is never stuck; blocks may arrive before their
    parents; a rejected block changes nothing; newer votes are not forgotten for older ones when a vote
    is recorded, but can be when the pending votes are accepted.
  \<^item> Validators and node: own attestations are accepted by the own store; a proposer signs twice for its
    slot; a proposal without keys stays in the store; a node proposes and attests at most
    once per slot, and keeps its store consistent under any sequence of ticks and messages.
  \<^item> Network: topics, requests and responses are read back; the peer counter is right; what is dialled and
    asked for; the metrics of peer events count these events.
  \<^item> Keys and metrics: which forms of keys and signatures are read back; metrics can always be enabled, and their
    page is served if and only if they are.
  \<^item> The client: whatever the interleaving of its tasks, it publishes only blocks and attestations that it has
    accepted (below).

  \<^bold>\<open>Interfaces.\<close>  Laws that several parts share are locales with interpretations on the model: maps
  (\<open>map_adt\<close> in \<open>HashMaps\<close>), the set of justified slots (\<open>justified_window\<close>), the tree of blocks (\<open>rooted_tree\<close> in
  \<open>Ghost\<close>), texts of keys (\<open>hex_text\<close> in \<open>Xmss\<close>), codecs (\<open>codec\<close> in \<open>Req_Resp\<close>), duties done once per slot
  (\<open>once_per_slot\<close> in \<open>Node\<close>).

  \<^bold>\<open>Loops.\<close>  Loops with a bound are structural recursion or have a measure.  The walks along parents in the fork choice
  may not end on a map with a cycle of parents: they run with fuel of one more than the number of blocks, and
  running out is \<open>Diverge\<close>; on a store that satisfies its invariant parents are older than their children, so
  the fuel is enough, which is part of the theorems.

  \<^bold>\<open>Not modelled.\<close>  The gauges, timers and counters that consensus code sets beside its work (\<^verbatim>\<open>METRICS.get()\<close> in
  \<^verbatim>\<open>state.rs\<close>, \<^verbatim>\<open>handlers.rs\<close>, \<^verbatim>\<open>store.rs\<close>, \<^verbatim>\<open>validator\<close> and \<^verbatim>\<open>xmss\<close>): output only, nothing of the program reads it back.
  Logging, the sockets of the HTTP server, timers, command line parsing.  The derived serde and SSZ
  codings of the containers, which are library code.  The behaviour of libp2p and discv5 after a request was handed to
  them.
\<close>

section \<open>Properties of the client as a whole\<close>

text \<open>
  C11: a client puts on the network only what it has accepted itself.  In every interleaving of the chain task and the
  network task, a published block is in the store, with its state transition checked, and a published
  attestation names a source, a target and a head that are in the store; blocks are asked for by one root
  at a time.  The store satisfies its invariant and has forgotten no block, its finalized slot has not moved
  backwards, and the peer counter is the number of connected peers.
\<close>

theorem client_publishes_accepted:
  assumes "client_ok H c0" and "client_run first_of X H L C service c0 acts c"
  shows "(\<forall>topic data. Publish topic data \<in> set acts \<longrightarrow>
      (\<exists>sb. topic = block_topic_text \<and> block_to_ssz C sb = Some data \<and>
        hm_contains_key (blocks (nd_store (chain c))) (root_block H (bwa_block (sb_message sb)))) \<or>
      (\<exists>a. topic = attestation_topic_text \<and> attestation_to_ssz C a = Some data \<and>
        (\<forall>cp \<in> {ad_source (sa_message a), ad_target (sa_message a), ad_head (sa_message a)}.
          hm_contains_key (blocks (nd_store (chain c))) (cp_root cp)))) \<and>
    (\<forall>peer roots. SendRequest peer (BlocksByRootRequest roots) \<in> set acts \<longrightarrow> (\<exists>r. roots = [r] \<and> r \<noteq> 0)) \<and>
    store_ok H (nd_store (chain c)) \<and>
    (\<forall>r. hm_contains_key (blocks (nd_store (chain c0))) r \<longrightarrow> hm_contains_key (blocks (nd_store (chain c))) r) \<and>
    cp_slot (fc_latest_finalized (nd_store (chain c0))) \<le> cp_slot (fc_latest_finalized (nd_store (chain c))) \<and>
    peer_count_shared (net c) = word_of_nat (card {p. hm_get (peer_table (net c)) p = Some Connected})"
proof (intro conjI)
  note run = client_run_ok[OF assms(2,1)]
  have wire: "wire_ok H C (nd_store (chain c)) act" if "act \<in> set acts" for act using run that by blast
  show "\<forall>topic data. Publish topic data \<in> set acts \<longrightarrow>
      (\<exists>sb. topic = block_topic_text \<and> block_to_ssz C sb = Some data \<and>
        hm_contains_key (blocks (nd_store (chain c))) (root_block H (bwa_block (sb_message sb)))) \<or>
      (\<exists>a. topic = attestation_topic_text \<and> attestation_to_ssz C a = Some data \<and>
        (\<forall>cp \<in> {ad_source (sa_message a), ad_target (sa_message a), ad_head (sa_message a)}.
          hm_contains_key (blocks (nd_store (chain c))) (cp_root cp)))"
    by (intro allI impI; drule wire) auto
  show "\<forall>peer roots. SendRequest peer (BlocksByRootRequest roots) \<in> set acts \<longrightarrow> (\<exists>r. roots = [r] \<and> r \<noteq> 0)"
    by (intro allI impI; drule wire) auto
  have ok: "store_ok H (nd_store (chain c0))" using assms(1) by (simp add: client_ok_def node_ok_def)
  with run show "store_ok H (nd_store (chain c))" by (simp add: client_ok_def node_ok_def)
  from run ok show "\<forall>r. hm_contains_key (blocks (nd_store (chain c0))) r \<longrightarrow> hm_contains_key (blocks (nd_store (chain c))) r"
    "cp_slot (fc_latest_finalized (nd_store (chain c0))) \<le> cp_slot (fc_latest_finalized (nd_store (chain c)))"
    by (simp_all add: forward_def evolves_def)
  from run show "peer_count_shared (net c) = word_of_nat (card {p. hm_get (peer_table (net c)) p = Some Connected})"
    by (simp add: client_ok_def service_ok_def connected_set_def)
qed

theorem client_publishes_accepted_witness:
  "\<exists>c0 c (sb :: signed_block_with_attestation). client_run Min lenient_lib sample_root sample_p2p sample_block_ssz (Some sample_keyed) c0
      [Publish block_topic_text [7]] c \<and>
    hm_contains_key (blocks (nd_store (chain c))) (root_block sample_root (bwa_block (sb_message sb)))"
proof -
  obtain n c where ok: "client_ok sample_root (client_new (node_new sample_store) n)"
    and run: "client_run Min lenient_lib sample_root sample_p2p sample_block_ssz (Some sample_keyed)
      (client_new (node_new sample_store) n) [Publish block_topic_text [7]] c"
    by (rule sample_client_run)
  have "block_topic_text \<noteq> attestation_topic_text"
    by (simp add: block_topic_text_def attestation_topic_text_def topic_to_string_def block_topic_def attestation_topic_def)
  with conjunct1[OF client_publishes_accepted[OF ok run]]
  have "\<exists>sb :: signed_block_with_attestation. hm_contains_key (blocks (nd_store (chain c))) (root_block sample_root (bwa_block (sb_message sb)))" by auto
  with run show ?thesis by blast
qed

text \<open>
  C16: the client starts in a consistent state.  If \<^verbatim>\<open>main\<close> gets through its start-up, with a genesis of at least one and at
  most 4096 validators, then the node, its empty channels and the network service satisfy the invariant of the
  running client: the store holds the genesis block alone, no duty is done, and no peer is counted.
\<close>

theorem client_starts_consistent:
  assumes "root_determines_slot H" and "load_genesis (read_genesis E) X (arg_genesis a) = Ok (time, vs)"
    and "vs \<noteq> []" and "length vs \<le> validator_registry_limit"
    and "client_start E F X H L D W generated a = Ok (service, c)"
  shows "client_ok H c \<and> to_chain c = [] \<and> to_net c = [] \<and> length (blocks (nd_store (chain c))) = 1 \<and>
    fc_head (nd_store (chain c)) = hd (hm_keys (blocks (nd_store (chain c)))) \<and>
    last_proposal_slot (chain c) = None \<and> last_attestation_slot (chain c) = None \<and> peer_count_shared (net c) = 0"
proof -
  from assms(2,5) obtain st n where n: "start_network E X L D W generated a = Ok n"
    and c: "c = client_new (node_new (genesis_store H time st)) n"
    by (auto simp: client_start_def Let_def)
  obtain conf key where "new_with_keypair L D W conf 0 key = Ok n"
    using start_network_Ok[OF n] by blast
  then have "peer_count_shared n = 0" by (auto simp: new_with_keypair_def Let_def)
  with client_start_ok[OF assms] show ?thesis
    by (simp add: c client_new_def node_new_def genesis_store_def get_forkchoice_store_def Let_def hm_keys_def)
qed

theorem client_starts_consistent_witness:
  "\<exists>service c. client_start sample_host sample_files lenient_lib sample_root sample_p2p sample_discv5 sample_swarm [5]
    sample_args = Ok (service, c) \<and> client_ok sample_root c"
proof -
  obtain service c where start: "client_start sample_host sample_files lenient_lib sample_root sample_p2p sample_discv5
    sample_swarm [5] sample_args = Ok (service, c)" using sample_client_start by blast
  have load: "load_genesis (read_genesis sample_host) lenient_lib (arg_genesis sample_args) =
      Ok (1763757427, map (\<lambda>i. \<lparr>pubkey = public_key_default, v_index = word_of_nat i\<rparr>) [0..<3])"
    by (simp add: load_genesis_def sample_args_def)
  from client_starts_consistent[OF sample_root_slot load _ _ start] start show ?thesis
    by (auto simp: validator_registry_limit_def)
qed

end
